(* ===== verification/Yaaf_Prelude.thy ===== *)
theory Yaaf_Prelude
  imports Main "HOL-Library.Word" "HOL-Library.AList" "HOL-Library.Multiset"
begin

text \<open>
  What every component of the development shares: the faults a C++ operation can end in, the
  state-and-fault shape of an operation with its rules of reasoning, unordered containers as
  association lists, and decimal printing of numbers.

  An operation that may throw or meet undefined behaviour returns a sum: \<open>Inl\<close> a fault, or \<open>Inr\<close> its
  value. An operation that also changes state is a function from the state to such a sum and the
  state it leaves behind; the state survives a throw, as it does in C++.
\<close>

section \<open>Faults and operations\<close>

text \<open>
  \<open>Throw\<close> is an exception derived from \<^verbatim>\<open>std::exception\<close> with its \<^verbatim>\<open>what()\<close> text. The other
  constructors are behaviour the language leaves undefined or that never returns: a null pointer is
  dereferenced, an end iterator is dereferenced, memory is read or written past its end, a mutex the
  thread owns is locked again, an exception leaves a thread function, a signed integer overflows, a loop or
  recursion does not end.
  A \<^verbatim>\<open>catch (std::exception &)\<close> catches the first kind only.
\<close>

datatype fault =
    Throw string
  | NullDeref
  | EndDeref
  | OutOfBounds
  | Relock
  | Terminate
  | Overflow
  | Unbounded

type_synonym ('s, 'a) cpp = "'s \<Rightarrow> (fault + 'a) \<times> 's"

definition retM :: "'a \<Rightarrow> ('s, 'a) cpp" where
  "retM x = (\<lambda>s. (Inr x, s))"

definition faultM :: "fault \<Rightarrow> ('s, 'a) cpp" where
  "faultM e = (\<lambda>s. (Inl e, s))"

definition liftM :: "fault + 'a \<Rightarrow> ('s, 'a) cpp" where
  "liftM r = (\<lambda>s. (r, s))"

definition getM :: "('s \<Rightarrow> 'a) \<Rightarrow> ('s, 'a) cpp" where
  "getM f = (\<lambda>s. (Inr (f s), s))"

definition modM :: "('s \<Rightarrow> 's) \<Rightarrow> ('s, unit) cpp" where
  "modM f = (\<lambda>s. (Inr (), f s))"

definition bindM :: "('s, 'a) cpp \<Rightarrow> ('a \<Rightarrow> ('s, 'b) cpp) \<Rightarrow> ('s, 'b) cpp" where
  "bindM m f = (\<lambda>s. case m s of (Inl e, s') \<Rightarrow> (Inl e, s') | (Inr x, s') \<Rightarrow> f x s')"

definition seqM :: "('s, 'a) cpp \<Rightarrow> ('s, 'b) cpp \<Rightarrow> ('s, 'b) cpp" where
  "seqM m n = bindM m (\<lambda>_. n)"

definition whenM :: "bool \<Rightarrow> ('s, unit) cpp \<Rightarrow> ('s, unit) cpp" where
  "whenM b m = (if b then m else retM ())"

text \<open>A handler for \<^verbatim>\<open>std::exception\<close>, and a range-based \<^verbatim>\<open>for\<close> loop.\<close>

definition tryM :: "('s, 'a) cpp \<Rightarrow> (string \<Rightarrow> ('s, 'a) cpp) \<Rightarrow> ('s, 'a) cpp" where
  "tryM m h = (\<lambda>s. case m s of (Inl (Throw e), s') \<Rightarrow> h e s' | r \<Rightarrow> r)"

fun forM :: "'b list \<Rightarrow> ('b \<Rightarrow> ('s, unit) cpp) \<Rightarrow> ('s, unit) cpp" where
  "forM [] f = retM ()"
| "forM (x # xs) f = seqM (f x) (forM xs f)"

definition bindR :: "fault + 'a \<Rightarrow> ('a \<Rightarrow> fault + 'b) \<Rightarrow> fault + 'b" where
  "bindR r f = (case r of Inl e \<Rightarrow> Inl e | Inr x \<Rightarrow> f x)"

named_theorems cpp_defs \<open>definitions of the operation combinators\<close>

lemmas cpp_combinators [cpp_defs] =
  retM_def faultM_def liftM_def getM_def modM_def seqM_def whenM_def

lemma bindM_Inl [simp]: "m s = (Inl e, s') \<Longrightarrow> bindM m f s = (Inl e, s')"
  and bindM_Inr [simp]: "m s = (Inr x, s') \<Longrightarrow> bindM m f s = f x s'"
  by (simp_all add: bindM_def)

lemma bindM_eq: "bindM m f s =
    (case fst (m s) of Inl e \<Rightarrow> (Inl e, snd (m s)) | Inr x \<Rightarrow> f x (snd (m s)))"
  by (cases "m s") (auto simp: bindM_def split: sum.splits)

lemma bindR_simps [simp]:
  "bindR (Inl e) f = Inl e" "bindR (Inr x) f = f x"
  by (simp_all add: bindR_def)

lemma bindR_eq_Inr: "bindR r f = Inr y \<longleftrightarrow> (\<exists>x. r = Inr x \<and> f x = Inr y)"
  by (cases r) auto

lemma retM_app [simp]: "retM x s = (Inr x, s)"
  and faultM_app [simp]: "faultM e s = (Inl e, s)"
  and liftM_app [simp]: "liftM r s = (r, s)"
  and getM_app [simp]: "getM g s = (Inr (g s), s)"
  and modM_app [simp]: "modM h s = (Inr (), h s)"
  by (simp_all add: cpp_defs)

lemma bindM_prims [simp]:
  "bindM (retM x) f s = f x s"
  "bindM (faultM e) f s = (Inl e, s)"
  "bindM (getM g) f s = f (g s) s"
  "bindM (modM h) k s = k () (h s)"
  "bindM (liftM (Inr x)) f s = f x s"
  "bindM (liftM (Inl e)) f s = (Inl e, s)"
  by (simp_all add: cpp_defs bindM_def)

lemma seqM_prims [simp]:
  "seqM (retM x) n s = n s"
  "seqM (faultM e) n s = (Inl e, s)"
  "seqM (getM g) n s = n s"
  "seqM (modM h) n s = n (h s)"
  by (simp_all add: seqM_def)

lemma seqM_Inl [simp]: "m s = (Inl e, s') \<Longrightarrow> seqM m n s = (Inl e, s')"
  and seqM_Inr [simp]: "m s = (Inr x, s') \<Longrightarrow> seqM m n s = n s'"
  by (simp_all add: seqM_def)

lemma whenM_simps [simp]: "whenM True m = m" "whenM False m s = (Inr (), s)"
  by (simp_all add: cpp_defs)

lemma tryM_simps [simp]:
  "m s = (Inr x, s') \<Longrightarrow> tryM m h s = (Inr x, s')"
  "m s = (Inl (Throw e), s') \<Longrightarrow> tryM m h s = h e s'"
  by (simp_all add: tryM_def)

section \<open>Triples\<close>

text \<open>
  \<open>triple P m Q E\<close>: from a state with \<open>P\<close>, the operation either returns a value and a state
  related by \<open>Q\<close>, or faults in a state related to the fault by \<open>E\<close>. Operations are total functions, so
  \<open>E = (\<lambda>_ _. False)\<close> says that the operation returns.
\<close>

definition triple ::
    "('s \<Rightarrow> bool) \<Rightarrow> ('s, 'a) cpp \<Rightarrow> ('a \<Rightarrow> 's \<Rightarrow> bool) \<Rightarrow> (fault \<Rightarrow> 's \<Rightarrow> bool) \<Rightarrow> bool" where
  "triple P m Q E \<longleftrightarrow>
     (\<forall>s. P s \<longrightarrow> (case m s of (Inr x, s') \<Rightarrow> Q x s' | (Inl e, s') \<Rightarrow> E e s'))"

abbreviation preserves :: "('s \<Rightarrow> bool) \<Rightarrow> ('s, 'a) cpp \<Rightarrow> bool" where
  "preserves I m \<equiv> triple I m (\<lambda>_. I) (\<lambda>_. I)"

named_theorems triple_intro \<open>structural rules for triples\<close>

lemma tripleI:
  assumes "\<And>s x s'. P s \<Longrightarrow> m s = (Inr x, s') \<Longrightarrow> Q x s'"
    and "\<And>s e s'. P s \<Longrightarrow> m s = (Inl e, s') \<Longrightarrow> E e s'"
  shows "triple P m Q E"
  using assms by (auto simp: triple_def split: prod.splits sum.splits)

lemma triple_Inr: "triple P m Q E \<Longrightarrow> P s \<Longrightarrow> m s = (Inr x, s') \<Longrightarrow> Q x s'"
  and triple_Inl: "triple P m Q E \<Longrightarrow> P s \<Longrightarrow> m s = (Inl e, s') \<Longrightarrow> E e s'"
  by (auto simp: triple_def split: prod.splits sum.splits)

lemma preserves_snd: "preserves I m \<Longrightarrow> I s \<Longrightarrow> I (snd (m s))"
  by (cases "m s"; cases "fst (m s)") (auto simp: triple_def split: prod.splits sum.splits)

lemma preservesI: "(\<And>s. I s \<Longrightarrow> I (snd (m s))) \<Longrightarrow> preserves I m"
  by (force simp: triple_def split: prod.splits sum.splits)

lemma triple_weaken:
  "triple P m Q E \<Longrightarrow> (\<And>s. P' s \<Longrightarrow> P s) \<Longrightarrow> (\<And>x s. Q x s \<Longrightarrow> Q' x s) \<Longrightarrow>
   (\<And>e s. E e s \<Longrightarrow> E' e s) \<Longrightarrow> triple P' m Q' E'"
  by (fastforce simp: triple_def split: prod.splits sum.splits)

lemma triple_retM [triple_intro]: "(\<And>s. P s \<Longrightarrow> Q x s) \<Longrightarrow> triple P (retM x) Q E"
  by (simp add: triple_def)

lemma triple_faultM [triple_intro]: "(\<And>s. P s \<Longrightarrow> E e s) \<Longrightarrow> triple P (faultM e) Q E"
  by (simp add: triple_def)

lemma triple_getM: "(\<And>s. P s \<Longrightarrow> Q (g s) s) \<Longrightarrow> triple P (getM g) Q E"
  by (simp add: triple_def)

lemma triple_modM [triple_intro]: "(\<And>s. P s \<Longrightarrow> Q () (h s)) \<Longrightarrow> triple P (modM h) Q E"
  by (simp add: triple_def)

lemma triple_bindM:
  assumes m: "triple P m R E" and f: "\<And>x. triple (R x) (f x) Q E"
  shows "triple P (bindM m f) Q E"
proof (rule tripleI)
  fix s x s' assume "P s" and "bindM m f s = (Inr x, s')"
  then show "Q x s'"
    by (cases "m s"; cases "fst (m s)") (auto dest: triple_Inr [OF m] triple_Inr [OF f])
next
  fix s e s' assume "P s" and "bindM m f s = (Inl e, s')"
  then show "E e s'"
    by (cases "m s"; cases "fst (m s)")
      (auto dest: triple_Inr [OF m] triple_Inl [OF m] triple_Inl [OF f])
qed

lemma triple_seqM:
  "triple P m (\<lambda>_. R) E \<Longrightarrow> triple R n Q E \<Longrightarrow> triple P (seqM m n) Q E"
  unfolding seqM_def by (rule triple_bindM)

lemma preserves_bindM [triple_intro]:
  "preserves I m \<Longrightarrow> (\<And>x. preserves I (f x)) \<Longrightarrow> preserves I (bindM m f)"
  by (rule triple_bindM)

lemma preserves_seqM [triple_intro]:
  "preserves I m \<Longrightarrow> preserves I n \<Longrightarrow> preserves I (seqM m n)"
  by (rule triple_seqM)

lemma preserves_getM [triple_intro]: "preserves I (getM g)"
  by (simp add: triple_def)

lemma preserves_liftM [triple_intro]: "preserves I (liftM r)"
  by (auto simp: triple_def split: sum.splits)

lemma preserves_whenM [triple_intro]: "(b \<Longrightarrow> preserves I m) \<Longrightarrow> preserves I (whenM b m)"
  by (auto simp: whenM_def intro: triple_retM)

lemma preserves_if [triple_intro]:
  "(b \<Longrightarrow> preserves I m) \<Longrightarrow> (\<not> b \<Longrightarrow> preserves I n) \<Longrightarrow> preserves I (if b then m else n)"
  by simp

lemma preserves_case_option [triple_intro]:
  "(x = None \<Longrightarrow> preserves I m) \<Longrightarrow> (\<And>y. x = Some y \<Longrightarrow> preserves I (n y)) \<Longrightarrow>
   preserves I (case x of None \<Rightarrow> m | Some y \<Rightarrow> n y)"
  by (cases x) auto

lemma preserves_tryM [triple_intro]:
  assumes m: "preserves I m" and h: "\<And>e. preserves I (h e)"
  shows "preserves I (tryM m h)"
proof (rule preservesI)
  fix s assume "I s"
  with m have I: "I (snd (m s))" by (rule preserves_snd)
  then have "I (snd (h e (snd (m s))))" for e by (rule preserves_snd [OF h])
  with I show "I (snd (tryM m h s))"
    by (cases "m s") (auto simp: tryM_def split: sum.splits fault.splits)
qed

lemma preserves_forM [triple_intro]:
  "(\<And>x. x \<in> set xs \<Longrightarrow> preserves I (f x)) \<Longrightarrow> preserves I (forM xs f)"
  by (induction xs) (auto intro: triple_intro)

lemma forM_append: "forM (xs @ ys) f s = seqM (forM xs f) (forM ys f) s"
  by (induction xs arbitrary: s) (auto simp: seqM_def bindM_eq split: sum.splits)

section \<open>Unordered containers\<close>

text \<open>
  \<^verbatim>\<open>std::unordered_map\<close> is an association list with distinct keys; the order of the list stands for
  the order in which an iteration visits the buckets, which the standard leaves open. \<^verbatim>\<open>find\<close> is
  \<^const>\<open>map_of\<close>, \<^verbatim>\<open>operator[]\<close> used as a store is \<^const>\<open>AList.update\<close>, \<^verbatim>\<open>erase\<close> is \<^const>\<open>AList.delete\<close>.
  \<^verbatim>\<open>std::unordered_set\<close> is a list without duplicates and its \<^verbatim>\<open>insert\<close> is \<^const>\<open>List.insert\<close>.
\<close>

type_synonym ('k, 'v) unordered_map = "('k \<times> 'v) list"

abbreviation keys_of :: "('k, 'v) unordered_map \<Rightarrow> 'k set" where
  "keys_of m \<equiv> dom (map_of m)"

abbreviation wf_map :: "('k, 'v) unordered_map \<Rightarrow> bool" where
  "wf_map m \<equiv> distinct (map fst m)"

lemma map_of_update [simp]: "map_of (AList.update k v m) = (map_of m)(k \<mapsto> v)"
  by (rule AList.update_conv')

lemma map_of_delete [simp]: "map_of (AList.delete k m) = (map_of m)(k := None)"
  by (rule AList.delete_conv')

lemma wf_map_update [simp]: "wf_map m \<Longrightarrow> wf_map (AList.update k v m)"
  by (rule AList.distinct_update)

lemma wf_map_delete [simp]: "wf_map m \<Longrightarrow> wf_map (AList.delete k m)"
  by (rule AList.distinct_delete)

lemma restrict_map_UNIV [simp]: "m |` UNIV = m"
  by (simp add: restrict_map_def)

lemma restrict_eq_Some [simp]: "(m |` S) k = Some v \<longleftrightarrow> k \<in> S \<and> m k = Some v"
  by (simp add: restrict_map_def)

lemma in_wf_map: "wf_map m \<Longrightarrow> (k, v) \<in> set m \<longleftrightarrow> map_of m k = Some v"
  by simp

lemma length_delete_less: "map_of m k = Some v \<Longrightarrow> length (AList.delete k m) < length m"
  by (induction m) (auto simp: AList.delete_eq split: if_splits intro: le_imp_less_Suc)

lemma card_keys_of: "wf_map m \<Longrightarrow> card (keys_of m) = length m"
  using distinct_card [of "map fst m"] by (simp add: dom_map_of_conv_image_fst)

section \<open>Decimal printing\<close>

text \<open>\<^verbatim>\<open>std::to_string\<close> of an unsigned value: its decimal digits, most significant first.\<close>

fun string_of_nat :: "nat \<Rightarrow> string" where
  "string_of_nat n =
     (if n < 10 then [char_of (48 + n)]
      else string_of_nat (n div 10) @ [char_of (48 + n mod 10)])"

declare string_of_nat.simps [simp del]

text \<open>The number a digit string stands for, the left inverse of printing.\<close>

definition digit_value :: "char \<Rightarrow> nat" where
  "digit_value c = of_char c - 48"

definition nat_of_string :: "string \<Rightarrow> nat" where
  "nat_of_string cs = foldl (\<lambda>n c. 10 * n + digit_value c) 0 cs"

lemma digit_value_char [simp]: "d < 10 \<Longrightarrow> digit_value (char_of (48 + d :: nat)) = d"
  by (simp add: digit_value_def)

lemma nat_of_string_of_nat: "nat_of_string (string_of_nat n) = n"
proof (induction n rule: string_of_nat.induct)
  case (1 n)
  show ?case
  proof (cases "n < 10")
    case True
    then show ?thesis by (simp add: string_of_nat.simps [of n] nat_of_string_def)
  next
    case False
    with "1.IH" have "nat_of_string (string_of_nat (n div 10)) = n div 10" by simp
    then have "nat_of_string (string_of_nat n) = 10 * (n div 10) + n mod 10"
      using False by (simp add: string_of_nat.simps [of n] nat_of_string_def)
    then show ?thesis by simp
  qed
qed

lemma string_of_nat_inject [simp]: "string_of_nat m = string_of_nat n \<longleftrightarrow> m = n"
  by (metis nat_of_string_of_nat)

lemma string_of_nat_not_Nil [simp]: "string_of_nat n \<noteq> []"
  by (subst string_of_nat.simps) simp

end
