(* ===== verification/Yaaf_Utils.thy ===== *)
theory Yaaf_Utils
  imports Yaaf_Prelude
begin

text \<open>
  The utility layer: string helpers of \<^verbatim>\<open>libyaaf/utils/strings.{h,cpp}\<close>, the \<^verbatim>\<open>ENSURE\<close> macro of
  \<^verbatim>\<open>libyaaf/utils/utils.h\<close> and the exception text of \<^verbatim>\<open>libyaaf/utils/exception.h\<close>. The lemmas show that the index
  loop of \<^verbatim>\<open>split\<close> computes the non-empty fields of the text, that \<^verbatim>\<open>split\<close> inverts joining, that
  \<^verbatim>\<open>tokens\<close> and \<^verbatim>\<open>split\<close> by a blank agree on text whose only white space is blanks, and that the argument
  array of \<^verbatim>\<open>args_to_string\<close> concatenates its arguments in order.
\<close>

section \<open>Splitting text\<close>

subsection \<open>Streams of words\<close>

text \<open>\<^verbatim>\<open>isspace\<close> of the classic locale, which stream extraction uses.\<close>

definition is_space :: "char \<Rightarrow> bool" where
  "is_space c \<longleftrightarrow> of_char c \<in> {9, 10, 11, 12, 13, 32 :: nat}"

text \<open>
  \<^verbatim>\<open>std::istream_iterator<std::string>\<close> skips white space, then reads up to the next white space; the
  iteration ends when an extraction finds no character.
\<close>

function tokens :: "string \<Rightarrow> string list" where
  "tokens str =
     (let rest = dropWhile is_space str in
      if rest = [] then []
      else takeWhile (\<lambda>c. \<not> is_space c) rest # tokens (dropWhile (\<lambda>c. \<not> is_space c) rest))"
  by pat_completeness auto
termination
proof (relation "measure length"; clarsimp)
  fix str :: string and c
  assume "c \<in> set str" and "\<not> is_space c"
  then have ne: "dropWhile is_space str \<noteq> []" by auto
  then have "\<not> is_space (hd (dropWhile is_space str))" by (rule hd_dropWhile)
  with ne have "length (dropWhile (\<lambda>c. \<not> is_space c) (dropWhile is_space str)) <
      length (dropWhile is_space str)"
    by (cases "dropWhile is_space str") (auto intro: le_imp_less_Suc length_dropWhile_le)
  then show "length (dropWhile (\<lambda>c. \<not> is_space c) (dropWhile is_space str)) < length str"
    using length_dropWhile_le [of is_space str] by linarith
qed

declare tokens.simps [simp del]

subsection \<open>Splitting at a separator\<close>

text \<open>\<^verbatim>\<open>text.find(sep, start)\<close>: the first position from \<open>start\<close> on, or \<^verbatim>\<open>npos\<close>.\<close>

definition find_from :: "string \<Rightarrow> char \<Rightarrow> nat \<Rightarrow> nat option" where
  "find_from tx sep start =
     (let pre = takeWhile (\<lambda>c. c \<noteq> sep) (drop start tx) in
      if start + length pre < length tx then Some (start + length pre) else None)"

definition substr :: "string \<Rightarrow> nat \<Rightarrow> nat \<Rightarrow> string" where
  "substr tx pos len = take len (drop pos tx)"

definition push_nonempty :: "string list \<Rightarrow> string \<Rightarrow> string list" where
  "push_nonempty toks tmp = (if tmp \<noteq> '''' then toks @ [tmp] else toks)"

lemma find_from_bounds: "find_from tx sep start = Some e \<Longrightarrow> start \<le> e \<and> e < length tx"
  by (auto simp: find_from_def Let_def split: if_splits)

function split_loop :: "string \<Rightarrow> char \<Rightarrow> nat \<Rightarrow> string list \<Rightarrow> string list" where
  "split_loop tx sep start toks =
     (case find_from tx sep start of
        Some e \<Rightarrow> split_loop tx sep (e + 1) (push_nonempty toks (substr tx start (e - start)))
      | None \<Rightarrow> push_nonempty toks (drop start tx))"
  by pat_completeness auto
termination
  by (relation "measure (\<lambda>(tx, sep, start, toks). length tx - start)")
    (auto dest: find_from_bounds)

declare split_loop.simps [simp del]

definition split :: "string \<Rightarrow> char \<Rightarrow> string list" where
  "split tx sep = split_loop tx sep 0 []"

subsection \<open>What splitting computes\<close>

text \<open>The fields of a text between separators, empty ones included.\<close>

function sep_fields :: "char \<Rightarrow> string \<Rightarrow> string list" where
  "sep_fields sep tx =
     (case dropWhile (\<lambda>c. c \<noteq> sep) tx of
        [] \<Rightarrow> [tx]
      | _ # rest \<Rightarrow> takeWhile (\<lambda>c. c \<noteq> sep) tx # sep_fields sep rest)"
  by pat_completeness auto
termination
proof (relation "measure (\<lambda>(sep, tx). length tx)"; clarsimp)
  fix sep tx c rest assume "dropWhile (\<lambda>c. c \<noteq> sep) tx = c # rest"
  then show "length rest < length tx"
    using length_dropWhile_le [of "\<lambda>c. c \<noteq> sep" tx] by simp
qed

declare sep_fields.simps [simp del]

lemma drop_length_takeWhile: "drop (length (takeWhile P xs)) xs = dropWhile P xs"
  by (metis append_eq_conv_conj takeWhile_dropWhile_id)

lemma find_from_None_iff:
  "find_from tx sep start = None \<longleftrightarrow> dropWhile (\<lambda>c. c \<noteq> sep) (drop start tx) = []"
proof -
  let ?tw = "takeWhile (\<lambda>c. c \<noteq> sep) (drop start tx)"
  have "length ?tw + length (dropWhile (\<lambda>c. c \<noteq> sep) (drop start tx)) = length tx - start"
    by (metis length_append length_drop takeWhile_dropWhile_id)
  then have "start + length ?tw < length tx \<longleftrightarrow> dropWhile (\<lambda>c. c \<noteq> sep) (drop start tx) \<noteq> []"
    by (cases "dropWhile (\<lambda>c. c \<noteq> sep) (drop start tx)") auto
  then show ?thesis by (simp only: find_from_def Let_def) auto
qed

lemma find_from_Some_fields:
  assumes "find_from tx sep start = Some e"
  shows "substr tx start (e - start) = takeWhile (\<lambda>c. c \<noteq> sep) (drop start tx)"
    and "dropWhile (\<lambda>c. c \<noteq> sep) (drop start tx) = tx ! e # drop (e + 1) tx"
proof -
  let ?tw = "takeWhile (\<lambda>c. c \<noteq> sep) (drop start tx)"
  from assms have e: "e = start + length ?tw" "e < length tx"
    by (auto simp: find_from_def Let_def split: if_splits)
  then show "substr tx start (e - start) = ?tw"
    by (metis add_diff_cancel_left' append_eq_conv_conj substr_def takeWhile_dropWhile_id)
  have "dropWhile (\<lambda>c. c \<noteq> sep) (drop start tx) = drop e tx"
    using drop_length_takeWhile [of "\<lambda>c. c \<noteq> sep" "drop start tx"] e by (simp add: add.commute)
  with e show "dropWhile (\<lambda>c. c \<noteq> sep) (drop start tx) = tx ! e # drop (e + 1) tx"
    by (simp add: Cons_nth_drop_Suc)
qed

lemma split_loop_fields:
  "split_loop tx sep start toks = toks @ filter (\<lambda>t. t \<noteq> '''') (sep_fields sep (drop start tx))"
proof (induction tx sep start toks rule: split_loop.induct)
  case (1 tx sep start toks)
  show ?case
  proof (cases "find_from tx sep start")
    case None
    then have "dropWhile (\<lambda>c. c \<noteq> sep) (drop start tx) = []"
      by (simp only: find_from_None_iff)
    with None show ?thesis
      by (simp add: split_loop.simps [of tx sep start] sep_fields.simps [of sep "drop start tx"]
          push_nonempty_def del: dropWhile_eq_Nil_conv)
  next
    case (Some e)
    note f = find_from_Some_fields [OF Some]
    have "split_loop tx sep start toks = split_loop tx sep (e + 1)
        (push_nonempty toks (takeWhile (\<lambda>c. c \<noteq> sep) (drop start tx)))"
      using Some f(1) by (simp add: split_loop.simps [of tx sep start])
    also have "\<dots> = push_nonempty toks (takeWhile (\<lambda>c. c \<noteq> sep) (drop start tx)) @
        filter (\<lambda>t. t \<noteq> '''') (sep_fields sep (drop (e + 1) tx))"
      using "1.IH" [OF Some] f(1) by simp
    finally show ?thesis
      using f(2) by (simp add: sep_fields.simps [of sep "drop start tx"] push_nonempty_def)
  qed
qed

lemma sep_fields_no_sep: "t \<in> set (sep_fields sep tx) \<Longrightarrow> sep \<notin> set t"
proof (induction sep tx rule: sep_fields.induct)
  case (1 sep tx)
  then show ?case
    by (subst (asm) (2) sep_fields.simps)
      (auto split: list.splits dest: set_takeWhileD simp: dropWhile_eq_Nil_conv)
qed

lemma sep_fields_append: "sep \<notin> set t \<Longrightarrow> sep_fields sep (t @ sep # rest) = t # sep_fields sep rest"
  by (subst sep_fields.simps) (simp add: dropWhile_append takeWhile_append)

lemma sep_fields_single: "sep \<notin> set t \<Longrightarrow> sep_fields sep t = [t]"
proof -
  assume "sep \<notin> set t"
  then have "dropWhile (\<lambda>c. c \<noteq> sep) t = []" by auto
  then show ?thesis by (subst sep_fields.simps) (simp del: dropWhile_eq_Nil_conv)
qed

text \<open>Joining with a separator, the inverse direction.\<close>

fun join :: "char \<Rightarrow> string list \<Rightarrow> string" where
  "join sep [] = ''''"
| "join sep [t] = t"
| "join sep (t # u # ts) = t @ sep # join sep (u # ts)"

lemma sep_fields_join:
  "ts \<noteq> [] \<Longrightarrow> (\<And>t. t \<in> set ts \<Longrightarrow> sep \<notin> set t) \<Longrightarrow> sep_fields sep (join sep ts) = ts"
  by (induction sep ts rule: join.induct) (simp_all add: sep_fields_append sep_fields_single)

lemma tokens_Nil [simp]: "tokens [] = []"
  by (subst tokens.simps) simp

lemma tokens_skip: "is_space c \<Longrightarrow> tokens (c # cs) = tokens cs"
  by (subst tokens.simps, subst (2) tokens.simps) simp

lemma tokens_word:
  assumes t: "t \<noteq> []" "\<And>c. c \<in> set t \<Longrightarrow> \<not> is_space c"
    and rest: "rest = [] \<or> is_space (hd rest)"
  shows "tokens (t @ rest) = t # tokens rest"
proof -
  have "dropWhile is_space (t @ rest) = t @ rest" using t by (cases t) auto
  moreover have "takeWhile (\<lambda>c. \<not> is_space c) (t @ rest) = t"
    and "dropWhile (\<lambda>c. \<not> is_space c) (t @ rest) = rest"
    using t rest by (cases rest; simp)+
  ultimately show ?thesis using t(1) by (subst tokens.simps) simp
qed

lemma tokens_fields:
  assumes "\<And>c. c \<in> set tx \<Longrightarrow> is_space c \<longleftrightarrow> c = sep"
  shows "tokens tx = filter (\<lambda>t. t \<noteq> []) (sep_fields sep tx)"
  using assms
proof (induction sep tx rule: sep_fields.induct)
  case (1 sep tx)
  let ?t = "takeWhile (\<lambda>c. c \<noteq> sep) tx"
  have t: "\<not> is_space c" if "c \<in> set ?t" for c
    using that "1.prems" by (auto dest: set_takeWhileD)
  show ?case
  proof (cases "dropWhile (\<lambda>c. c \<noteq> sep) tx")
    case Nil
    then have "?t = tx" by (metis append_Nil2 takeWhile_dropWhile_id)
    with t have "tokens tx = (if tx = [] then [] else [tx])"
      using tokens_word [of tx "[]"] by auto
    with Nil show ?thesis
      by (simp add: sep_fields.simps [of sep tx] del: dropWhile_eq_Nil_conv)
  next
    case (Cons d rest)
    then have d: "d = sep" using hd_dropWhile [of "\<lambda>c. c \<noteq> sep" tx] by simp
    have tx: "tx = ?t @ sep # rest" using Cons d by (metis takeWhile_dropWhile_id)
    then have sub: "set (sep # rest) \<subseteq> set tx" by (metis set_append Un_upper2)
    then have sp: "is_space sep" using "1.prems" by auto
    have "tokens tx = filter (\<lambda>t. t \<noteq> []) [?t] @ tokens (sep # rest)"
      using tokens_word [of ?t "sep # rest"] t sp tx by (cases "?t = []") auto
    also have "tokens (sep # rest) = filter (\<lambda>t. t \<noteq> []) (sep_fields sep rest)"
      using tokens_skip [OF sp, of rest] "1.IH" [OF Cons] "1.prems" sub by auto
    finally show ?thesis using Cons by (simp add: sep_fields.simps [of sep tx])
  qed
qed

section \<open>Letter case\<close>

text \<open>\<^verbatim>\<open>toupper\<close> and \<^verbatim>\<open>tolower\<close> of the classic locale change the 26 Latin letters only.\<close>

definition c_toupper :: "char \<Rightarrow> char" where
  "c_toupper c = (let n = of_char c :: nat in if 97 \<le> n \<and> n \<le> 122 then char_of (n - 32) else c)"

definition c_tolower :: "char \<Rightarrow> char" where
  "c_tolower c = (let n = of_char c :: nat in if 65 \<le> n \<and> n \<le> 90 then char_of (n + 32) else c)"

definition to_upper :: "string \<Rightarrow> string" where
  "to_upper tx = map c_toupper tx"

definition to_lower :: "string \<Rightarrow> string" where
  "to_lower tx = map c_tolower tx"

lemma of_char_toupper:
  "of_char (c_toupper c) = (let n = of_char c :: nat in if 97 \<le> n \<and> n \<le> 122 then n - 32 else n)"
  by (auto simp: c_toupper_def Let_def)

lemma of_char_tolower:
  "of_char (c_tolower c) = (let n = of_char c :: nat in if 65 \<le> n \<and> n \<le> 90 then n + 32 else n)"
  by (auto simp: c_tolower_def Let_def)

lemma char_eq_nat_iff: "c = d \<longleftrightarrow> (of_char c :: nat) = of_char d"
  by simp

lemma c_toupper_tolower: "c_toupper (c_tolower c) = c_toupper c"
  by (subst char_eq_nat_iff) (simp only: of_char_toupper of_char_tolower Let_def, auto)

lemma c_tolower_toupper: "c_tolower (c_toupper c) = c_tolower c"
  by (subst char_eq_nat_iff) (simp only: of_char_toupper of_char_tolower Let_def, auto)

section \<open>Building a string from arguments\<close>

text \<open>The overloads of \<^verbatim>\<open>inner::to_string\<close> the sources use: C strings, strings and integers.\<close>

datatype str_arg = A_cstr string | A_string string | A_uint nat | A_int int

definition string_of_int :: "int \<Rightarrow> string" where
  "string_of_int i = (if i < 0 then CHR ''-'' # string_of_nat (nat (- i)) else string_of_nat (nat i))"

fun inner_to_string :: "str_arg \<Rightarrow> string" where
  "inner_to_string (A_cstr s) = s"
| "inner_to_string (A_string s) = s"
| "inner_to_string (A_uint n) = string_of_nat n"
| "inner_to_string (A_int i) = string_of_int i"

text \<open>
  \<^verbatim>\<open>args_as_string\<close> writes the text of each argument into the next slot of a fixed array and adds
  up the sizes; \<^verbatim>\<open>args_to_string\<close> sizes the array by the number of arguments and appends the slots.
\<close>

fun args_as_string :: "string list \<Rightarrow> nat \<Rightarrow> nat \<Rightarrow> str_arg list \<Rightarrow> string list \<times> nat" where
  "args_as_string ss pos sz [] = (ss, sz)"
| "args_as_string ss pos sz (head # tail) =
     (let str = inner_to_string head
      in args_as_string (ss[pos := str]) (pos + 1) (sz + length str) tail)"

definition args_to_string :: "str_arg list \<Rightarrow> string" where
  "args_to_string args =
     (let (ss, sz) = args_as_string (replicate (length args) []) 0 0 args
      in foldl (\<lambda>result v. result @ v) [] ss)"

lemma args_as_string_eq:
  "length ss = pos + length args \<Longrightarrow>
   args_as_string ss pos sz args =
     (take pos ss @ map inner_to_string args,
      sz + sum_list (map (length \<circ> inner_to_string) args))"
proof (induction args arbitrary: ss pos sz)
  case (Cons head tail)
  have "take (pos + 1) (ss[pos := inner_to_string head]) = take pos ss @ [inner_to_string head]"
    using Cons.prems by (simp add: take_Suc_conv_app_nth)
  with Cons show ?case by (simp add: Let_def)
qed simp

lemma foldl_append_concat: "foldl (\<lambda>r v. r @ v) acc xss = acc @ concat xss"
  by (induction xss arbitrary: acc) auto

lemma args_to_string_eq: "args_to_string args = concat (map inner_to_string args)"
  by (simp add: args_to_string_def args_as_string_eq foldl_append_concat)

section \<open>Checks and exceptions\<close>

text \<open>
  \<^verbatim>\<open>ENSURE(A)\<close> throws with the text of its condition in a build with \<^verbatim>\<open>DOUBLE_CHECKS\<close> and is empty
  otherwise; the build option is the first argument.
\<close>

definition ensure :: "bool \<Rightarrow> bool \<Rightarrow> string \<Rightarrow> fault + unit" where
  "ensure double_checks cond what = (if double_checks \<and> \<not> cond then Inl (Throw what) else Inr ())"

record codepos =
  cp_file :: string
  cp_line :: nat
  cp_func :: string

definition codepos_toString :: "codepos \<Rightarrow> string" where
  "codepos_toString p = cp_file p @ '' line: '' @ string_of_nat (cp_line p) @
     '' function: '' @ cp_func p @ [CHR 10]"

lemma ensure_simps [simp]:
  "ensure False c t = Inr ()" "ensure dc True t = Inr ()" "ensure True False t = Inl (Throw t)"
  by (simp_all add: ensure_def)

section \<open>Properties\<close>

text \<open>
  C21: \<^verbatim>\<open>split\<close> returns exactly the non-empty fields of the text between separators, in order; no token is
  empty and none contains the separator.
\<close>

theorem split_spec:
  "split tx sep = filter (\<lambda>t. t \<noteq> []) (sep_fields sep tx) \<and>
   (\<forall>t. t \<in> set (split tx sep) \<longrightarrow> t \<noteq> [] \<and> sep \<notin> set t)"
  by (auto simp: split_def split_loop_fields dest: sep_fields_no_sep)

theorem split_spec_witness:
  "split ''//usr/a/'' CHR ''/'' = [''usr'', ''a''] \<and>
   ''usr'' \<noteq> [] \<and> CHR ''/'' \<notin> set ''usr''"
proof -
  have v: "split ''//usr/a/'' CHR ''/'' = [''usr'', ''a'']" by code_simp
  with split_spec [of "''//usr/a/''" "CHR ''/''"] show ?thesis by simp
qed

text \<open>
  Splitting inverts joining: for non-empty pieces that do not contain the separator, \<^verbatim>\<open>split\<close> of the
  pieces joined by the separator returns the pieces.
\<close>

theorem split_join:
  assumes "\<And>t. t \<in> set ts \<Longrightarrow> t \<noteq> [] \<and> sep \<notin> set t"
  shows "split (join sep ts) sep = ts"
proof (cases "ts = []")
  case True
  then show ?thesis by (simp add: split_def split_loop_fields sep_fields_single)
next
  case False
  then have "sep_fields sep (join sep ts) = ts" using assms by (intro sep_fields_join) auto
  then show ?thesis using assms by (simp add: split_def split_loop_fields filter_id_conv)
qed

theorem split_join_witness:
  "split (join CHR ''/'' [''root'', ''usr'', ''ping'']) CHR ''/'' = [''root'', ''usr'', ''ping'']"
  by (rule split_join) auto

text \<open>
  On text whose only white space is the separator, \<^verbatim>\<open>tokens\<close> (stream extraction) and \<^verbatim>\<open>split\<close> (index
  search) return the same pieces.
\<close>

theorem tokens_eq_split:
  assumes "\<And>c. c \<in> set tx \<Longrightarrow> is_space c \<longleftrightarrow> c = sep"
  shows "tokens tx = split tx sep"
  using tokens_fields [OF assms] by (simp add: split_def split_loop_fields)

theorem tokens_eq_split_witness: "tokens ''1 2  3'' = split ''1 2  3'' CHR '' ''"
  by (rule tokens_eq_split) (auto simp: is_space_def)

end
