(* ===== verification/Yaaf_Payload.thy ===== *)
theory Yaaf_Payload
  imports Yaaf_Types Yaaf_Utils
begin

text \<open>
  The message contents: \<^verbatim>\<open>payload_t\<close> of \<^verbatim>\<open>libyaaf/payload.h\<close>, a type-erased value behind a unique pointer,
  \<^verbatim>\<open>envelope\<close> of \<^verbatim>\<open>libyaaf/envelope.h\<close>, and the message structs of \<^verbatim>\<open>libyaaf/context_network.h\<close>. A payload is an optional
  value; the value's constructor plays the part of its \<^verbatim>\<open>std::type_info\<close>. The lemmas show what a cast,
  a copy, a move and an assignment do on empty and on filled payloads.
\<close>

section \<open>Values and their types\<close>

record network_actor_message =
  nam_name :: string
  nam_data :: "8 word list"

record listener_actor_message =
  lam_sender_id :: "64 word"
  lam_name :: string
  lam_data :: "8 word list"

record connection_status_message =
  csm_host :: string
  csm_errormsg :: string
  csm_is_connected :: bool

text \<open>
  The types of value the library itself stores in a payload, and values of a type of the user's own,
  known by its name. Of the parameter structs of the network library only the members the sources
  read are kept.
\<close>

datatype cpp_value =
    V_int "32 word"
  | V_u64 "64 word"
  | V_string string
  | V_bytes "8 word list"
  | V_network_message network_actor_message
  | V_listener_message listener_actor_message
  | V_connection_status connection_status_message
  | V_listener_params "16 word"
  | V_dial_params string "16 word"
  | V_user string nat

datatype cpp_type =
    T_int | T_u64 | T_string | T_bytes | T_network_message | T_listener_message
  | T_connection_status | T_listener_params | T_dial_params | T_user string

fun type_info :: "cpp_value \<Rightarrow> cpp_type" where
  "type_info (V_int _) = T_int"
| "type_info (V_u64 _) = T_u64"
| "type_info (V_string _) = T_string"
| "type_info (V_bytes _) = T_bytes"
| "type_info (V_network_message _) = T_network_message"
| "type_info (V_listener_message _) = T_listener_message"
| "type_info (V_connection_status _) = T_connection_status"
| "type_info (V_listener_params _) = T_listener_params"
| "type_info (V_dial_params _ _) = T_dial_params"
| "type_info (V_user n _) = T_user n"

section \<open>Payloads\<close>

text \<open>The holder pointer: \<open>None\<close> is \<^verbatim>\<open>nullptr\<close>.\<close>

type_synonym payload_t = "cpp_value option"

definition payload_of :: "cpp_value \<Rightarrow> payload_t" where
  "payload_of v = Some v"

definition payload_default :: payload_t where
  "payload_default = None"

text \<open>The copy constructor clones through the source's holder pointer without testing it.\<close>

definition payload_copy :: "payload_t \<Rightarrow> fault + payload_t" where
  "payload_copy other = (case other of None \<Rightarrow> Inl NullDeref | Some v \<Rightarrow> Inr (Some v))"

text \<open>The move constructor: the new object and the source afterwards.\<close>

definition payload_move :: "payload_t \<Rightarrow> payload_t \<times> payload_t" where
  "payload_move other = (other, None)"

definition payload_cast :: "cpp_type \<Rightarrow> payload_t \<Rightarrow> fault + cpp_value" where
  "payload_cast u p = (case p of
       None \<Rightarrow> Inl NullDeref
     | Some v \<Rightarrow> if u \<noteq> type_info v then Inl (Throw ''Bad any cast'') else Inr v)"

definition payload_empty :: "payload_t \<Rightarrow> bool" where
  "payload_empty p \<longleftrightarrow> p = None"

definition payload_is :: "bool \<Rightarrow> cpp_type \<Rightarrow> payload_t \<Rightarrow> fault + bool" where
  "payload_is double_checks u p =
     bindR (ensure double_checks (p \<noteq> None) ''_holder != nullptr'') (\<lambda>_.
       case p of None \<Rightarrow> Inl NullDeref | Some v \<Rightarrow> Inr (u = type_info v))"

definition payload_swap :: "payload_t \<Rightarrow> payload_t \<Rightarrow> payload_t \<times> payload_t" where
  "payload_swap left right = (right, left)"

text \<open>Copy assignment copies into a temporary and swaps: the new value of the target.\<close>

definition payload_assign :: "payload_t \<Rightarrow> payload_t \<Rightarrow> fault + payload_t" where
  "payload_assign this other =
     bindR (payload_copy other) (\<lambda>tmp. Inr (fst (payload_swap this tmp)))"

lemma payload_copy_simps [simp]:
  "payload_copy None = Inl NullDeref" "payload_copy (Some v) = Inr (Some v)"
  by (simp_all add: payload_copy_def)

lemma payload_assign_eq [simp]: "payload_assign this other = payload_copy other"
  by (cases other) (simp_all add: payload_assign_def payload_swap_def)

section \<open>Envelopes\<close>

record envelope =
  payload :: payload_t
  sender :: actor_address

definition envelope_default :: envelope where
  "envelope_default = \<lparr>payload = payload_default, sender = address_default\<rparr>"

text \<open>The copy constructor and the copy assignment the compiler generates, member by member.\<close>

definition envelope_copy :: "envelope \<Rightarrow> fault + envelope" where
  "envelope_copy e =
     bindR (payload_copy (payload e)) (\<lambda>p. Inr \<lparr>payload = p, sender = sender e\<rparr>)"

definition envelope_assign :: "envelope \<Rightarrow> envelope \<Rightarrow> fault + envelope" where
  "envelope_assign this other =
     bindR (payload_assign (payload this) (payload other)) (\<lambda>p.
       Inr \<lparr>payload = p, sender = sender other\<rparr>)"

text \<open>An envelope can be copied when its payload is filled.\<close>

definition sendable :: "envelope \<Rightarrow> bool" where
  "sendable e \<longleftrightarrow> \<not> payload_empty (payload e)"

lemma envelope_copy_eq: "envelope_copy e = (if sendable e then Inr e else Inl NullDeref)"
  by (cases "payload e") (auto simp: envelope_copy_def sendable_def payload_empty_def)

lemma envelope_assign_eq: "envelope_assign t e = (if sendable e then Inr e else Inl NullDeref)"
  by (cases "payload e") (auto simp: envelope_assign_def sendable_def payload_empty_def)

lemma sendable_payload_of [simp]: "sendable \<lparr>payload = payload_of v, sender = a\<rparr>"
  by (simp add: sendable_def payload_empty_def payload_of_def)

section \<open>Properties\<close>

text \<open>
  A payload gives back exactly what was stored, with the same type: after storing, copying or
  moving a value, a cast to the value's type returns it and a cast to any other type throws
  \<^verbatim>\<open>Bad any cast\<close>; a moved-from payload is empty.
\<close>

theorem payload_roundtrip:
  "payload_cast u (payload_of v) =
     (if u = type_info v then Inr v else Inl (Throw ''Bad any cast'')) \<and>
   payload_copy (payload_of v) = Inr (payload_of v) \<and>
   payload_assign p (payload_of v) = Inr (payload_of v) \<and>
   payload_move (payload_of v) = (payload_of v, payload_default) \<and>
   payload_is dc u (payload_of v) = Inr (u = type_info v)"
  by (simp add: payload_of_def payload_cast_def payload_move_def payload_is_def
      payload_default_def payload_copy_def)

text \<open>
  A default-constructed payload cannot be touched: copying it, assigning from it and casting it all
  dereference the null holder, in every build; \<^verbatim>\<open>is\<close> does so too unless the build has \<^verbatim>\<open>DOUBLE_CHECKS\<close>,
  where it throws. Copying an envelope that was never given a payload is therefore undefined.
\<close>

theorem payload_default_copy_undefined:
  "payload_copy payload_default = Inl NullDeref \<and>
   payload_assign p payload_default = Inl NullDeref \<and>
   payload_cast u payload_default = Inl NullDeref \<and>
   payload_is False u payload_default = Inl NullDeref \<and>
   payload_is True u payload_default = Inl (Throw ''_holder != nullptr'') \<and>
   envelope_copy envelope_default = Inl NullDeref"
  by (simp add: payload_default_def payload_cast_def payload_is_def envelope_copy_eq
      envelope_default_def sendable_def payload_empty_def)

end
