(* ===== verification/Yaaf_Mailbox.thy ===== *)
theory Yaaf_Mailbox
  imports Yaaf_Payload
begin

text \<open>
  The mailbox of \<^verbatim>\<open>libyaaf/mailbox.h\<close>, a double-ended queue of envelopes behind a shared mutex. Every member
  function holds the mutex for its whole body, so each is one atomic operation of the model. What a
  client may rely on is the locale \<open>fifo_box\<close>: a first-in first-out box whose elements can be copied.
  Its lemmas are proved once from the laws and reach the mailbox through the interpretation \<open>mb\<close>.
\<close>

section \<open>The interface of a first-in first-out box\<close>

text \<open>Pushing a sequence of elements, and popping until the box reports that it is empty.\<close>

fun push_all :: "('q \<Rightarrow> 'e \<Rightarrow> fault + 'q) \<Rightarrow> 'q \<Rightarrow> 'e list \<Rightarrow> fault + 'q" where
  "push_all push q [] = Inr q"
| "push_all push q (e # es) = bindR (push q e) (\<lambda>q'. push_all push q' es)"

fun pop_all ::
    "('q \<Rightarrow> fault + ('e option \<times> 'q)) \<Rightarrow> nat \<Rightarrow> 'q \<Rightarrow> fault + ('e list \<times> 'q)" where
  "pop_all pop 0 q = Inl Unbounded"
| "pop_all pop (Suc n) q = bindR (pop q) (\<lambda>(r, q').
     case r of None \<Rightarrow> Inr ([], q')
     | Some e \<Rightarrow> bindR (pop_all pop n q') (\<lambda>(es, q''). Inr (e # es, q'')))"

locale fifo_box =
  fixes fresh :: 'q
    and push :: "'q \<Rightarrow> 'e \<Rightarrow> fault + 'q"
    and pop :: "'q \<Rightarrow> fault + ('e option \<times> 'q)"
    and is_empty :: "'q \<Rightarrow> bool"
    and contents :: "'q \<Rightarrow> 'e list"
    and storable :: "'e \<Rightarrow> bool"
  assumes contents_fresh: "contents fresh = []"
    and push_storable: "storable e \<Longrightarrow> \<exists>q'. push q e = Inr q' \<and> contents q' = contents q @ [e]"
    and push_unstorable: "\<not> storable e \<Longrightarrow> \<exists>f. push q e = Inl f"
    and pop_Nil: "contents q = [] \<Longrightarrow> pop q = Inr (None, q)"
    and pop_Cons: "contents q = e # es \<Longrightarrow> storable e \<Longrightarrow>
      \<exists>q'. pop q = Inr (Some e, q') \<and> contents q' = es"
    and is_empty_iff: "is_empty q \<longleftrightarrow> contents q = []"
begin

lemma push_all_contents:
  "list_all storable es \<Longrightarrow>
   \<exists>q'. push_all push q es = Inr q' \<and> contents q' = contents q @ es"
proof (induction es arbitrary: q)
  case (Cons e es)
  then obtain q1 where q1: "push q e = Inr q1" "contents q1 = contents q @ [e]"
    using push_storable by fastforce
  from Cons obtain q2 where "push_all push q1 es = Inr q2" "contents q2 = contents q1 @ es"
    by fastforce
  with q1 show ?case by simp
qed simp

lemma pop_all_contents:
  "list_all storable (contents q) \<Longrightarrow> length (contents q) < n \<Longrightarrow>
   \<exists>q'. pop_all pop n q = Inr (contents q, q') \<and> contents q' = []"
proof (induction n arbitrary: q)
  case (Suc n)
  show ?case
  proof (cases "contents q")
    case Nil
    then show ?thesis using pop_Nil [of q] by simp
  next
    case (Cons e es)
    with Suc.prems obtain q1 where q1: "pop q = Inr (Some e, q1)" "contents q1 = es"
      using pop_Cons [OF Cons] by auto
    with Suc.prems Cons have "list_all storable (contents q1)" "length (contents q1) < n"
      by simp_all
    with Suc.IH q1 obtain q2 where "pop_all pop n q1 = Inr (es, q2)" "contents q2 = []"
      by blast
    with q1 Cons show ?thesis by simp
  qed
qed simp

lemma push_then_pop_all:
  assumes "list_all storable es"
  shows "\<exists>q q'. push_all push fresh es = Inr q \<and>
    pop_all pop (Suc (length es)) q = Inr (es, q') \<and> is_empty q'"
proof -
  from push_all_contents [OF assms, of fresh] obtain q
    where q: "push_all push fresh es = Inr q" "contents q = es"
    by (auto simp: contents_fresh)
  from pop_all_contents [of q "Suc (length es)"] q assms obtain q'
    where "pop_all pop (Suc (length es)) q = Inr (es, q')" "contents q' = []"
    by auto
  with q show ?thesis by (auto simp: is_empty_iff)
qed

end

section \<open>The mailbox\<close>

record mailbox =
  dqueue :: "envelope list"

definition mailbox_new :: mailbox where
  "mailbox_new = \<lparr>dqueue = []\<rparr>"

definition mailbox_empty :: "mailbox \<Rightarrow> bool" where
  "mailbox_empty mb \<longleftrightarrow> dqueue mb = []"

definition mailbox_size :: "mailbox \<Rightarrow> nat" where
  "mailbox_size mb = length (dqueue mb)"

text \<open>
  \<^verbatim>\<open>emplace_back\<close> copies its argument. The overload for \<^verbatim>\<open>const envelope &&\<close> copies too: a move from a
  constant object selects the copy constructor.
\<close>

definition mailbox_push :: "mailbox \<Rightarrow> envelope \<Rightarrow> fault + mailbox" where
  "mailbox_push mb e =
     bindR (envelope_copy e) (\<lambda>c. Inr (mb\<lparr>dqueue := dqueue mb @ [c]\<rparr>))"

definition mailbox_push_rv :: "mailbox \<Rightarrow> envelope \<Rightarrow> fault + mailbox" where
  "mailbox_push_rv mb e =
     bindR (envelope_copy e) (\<lambda>c. Inr (mb\<lparr>dqueue := dqueue mb @ [c]\<rparr>))"

definition mailbox_push_value :: "mailbox \<Rightarrow> cpp_value \<Rightarrow> actor_address \<Rightarrow> fault + mailbox" where
  "mailbox_push_value mb t from_addr =
     bindR (payload_assign payload_default (payload_of t)) (\<lambda>p.
     bindR (envelope_copy \<lparr>payload = p, sender = from_addr\<rparr>) (\<lambda>c.
       Inr (mb\<lparr>dqueue := dqueue mb @ [c]\<rparr>)))"

text \<open>\<^verbatim>\<open>try_pop\<close>: \<open>None\<close> stands for the result \<^verbatim>\<open>false\<close>, \<open>Some out\<close> for \<^verbatim>\<open>true\<close> with the out parameter.\<close>

definition mailbox_try_pop :: "mailbox \<Rightarrow> fault + (envelope option \<times> mailbox)" where
  "mailbox_try_pop mb = (case dqueue mb of
       [] \<Rightarrow> Inr (None, mb)
     | front # rest \<Rightarrow>
         bindR (envelope_assign envelope_default front) (\<lambda>out.
           Inr (Some out, mb\<lparr>dqueue := rest\<rparr>)))"

lemma mailbox_push_eq [simp]:
  "mailbox_push mb e =
     (if sendable e then Inr (mb\<lparr>dqueue := dqueue mb @ [e]\<rparr>) else Inl NullDeref)"
  by (simp add: mailbox_push_def envelope_copy_eq)

lemma mailbox_push_rv_eq: "mailbox_push_rv mb e = mailbox_push mb e"
  by (simp add: mailbox_push_rv_def envelope_copy_eq)

lemma mailbox_push_value_eq:
  "mailbox_push_value mb t a = mailbox_push mb \<lparr>payload = payload_of t, sender = a\<rparr>"
  by (simp add: mailbox_push_value_def payload_of_def envelope_copy_eq sendable_def
      payload_empty_def)

lemma mailbox_try_pop_Nil [simp]: "dqueue mb = [] \<Longrightarrow> mailbox_try_pop mb = Inr (None, mb)"
  by (simp add: mailbox_try_pop_def)

lemma mailbox_try_pop_Cons [simp]:
  "dqueue mb = e # es \<Longrightarrow> sendable e \<Longrightarrow>
   mailbox_try_pop mb = Inr (Some e, mb\<lparr>dqueue := es\<rparr>)"
  by (simp add: mailbox_try_pop_def envelope_assign_eq)

interpretation mb: fifo_box mailbox_new mailbox_push mailbox_try_pop mailbox_empty dqueue sendable
  by unfold_locales (auto simp: mailbox_new_def mailbox_empty_def)

section \<open>Properties\<close>

text \<open>
  C15: a mailbox is first in, first out and loses nothing: pushing any sequence of envelopes with filled
  payloads into a new mailbox succeeds, and popping until \<^verbatim>\<open>try_pop\<close> reports false returns the same
  sequence and leaves the mailbox empty.
\<close>

theorem mailbox_fifo:
  assumes "list_all sendable es"
  shows "\<exists>q q'. push_all mailbox_push mailbox_new es = Inr q \<and>
    pop_all mailbox_try_pop (Suc (length es)) q = Inr (es, q') \<and> mailbox_empty q'"
  using assms by (rule mb.push_then_pop_all)

theorem mailbox_fifo_witness:
  "\<exists>q q'. push_all mailbox_push mailbox_new
      [\<lparr>payload = payload_of (V_int 1), sender = address_default\<rparr>,
       \<lparr>payload = payload_of (V_string ''x''), sender = address_default\<rparr>] = Inr q \<and>
    pop_all mailbox_try_pop (Suc (Suc (Suc 0))) q =
      Inr ([\<lparr>payload = payload_of (V_int 1), sender = address_default\<rparr>,
            \<lparr>payload = payload_of (V_string ''x''), sender = address_default\<rparr>], q') \<and>
    mailbox_empty q'"
  using mailbox_fifo [of "[\<lparr>payload = payload_of (V_int 1), sender = address_default\<rparr>,
       \<lparr>payload = payload_of (V_string ''x''), sender = address_default\<rparr>]"] by simp

end
