(* ===== verification/Yaaf_Actor.thy ===== *)
theory Yaaf_Actor
  imports Yaaf_Mailbox
begin

text \<open>
  The actor of \<^verbatim>\<open>libyaaf/actor.{h,cpp}\<close>: its busy flag, its status and its address, the default bodies of
  its virtual functions, and \<^verbatim>\<open>apply\<close>, which drains a mailbox. Actors and mailboxes are shared objects, so they
  live in a store indexed by pointers; the record \<open>world\<close> is that store together with everything the
  user's own code keeps, and the context extends it. Virtual functions an actor class overrides are
  parameters. The lemmas describe \<^verbatim>\<open>apply\<close> for every handler: which status it leaves, that the busy flag is
  always released, and that envelopes are handled once and in order.
\<close>

section \<open>The store of actors and mailboxes\<close>

type_synonym actor_ptr = nat
type_synonym mbox_ptr = nat

text \<open>The members of \<^verbatim>\<open>user_context\<close>, the facade through which an actor reaches its context.\<close>

record user_context =
  uc_addr :: actor_address
  uc_name :: string

text \<open>The actor classes the library defines, and all classes of the user's.\<close>

datatype actor_class =
    Root_actor | Usr_actor | Sys_actor | Delegate_actor
  | Network_supervisor_actor | Network_lst_actor | Network_con_actor | User_actor

record base_actor =
  busy :: bool
  status_kind :: actor_status_kinds
  status_msg :: string
  self_address :: actor_address
  self_ctx :: "user_context option"
  class_of :: actor_class

record 'u world =
  objs :: "actor_ptr \<Rightarrow> base_actor"
  mbs :: "mbox_ptr \<Rightarrow> mailbox"
  usr :: 'u

section \<open>Operations on one actor\<close>

definition base_actor_new :: "actor_class \<Rightarrow> base_actor" where
  "base_actor_new k = \<lparr>busy = False, status_kind = NORMAL, status_msg = [],
     self_address = address_default, self_ctx = None, class_of = k\<rparr>"

definition update_status :: "actor_status_kinds \<Rightarrow> base_actor \<Rightarrow> base_actor" where
  "update_status k a = a\<lparr>status_kind := k, status_msg := []\<rparr>"

definition update_status_msg :: "actor_status_kinds \<Rightarrow> string \<Rightarrow> base_actor \<Rightarrow> base_actor" where
  "update_status_msg k msg a = a\<lparr>status_kind := k, status_msg := msg\<rparr>"

definition reset_busy :: "base_actor \<Rightarrow> base_actor" where
  "reset_busy a = a\<lparr>busy := False\<rparr>"

definition set_self_addr :: "actor_address \<Rightarrow> base_actor \<Rightarrow> base_actor" where
  "set_self_addr sa a = a\<lparr>self_address := sa\<rparr>"

definition set_context :: "user_context \<Rightarrow> base_actor \<Rightarrow> base_actor" where
  "set_context c a = a\<lparr>self_ctx := Some c\<rparr>"

text \<open>
  \<^verbatim>\<open>try_lock\<close>: a plain load, then a compare-exchange against the loaded value. The exchange takes the
  flag's value at that moment as an argument, since another thread may have set it after the load.
\<close>

definition compare_exchange :: "bool \<Rightarrow> bool \<Rightarrow> bool \<Rightarrow> bool \<times> bool" where
  "compare_exchange expect desired current =
     (if current = expect then (True, desired) else (False, current))"

definition try_lock_cas :: "bool \<Rightarrow> bool \<Rightarrow> bool \<times> bool" where
  "try_lock_cas loaded current =
     (if loaded then (False, current)
      else let (ok, b) = compare_exchange loaded True current in (if \<not> ok then (False, b) else (True, b)))"

definition try_lock :: "base_actor \<Rightarrow> bool \<times> base_actor" where
  "try_lock a = (let (ok, b) = try_lock_cas (busy a) (busy a) in (ok, a\<lparr>busy := b\<rparr>))"

lemma try_lock_eq: "try_lock a = (\<not> busy a, a\<lparr>busy := True\<rparr>)"
  by (cases "busy a") (simp_all add: try_lock_def try_lock_cas_def compare_exchange_def)

lemma actor_update_sel [simp]:
  "busy (update_status k a) = busy a" "status_kind (update_status k a) = k"
  "status_msg (update_status k a) = []" "busy (update_status_msg k m a) = busy a"
  "status_kind (update_status_msg k m a) = k" "status_msg (update_status_msg k m a) = m"
  "busy (reset_busy a) = False" "status_kind (reset_busy a) = status_kind a"
  "status_msg (reset_busy a) = status_msg a"
  by (simp_all add: update_status_def update_status_msg_def reset_busy_def)

section \<open>Access to the store\<close>

definition upd_obj ::
    "actor_ptr \<Rightarrow> (base_actor \<Rightarrow> base_actor) \<Rightarrow> (('u, 'm) world_scheme, unit) cpp" where
  "upd_obj p f = modM (\<lambda>s. s\<lparr>objs := (objs s)(p := f (objs s p))\<rparr>)"

definition obj_try_lock :: "actor_ptr \<Rightarrow> (('u, 'm) world_scheme, bool) cpp" where
  "obj_try_lock p = (\<lambda>s. let (ok, a) = try_lock (objs s p)
     in (Inr ok, s\<lparr>objs := (objs s)(p := a)\<rparr>))"

definition mb_push :: "mbox_ptr \<Rightarrow> envelope \<Rightarrow> (('u, 'm) world_scheme, unit) cpp" where
  "mb_push m e = (\<lambda>s. case mailbox_push (mbs s m) e of
       Inl f \<Rightarrow> (Inl f, s)
     | Inr q \<Rightarrow> (Inr (), s\<lparr>mbs := (mbs s)(m := q)\<rparr>))"

definition mb_push_rv :: "mbox_ptr \<Rightarrow> envelope \<Rightarrow> (('u, 'm) world_scheme, unit) cpp" where
  "mb_push_rv m e = (\<lambda>s. case mailbox_push_rv (mbs s m) e of
       Inl f \<Rightarrow> (Inl f, s)
     | Inr q \<Rightarrow> (Inr (), s\<lparr>mbs := (mbs s)(m := q)\<rparr>))"

definition mb_try_pop :: "mbox_ptr \<Rightarrow> (('u, 'm) world_scheme, envelope option) cpp" where
  "mb_try_pop m = (\<lambda>s. case mailbox_try_pop (mbs s m) of
       Inl f \<Rightarrow> (Inl f, s)
     | Inr (r, q) \<Rightarrow> (Inr r, s\<lparr>mbs := (mbs s)(m := q)\<rparr>))"

definition mb_is_empty :: "mbox_ptr \<Rightarrow> (('u, 'm) world_scheme, bool) cpp" where
  "mb_is_empty m = getM (\<lambda>s. mailbox_empty (mbs s m))"

lemma upd_obj_app [simp]:
  "upd_obj p f s = (Inr (), s\<lparr>objs := (objs s)(p := f (objs s p))\<rparr>)"
  by (simp add: upd_obj_def)

lemma mb_push_app [simp]:
  "mb_push m e s = (if sendable e
     then (Inr (), s\<lparr>mbs := (mbs s)(m := (mbs s m)\<lparr>dqueue := dqueue (mbs s m) @ [e]\<rparr>)\<rparr>)
     else (Inl NullDeref, s))"
  by (simp add: mb_push_def)

lemma mb_push_rv_eq [simp]: "mb_push_rv = mb_push"
  by (simp add: fun_eq_iff mb_push_rv_def mb_push_def mailbox_push_rv_eq del: mb_push_app)

lemma mb_try_pop_Nil [simp]: "dqueue (mbs s m) = [] \<Longrightarrow> mb_try_pop m s = (Inr None, s)"
  by (simp add: mb_try_pop_def)

lemma mb_try_pop_Cons [simp]:
  "dqueue (mbs s m) = e # es \<Longrightarrow> sendable e \<Longrightarrow>
   mb_try_pop m s = (Inr (Some e), s\<lparr>mbs := (mbs s)(m := (mbs s m)\<lparr>dqueue := es\<rparr>)\<rparr>)"
  by (simp add: mb_try_pop_def)

lemma mb_try_pop_None:
  "mb_try_pop m s = (Inr None, s') \<Longrightarrow> s' = s \<and> dqueue (mbs s m) = []"
  by (cases "dqueue (mbs s m)")
    (auto simp: mb_try_pop_def mailbox_try_pop_def envelope_assign_eq split: if_splits)

section \<open>The default virtual functions\<close>

definition base_on_init :: "actor_settings \<Rightarrow> (('u, 'm) world_scheme, actor_settings) cpp" where
  "base_on_init base_settings = retM base_settings"

definition base_on_start :: "(('u, 'm) world_scheme, unit) cpp" where
  "base_on_start = retM ()"

definition base_on_stop :: "actor_ptr \<Rightarrow> (('u, 'm) world_scheme, unit) cpp" where
  "base_on_stop p = upd_obj p (update_status STOPED)"

definition base_on_child_status ::
    "actor_address \<Rightarrow> actor_status_kinds \<Rightarrow> (('u, 'm) world_scheme, unit) cpp" where
  "base_on_child_status addr k = retM ()"

definition base_on_child_error ::
    "actor_address \<Rightarrow> (('u, 'm) world_scheme, actor_action_when_error) cpp" where
  "base_on_child_error addr = retM RESUME"

definition base_on_child_stopped ::
    "actor_address \<Rightarrow> actor_stopping_reason \<Rightarrow> (('u, 'm) world_scheme, unit) cpp" where
  "base_on_child_stopped addr reason = retM ()"

text \<open>\<^verbatim>\<open>actor_for_delegate\<close> forwards each envelope to the function it was built with.\<close>

definition delegate_action_handle ::
    "(envelope \<Rightarrow> (('u, 'm) world_scheme, unit) cpp) \<Rightarrow> envelope \<Rightarrow> (('u, 'm) world_scheme, unit) cpp" where
  "delegate_action_handle handle e = handle e"

section \<open>Draining a mailbox\<close>

text \<open>
  The loop \<^verbatim>\<open>while (mbox.try_pop(el)) action_handle(el)\<close>. A handler may send to its own actor, so the loop
  need not end; the first argument bounds the number of rounds and running out is \<^const>\<open>Unbounded\<close>.
\<close>

fun apply_loop ::
    "nat \<Rightarrow> (envelope \<Rightarrow> (('u, 'm) world_scheme, unit) cpp) \<Rightarrow> mbox_ptr \<Rightarrow>
     (('u, 'm) world_scheme, unit) cpp" where
  "apply_loop 0 handle m = faultM Unbounded"
| "apply_loop (Suc n) handle m = bindM (mb_try_pop m) (\<lambda>r. case r of
     None \<Rightarrow> retM ()
   | Some el \<Rightarrow> seqM (handle el) (apply_loop n handle m))"

definition actor_apply ::
    "nat \<Rightarrow> bool \<Rightarrow> (envelope \<Rightarrow> (('u, 'm) world_scheme, unit) cpp) \<Rightarrow> actor_ptr \<Rightarrow> mbox_ptr \<Rightarrow>
     (('u, 'm) world_scheme, unit) cpp" where
  "actor_apply fuel double_checks handle p m =
     bindM (mb_is_empty m) (\<lambda>e.
       if e then seqM (upd_obj p (update_status NORMAL)) (upd_obj p reset_busy)
       else bindM (getM (\<lambda>s. busy (objs s p))) (\<lambda>b.
         seqM (liftM (ensure double_checks b ''busy()''))
           (tryM
             (seqM (apply_loop fuel handle m)
               (seqM (upd_obj p (update_status NORMAL)) (upd_obj p reset_busy)))
             (\<lambda>ex. seqM (upd_obj p (update_status_msg WITH_ERROR ex))
               (seqM (upd_obj p reset_busy) (faultM (Throw ex)))))))"

lemma apply_loop_Inr: "apply_loop n handle m s = (Inr (), s') \<Longrightarrow> dqueue (mbs s' m) = []"
proof (induction n arbitrary: s)
  case (Suc n)
  obtain r s1 where pop: "mb_try_pop m s = (r, s1)" by (cases "mb_try_pop m s")
  show ?case
  proof (cases r)
    case (Inl f)
    with Suc.prems pop show ?thesis by simp
  next
    case (Inr out)
    show ?thesis
    proof (cases out)
      case None
      with Suc.prems pop Inr show ?thesis by (auto dest: mb_try_pop_None)
    next
      case (Some el)
      with Suc.prems pop Inr have "seqM (handle el) (apply_loop n handle m) s1 = (Inr (), s')"
        by simp
      then obtain s2 where "apply_loop n handle m s2 = (Inr (), s')"
        by (cases "handle el s1"; cases "fst (handle el s1)") auto
      then show ?thesis by (rule Suc.IH)
    qed
  qed
qed simp

text \<open>What one round does to the queue, for a handler that only appends to it.\<close>

definition appends_only ::
    "(envelope \<Rightarrow> (('u, 'm) world_scheme, unit) cpp) \<Rightarrow> mbox_ptr \<Rightarrow>
     (('u, 'm) world_scheme \<Rightarrow> envelope list) \<Rightarrow> bool" where
  "appends_only handle m log \<longleftrightarrow>
     (\<forall>e s. \<exists>xs. dqueue (mbs (snd (handle e s)) m) = dqueue (mbs s m) @ xs \<and>
        list_all sendable xs \<and> log (snd (handle e s)) = log s @ [e])"

lemma apply_loop_conserves:
  assumes app: "appends_only handle m log"
    and log: "\<And>s q. log (s\<lparr>mbs := q\<rparr>) = log s"
  shows "list_all sendable (dqueue (mbs s m)) \<Longrightarrow> apply_loop n handle m s = (r, s') \<Longrightarrow>
    \<exists>handled arrived. log s' = log s @ handled \<and>
      dqueue (mbs s m) @ arrived = handled @ dqueue (mbs s' m)"
proof (induction n arbitrary: s)
  case 0
  then show ?case by (auto intro: exI [of _ "[]"])
next
  case (Suc n)
  show ?case
  proof (cases "dqueue (mbs s m)")
    case Nil
    with Suc.prems show ?thesis by (auto intro: exI [of _ "[]"])
  next
    case (Cons e es)
    let ?s1 = "s\<lparr>mbs := (mbs s)(m := (mbs s m)\<lparr>dqueue := es\<rparr>)\<rparr>"
    obtain rh s2 where h: "handle e ?s1 = (rh, s2)" by (cases "handle e ?s1")
    from app obtain xs where "dqueue (mbs (snd (handle e ?s1)) m) = dqueue (mbs ?s1 m) @ xs"
      and snd_xs: "list_all sendable xs" and "log (snd (handle e ?s1)) = log ?s1 @ [e]"
      unfolding appends_only_def by blast
    then have xs: "dqueue (mbs s2 m) = es @ xs" and lg: "log s2 = log s @ [e]"
      using h log by simp_all
    have step: "apply_loop (Suc n) handle m s = seqM (handle e) (apply_loop n handle m) ?s1"
      using Cons Suc.prems(1) by simp
    show ?thesis
    proof (cases rh)
      case (Inl f)
      with step h Suc.prems(2) have "s' = s2" by simp
      with xs lg Cons show ?thesis by (intro exI [of _ "[e]"] exI [of _ xs]) simp
    next
      case (Inr u)
      with step h Suc.prems(2) have "apply_loop n handle m s2 = (r, s')" by simp
      moreover have "list_all sendable (dqueue (mbs s2 m))"
        using xs snd_xs Suc.prems(1) Cons by simp
      ultimately obtain handled arrived where "log s' = log s2 @ handled"
        and "dqueue (mbs s2 m) @ arrived = handled @ dqueue (mbs s' m)"
        using Suc.IH by blast
      with xs lg Cons show ?thesis
        by (intro exI [of _ "e # handled"] exI [of _ "xs @ arrived"]) simp
    qed
  qed
qed

lemma apply_loop_terminates:
  assumes keep: "\<And>e s. dqueue (mbs (snd (handle e s)) m) = dqueue (mbs s m)"
    and fin: "\<And>e s. fst (handle e s) \<noteq> Inl Unbounded"
  shows "list_all sendable (dqueue (mbs s m)) \<Longrightarrow> length (dqueue (mbs s m)) < n \<Longrightarrow>
    fst (apply_loop n handle m s) \<noteq> Inl Unbounded"
proof (induction n arbitrary: s)
  case (Suc n)
  show ?case
  proof (cases "dqueue (mbs s m)")
    case (Cons e es)
    let ?s1 = "s\<lparr>mbs := (mbs s)(m := (mbs s m)\<lparr>dqueue := es\<rparr>)\<rparr>"
    obtain rh s2 where h: "handle e ?s1 = (rh, s2)" by (cases "handle e ?s1")
    have q: "dqueue (mbs s2 m) = es" using keep [of e ?s1] h by simp
    have "apply_loop (Suc n) handle m s = seqM (handle e) (apply_loop n handle m) ?s1"
      using Cons Suc.prems(1) by simp
    then show ?thesis
      using h fin [of e ?s1] q Suc.IH [of s2] Suc.prems Cons by (cases rh) auto
  qed simp
qed simp

text \<open>\<^verbatim>\<open>apply\<close> on a mailbox that is not empty, by the way the loop ends.\<close>

definition set_obj ::
    "actor_ptr \<Rightarrow> (base_actor \<Rightarrow> base_actor) \<Rightarrow> ('u, 'm) world_scheme \<Rightarrow> ('u, 'm) world_scheme" where
  "set_obj p f s = s\<lparr>objs := (objs s)(p := f (objs s p))\<rparr>"

lemma set_obj_sel [simp]:
  "objs (set_obj p f s) p = f (objs s p)" "mbs (set_obj p f s) = mbs s" "usr (set_obj p f s) = usr s"
  "q \<noteq> p \<Longrightarrow> objs (set_obj p f s) q = objs s q"
  by (simp_all add: set_obj_def)

lemma actor_apply_empty:
  "mailbox_empty (mbs s m) \<Longrightarrow>
   actor_apply fuel dc handle p m s = (Inr (), set_obj p (reset_busy \<circ> update_status NORMAL) s)"
  by (simp add: actor_apply_def mb_is_empty_def set_obj_def)

lemma actor_apply_nonempty:
  assumes "\<not> mailbox_empty (mbs s m)" and "dc \<longrightarrow> busy (objs s p)"
    and "apply_loop fuel handle m s = (rl, sl)"
  shows "actor_apply fuel dc handle p m s = (case rl of
      Inr _ \<Rightarrow> (Inr (), set_obj p (reset_busy \<circ> update_status NORMAL) sl)
    | Inl f \<Rightarrow> (case f of
        Throw ex \<Rightarrow> (Inl f, set_obj p (reset_busy \<circ> update_status_msg WITH_ERROR ex) sl)
      | _ \<Rightarrow> (Inl f, sl)))"
proof -
  have "ensure dc (busy (objs s p)) ''busy()'' = Inr ()" using assms(2) by (auto simp: ensure_def)
  then have "actor_apply fuel dc handle p m s =
      tryM (seqM (apply_loop fuel handle m)
        (seqM (upd_obj p (update_status NORMAL)) (upd_obj p reset_busy)))
      (\<lambda>ex. seqM (upd_obj p (update_status_msg WITH_ERROR ex))
        (seqM (upd_obj p reset_busy) (faultM (Throw ex)))) s"
    using assms(1) by (simp add: actor_apply_def mb_is_empty_def)
  then show ?thesis
    using assms(3) by (cases rl) (simp_all add: tryM_def set_obj_def split: fault.splits)
qed

text \<open>An actor with one envelope in its mailbox whose handler leaves the mailbox empty.\<close>

lemma apply_single_message:
  assumes "dqueue (mbs s m) = [e]" and "sendable e" and "busy (objs s p)"
    and "handle e (s\<lparr>mbs := (mbs s)(m := (mbs s m)\<lparr>dqueue := []\<rparr>)\<rparr>) = (Inr (), t)" and "dqueue (mbs t m) = []"
  shows "actor_apply (Suc (Suc n)) dc handle p m s =
    (Inr (), t\<lparr>objs := (objs t)(p := reset_busy (update_status NORMAL (objs t p)))\<rparr>)"
proof -
  have "apply_loop (Suc (Suc n)) handle m s = (Inr (), t)" using assms by simp
  moreover have "\<not> mailbox_empty (mbs s m)" using assms(1) by (simp add: mailbox_empty_def)
  ultimately show ?thesis using actor_apply_nonempty [of s m dc p] assms(3) by (simp add: set_obj_def)
qed

lemma actor_apply_unlocked:
  assumes "\<not> mailbox_empty (mbs s m)" and "dc" and "\<not> busy (objs s p)"
  shows "actor_apply fuel dc handle p m s = (Inl (Throw ''busy()''), s)"
  using assms by (simp add: actor_apply_def mb_is_empty_def)

section \<open>Properties\<close>

text \<open>
  C7: whatever the handler does, \<^verbatim>\<open>apply\<close> gives the busy flag back: when it returns, the actor is not busy,
  its status is \<^verbatim>\<open>NORMAL\<close> with an empty message and the mailbox has been seen empty; when an
  exception leaves it, the actor is not busy and its status is \<^verbatim>\<open>WITH_ERROR\<close> with the exception's text
  (unless the \<^verbatim>\<open>DOUBLE_CHECKS\<close> test that the actor was locked is what threw).
\<close>

theorem apply_status:
  assumes "actor_apply fuel dc handle p m s = (r, s')"
  shows "(r = Inr () \<longrightarrow> \<not> busy (objs s' p) \<and> status_kind (objs s' p) = NORMAL \<and>
            status_msg (objs s' p) = [] \<and> mailbox_empty (mbs s' m)) \<and>
         (\<forall>ex. r = Inl (Throw ex) \<and> (dc \<longrightarrow> busy (objs s p)) \<longrightarrow>
            \<not> busy (objs s' p) \<and> status_kind (objs s' p) = WITH_ERROR \<and> status_msg (objs s' p) = ex)"
proof (cases "mailbox_empty (mbs s m)")
  case True
  with assms show ?thesis by (auto simp: actor_apply_empty)
next
  case False
  obtain rl sl where l: "apply_loop fuel handle m s = (rl, sl)" by (cases "apply_loop fuel handle m s")
  have "rl = Inr () \<Longrightarrow> mailbox_empty (mbs sl m)"
    using l by (auto dest: apply_loop_Inr simp: mailbox_empty_def)
  with False assms l show ?thesis
    by (cases "dc \<and> \<not> busy (objs s p)")
      (auto simp: actor_apply_unlocked actor_apply_nonempty split: sum.splits fault.splits)
qed

text \<open>
  The handler of the witnesses: it throws on a payload that is not an integer and logs every envelope it
  is given.
\<close>

definition int_logger :: "envelope \<Rightarrow> (envelope list world, unit) cpp" where
  "int_logger e = seqM (modM (\<lambda>s. s\<lparr>usr := usr s @ [e]\<rparr>))
     (bindM (liftM (payload_cast T_int (payload e))) (\<lambda>_. retM ()))"

definition demo_world :: "cpp_value list \<Rightarrow> envelope list world" where
  "demo_world vs = \<lparr>objs = (\<lambda>_. (base_actor_new Delegate_actor)\<lparr>busy := True\<rparr>),
     mbs = (\<lambda>_. \<lparr>dqueue = map (\<lambda>v. \<lparr>payload = payload_of v, sender = address_default\<rparr>) vs\<rparr>),
     usr = []\<rparr>"

theorem apply_status_witness:
  "fst (actor_apply 5 True int_logger 0 0 (demo_world [V_int 1, V_string ''x'', V_int 2])) =
     Inl (Throw ''Bad any cast'') \<and>
   \<not> busy (objs (snd (actor_apply 5 True int_logger 0 0
       (demo_world [V_int 1, V_string ''x'', V_int 2]))) 0)"
proof -
  let ?run = "actor_apply 5 True int_logger 0 0 (demo_world [V_int 1, V_string ''x'', V_int 2])"
  have f: "fst ?run = Inl (Throw ''Bad any cast'')" by code_simp
  have b: "busy (objs (demo_world [V_int 1, V_string ''x'', V_int 2]) 0)" by code_simp
  show ?thesis
    using apply_status [of 5 True int_logger 0 0 "demo_world [V_int 1, V_string ''x'', V_int 2]"
        "fst ?run" "snd ?run", OF prod.collapse [symmetric]] f b by blast
qed


lemma int_logger_snd: "snd (int_logger e s) = s\<lparr>usr := usr s @ [e]\<rparr>"
  by (cases "payload_cast T_int (payload e)") (simp_all add: int_logger_def)


text \<open>
  C19: a handler that leaves its own mailbox alone cannot keep \<^verbatim>\<open>apply\<close> busy for ever: with more rounds
  than queued envelopes the loop ends, by returning or by the handler's own fault.
\<close>

theorem apply_terminates:
  assumes "\<And>e s. dqueue (mbs (snd (handle e s)) m) = dqueue (mbs s m)"
    and "\<And>e s. fst (handle e s) \<noteq> Inl Unbounded"
    and "list_all sendable (dqueue (mbs s m))" and "length (dqueue (mbs s m)) < fuel"
  shows "fst (actor_apply fuel dc handle p m s) \<noteq> Inl Unbounded"
proof -
  obtain rl sl where l: "apply_loop fuel handle m s = (rl, sl)" by (cases "apply_loop fuel handle m s")
  have "rl \<noteq> Inl Unbounded" using apply_loop_terminates [of handle m s fuel] assms l by fastforce
  with l show ?thesis
    by (cases "mailbox_empty (mbs s m)"; cases "dc \<and> \<not> busy (objs s p)")
      (auto simp: actor_apply_empty actor_apply_unlocked actor_apply_nonempty
        split: sum.splits fault.splits)
qed

lemma payload_cast_not_Unbounded: "payload_cast u p \<noteq> Inl Unbounded"
  by (simp add: payload_cast_def split: option.splits)

theorem apply_terminates_witness:
  "fst (actor_apply 4 False int_logger 0 0 (demo_world [V_int 1, V_int 2, V_int 3])) \<noteq> Inl Unbounded"
proof (rule apply_terminates)
  show "fst (int_logger e s) \<noteq> Inl Unbounded" for e s
    using payload_cast_not_Unbounded [of T_int "payload e"]
    by (cases "payload_cast T_int (payload e)") (simp_all add: int_logger_def)
qed (simp_all add: int_logger_snd demo_world_def)

end
