(* ===== verification/Yaaf_Async.thy ===== *)
theory Yaaf_Async
  imports Yaaf_Utils
begin

text \<open>
  The thread layer of \<^verbatim>\<open>libyaaf/utils/async\<close>: tasks, the thread pool and the thread manager. A pool is a
  record of its queue, its flags and the program counter of each worker thread; the worker loop
  \<^verbatim>\<open>_pool_logic\<close> is a step relation in which one step is one critical section or one atomic access, so the
  steps of several workers, of posting threads and of \<^verbatim>\<open>stop\<close> interleave freely. What the body of a task does is
  outside the pool: a step may let it return either continuation strategy. The lemmas show which task
  a worker picks, that tasks are neither lost nor duplicated, that the counter of running tasks is exact,
  what \<^verbatim>\<open>flush\<close> has established when it returns, and what a stopped pool does.
\<close>

section \<open>Tasks\<close>

datatype task_priority = TP_DEFAULT | TP_WORKER

fun priority_value :: "task_priority \<Rightarrow> 8 word" where
  "priority_value TP_DEFAULT = 0"
| "priority_value TP_WORKER = 255"

instantiation task_priority :: linorder
begin

definition less_eq_task_priority :: "task_priority \<Rightarrow> task_priority \<Rightarrow> bool" where
  "less_eq_task_priority p q \<longleftrightarrow> priority_value p \<le> priority_value q"

definition less_task_priority :: "task_priority \<Rightarrow> task_priority \<Rightarrow> bool" where
  "less_task_priority p q \<longleftrightarrow> priority_value p < priority_value q"

instance
proof
  fix p q :: task_priority
  assume "p \<le> q" "q \<le> p"
  then show "p = q" by (cases p; cases q) (simp_all add: less_eq_task_priority_def)
qed (auto simp: less_eq_task_priority_def less_task_priority_def)

end

lemma priority_less_iff [simp]: "p < q \<longleftrightarrow> p = TP_DEFAULT \<and> q = TP_WORKER"
  by (cases p; cases q) (simp_all add: less_task_priority_def)

datatype continuation_strategy = SINGLE | REPEAT

type_synonym thread_kind_t = "16 word"

record thread_info =
  ti_kind :: thread_kind_t
  ti_thread_number :: nat

text \<open>
  A task wrapper: its priority, its body and the pointer to its result. Two wrappers are the same
  object exactly when they share the result.
\<close>

record 't task_wrapper =
  tw_priority :: task_priority
  tw_task :: 't
  tw_result :: nat

definition wrap_task :: "'t \<Rightarrow> nat \<Rightarrow> 't task_wrapper" where
  "wrap_task t r = \<lparr>tw_priority = TP_DEFAULT, tw_task = t, tw_result = r\<rparr>"

definition wrap_task_with_priority :: "'t \<Rightarrow> nat \<Rightarrow> task_priority \<Rightarrow> 't task_wrapper" where
  "wrap_task_with_priority t r p = (wrap_task t r)\<lparr>tw_priority := p\<rparr>"

text \<open>
  \<^verbatim>\<open>TKIND_CHECK\<close> compares the kind of the executing thread with the expected one in a build with
  \<^verbatim>\<open>DOUBLE_CHECKS\<close> and is empty otherwise.
\<close>

definition tkind_check :: "bool \<Rightarrow> thread_kind_t \<Rightarrow> thread_kind_t \<Rightarrow> fault + unit" where
  "tkind_check double_checks expected present =
     (if double_checks \<and> expected \<noteq> present then Inl (Throw ''wrong thread kind'') else Inr ())"

text \<open>The flag of a task result: set when created, cleared by \<^verbatim>\<open>unlock\<close>.\<close>

definition task_result_unlock :: "nat \<Rightarrow> (nat \<Rightarrow> bool) \<Rightarrow> nat \<Rightarrow> bool" where
  "task_result_unlock r runned = runned(r := False)"

text \<open>
  \<^verbatim>\<open>task_wrapper::apply\<close>: the strategy the body returned, and the result flags afterwards; an exception of
  the body is logged and thrown on.
\<close>

definition task_wrapper_apply ::
    "'t task_wrapper \<Rightarrow> fault + continuation_strategy \<Rightarrow> (nat \<Rightarrow> bool) \<Rightarrow>
     fault + (continuation_strategy \<times> (nat \<Rightarrow> bool))" where
  "task_wrapper_apply tw body runned = bindR body (\<lambda>c.
     if c = SINGLE then Inr (SINGLE, task_result_unlock (tw_result tw) runned)
     else Inr (REPEAT, runned))"

section \<open>The pool\<close>

text \<open>
  Where a worker thread is in \<^verbatim>\<open>_pool_logic\<close>: at the head of its loop, running a task, after a task
  returned \<^verbatim>\<open>REPEAT\<close>, about to put the task back, about to decrement the counter, or gone.
\<close>

datatype 't worker =
    W_loop
  | W_running "'t task_wrapper"
  | W_repeat "'t task_wrapper"
  | W_pushing "'t task_wrapper"
  | W_done
  | W_exited

record pool_params =
  pp_threads_count :: nat
  pp_kind :: thread_kind_t

record 't threads_pool =
  tp_params :: pool_params
  in_queue :: "'t task_wrapper list"
  stop_flag :: bool
  is_stoped :: bool
  task_runned :: nat
  workers :: "'t worker list"
  results :: "nat \<Rightarrow> bool"

definition threads_pool_new :: "bool \<Rightarrow> pool_params \<Rightarrow> fault + 't threads_pool" where
  "threads_pool_new double_checks p =
     bindR (ensure double_checks (pp_threads_count p > 0) ''_params.threads_count > 0'') (\<lambda>_.
       Inr \<lparr>tp_params = p, in_queue = [], stop_flag = False, is_stoped = False, task_runned = 0,
            workers = replicate (pp_threads_count p) W_loop, results = (\<lambda>_. True)\<rparr>)"

definition push_task :: "'t task_wrapper \<Rightarrow> 't threads_pool \<Rightarrow> 't threads_pool" where
  "push_task at p = p\<lparr>in_queue := in_queue p @ [at]\<rparr>"

text \<open>\<^verbatim>\<open>threads_pool::post\<close>: the result pointer, or none (\<^verbatim>\<open>nullptr\<close>) once the pool is stopped.\<close>

definition pool_post :: "'t task_wrapper \<Rightarrow> 't threads_pool \<Rightarrow> nat option \<times> 't threads_pool" where
  "pool_post t p = (if is_stoped p then (None, p) else (Some (tw_result t), push_task t p))"

definition active_workers :: "'t threads_pool \<Rightarrow> nat" where
  "active_workers p = length (in_queue p) + task_runned p"

text \<open>
  The search loop of a worker: it takes the first task and keeps it unless it is a \<^verbatim>\<open>WORKER\<close> and a task
  of smaller priority follows. \<^verbatim>\<open>std::find\<close> and \<^verbatim>\<open>erase\<close> then remove the chosen task.
\<close>

fun select_loop :: "'t task_wrapper option \<Rightarrow> 't task_wrapper list \<Rightarrow> 't task_wrapper option" where
  "select_loop t [] = t"
| "select_loop None (v # vs) =
     (if tw_priority v \<noteq> TP_WORKER then Some v else select_loop (Some v) vs)"
| "select_loop (Some t) (v # vs) =
     (if tw_priority v < tw_priority t then Some v else select_loop (Some t) vs)"

definition select_task :: "'t task_wrapper list \<Rightarrow> 't task_wrapper option" where
  "select_task q = select_loop None q"

text \<open>One round of the test of \<^verbatim>\<open>flush\<close>: it leaves its loop when this is true.\<close>

definition flush_test :: "'t threads_pool \<Rightarrow> bool" where
  "flush_test p =
     (if in_queue p \<noteq> [] \<and> \<not> list_all (\<lambda>t. tw_priority t = TP_WORKER) (in_queue p) then False
      else task_runned p = 0)"

text \<open>
  \<^verbatim>\<open>stop\<close> as its caller sees it when no worker is inside a task: the flag is set, the workers are
  joined, the pool is marked as stopped; what is still queued stays there and is never run.
\<close>

definition pool_stop :: "'t threads_pool \<Rightarrow> 't threads_pool" where
  "pool_stop p = p\<lparr>stop_flag := True, workers := map (\<lambda>_. W_exited) (workers p), is_stoped := True\<rparr>"

subsection \<open>The steps of the worker threads\<close>

datatype 't pool_event = Posted "'t task_wrapper" | Finished "'t task_wrapper" | Internal

definition set_worker :: "nat \<Rightarrow> 't worker \<Rightarrow> 't threads_pool \<Rightarrow> 't threads_pool" where
  "set_worker i w p = p\<lparr>workers := (workers p)[i := w]\<rparr>"

inductive pool_step :: "'t threads_pool \<Rightarrow> 't pool_event \<Rightarrow> 't threads_pool \<Rightarrow> bool" where
  post: "\<not> is_stoped p \<Longrightarrow> pool_step p (Posted t) (push_task t p)"
| take: "i < length (workers p) \<Longrightarrow> workers p ! i = W_loop \<Longrightarrow> \<not> stop_flag p \<Longrightarrow>
    select_task (in_queue p) = Some t \<Longrightarrow>
    pool_step p Internal (set_worker i (W_running t)
      (p\<lparr>in_queue := remove1 t (in_queue p), task_runned := task_runned p + 1\<rparr>))"
| leave: "i < length (workers p) \<Longrightarrow> workers p ! i = W_loop \<Longrightarrow> stop_flag p \<Longrightarrow>
    pool_step p Internal (set_worker i W_exited p)"
| apply_single: "i < length (workers p) \<Longrightarrow> workers p ! i = W_running t \<Longrightarrow>
    pool_step p (Finished t) (set_worker i W_done
      (p\<lparr>results := task_result_unlock (tw_result t) (results p)\<rparr>))"
| apply_repeat: "i < length (workers p) \<Longrightarrow> workers p ! i = W_running t \<Longrightarrow>
    pool_step p Internal (set_worker i (W_repeat t) p)"
| again: "i < length (workers p) \<Longrightarrow> workers p ! i = W_repeat t \<Longrightarrow>
    \<not> (in_queue p \<noteq> [] \<or> stop_flag p \<or> tw_priority t = TP_WORKER) \<Longrightarrow>
    pool_step p Internal (set_worker i (W_running t) p)"
| put_back: "i < length (workers p) \<Longrightarrow> workers p ! i = W_repeat t \<Longrightarrow>
    in_queue p \<noteq> [] \<or> stop_flag p \<or> tw_priority t = TP_WORKER \<Longrightarrow>
    pool_step p Internal (set_worker i (W_pushing t) p)"
| push_back: "i < length (workers p) \<Longrightarrow> workers p ! i = W_pushing t \<Longrightarrow>
    pool_step p Internal (set_worker i W_done (push_task t p))"
| decrement: "i < length (workers p) \<Longrightarrow> workers p ! i = W_done \<Longrightarrow>
    pool_step p Internal (set_worker i W_loop (p\<lparr>task_runned := task_runned p - 1\<rparr>))"
| stop_begin: "pool_step p Internal (p\<lparr>stop_flag := True\<rparr>)"
| stop_end: "stop_flag p \<Longrightarrow> set (workers p) \<subseteq> {W_exited} \<Longrightarrow>
    pool_step p Internal (p\<lparr>is_stoped := True\<rparr>)"

inductive pool_run :: "'t threads_pool \<Rightarrow> 't pool_event list \<Rightarrow> 't threads_pool \<Rightarrow> bool" where
  pool_run_Nil: "pool_run p [] p"
| pool_run_snoc: "pool_run p es q \<Longrightarrow> pool_step q e r \<Longrightarrow> pool_run p (es @ [e]) r"

inductive_cases pool_step_PostedE: "pool_step p (Posted t) q"
inductive_cases pool_step_FinishedE: "pool_step p (Finished t) q"

section \<open>The task a worker picks\<close>

lemma select_loop_Some:
  "select_loop (Some t) q = (if tw_priority t = TP_WORKER
     then case find (\<lambda>v. tw_priority v \<noteq> TP_WORKER) q of None \<Rightarrow> Some t | Some v \<Rightarrow> Some v
     else Some t)"
  by (induction q) (auto intro: task_priority.exhaust split: option.splits)

lemma select_task_eq:
  "select_task q = (case find (\<lambda>v. tw_priority v \<noteq> TP_WORKER) q of
     Some v \<Rightarrow> Some v | None \<Rightarrow> (case q of [] \<Rightarrow> None | v # _ \<Rightarrow> Some v))"
  by (cases q) (auto simp: select_task_def select_loop_Some split: option.splits)

lemma select_task_in: "select_task q = Some t \<Longrightarrow> t \<in> set q"
  by (auto simp: select_task_eq find_Some_iff split: option.splits list.splits)

section \<open>Conservation and counting\<close>

fun held_by :: "'t worker \<Rightarrow> 't task_wrapper multiset" where
  "held_by (W_running t) = {#t#}"
| "held_by (W_repeat t) = {#t#}"
| "held_by (W_pushing t) = {#t#}"
| "held_by _ = {#}"

fun counted :: "'t worker \<Rightarrow> nat" where
  "counted W_loop = 0"
| "counted W_exited = 0"
| "counted _ = 1"

definition worker_sum :: "('t worker \<Rightarrow> 'b::comm_monoid_add) \<Rightarrow> 't threads_pool \<Rightarrow> 'b" where
  "worker_sum f p = sum_list (map f (workers p))"

definition pool_tasks :: "'t threads_pool \<Rightarrow> 't task_wrapper multiset" where
  "pool_tasks p = mset (in_queue p) + worker_sum held_by p"

fun posted_of :: "'t pool_event \<Rightarrow> 't task_wrapper multiset" where
  "posted_of (Posted t) = {#t#}"
| "posted_of _ = {#}"

fun finished_of :: "'t pool_event \<Rightarrow> 't task_wrapper multiset" where
  "finished_of (Finished t) = {#t#}"
| "finished_of _ = {#}"

lemma sum_list_map_update:
  fixes f :: "'a \<Rightarrow> 'b::cancel_comm_monoid_add"
  assumes "i < length xs"
  shows "sum_list (map f (xs[i := x])) + f (xs ! i) = sum_list (map f xs) + f x"
  using assms
proof (induction xs arbitrary: i)
  case (Cons y ys)
  then show ?case by (cases i) (simp_all add: ac_simps)
qed simp

lemma worker_sum_set_worker:
  fixes f :: "'t worker \<Rightarrow> 'b::cancel_comm_monoid_add"
  assumes "i < length (workers p)" and "workers p ! i = v"
  shows "worker_sum f (set_worker i w p) + f v = worker_sum f p + f w"
  using sum_list_map_update [OF assms(1), of f w] assms(2)
  by (simp add: worker_sum_def set_worker_def)

lemma worker_sum_same:
  fixes f :: "'t worker \<Rightarrow> 'b::cancel_comm_monoid_add"
  assumes "i < length (workers p)" and "workers p ! i = v" and "f w = f v"
  shows "worker_sum f (set_worker i w p) = worker_sum f p"
  using worker_sum_set_worker [OF assms(1,2), of f w] assms(3) by simp

lemma set_worker_sel [simp]:
  "in_queue (set_worker i w p) = in_queue p" "task_runned (set_worker i w p) = task_runned p"
  "stop_flag (set_worker i w p) = stop_flag p" "is_stoped (set_worker i w p) = is_stoped p"
  "workers (set_worker i w p) = (workers p)[i := w]"
  by (simp_all add: set_worker_def)

lemma worker_sum_frame [simp]:
  "worker_sum f (p\<lparr>in_queue := q\<rparr>) = worker_sum f p"
  "worker_sum f (p\<lparr>task_runned := n\<rparr>) = worker_sum f p"
  "worker_sum f (p\<lparr>stop_flag := b\<rparr>) = worker_sum f p"
  "worker_sum f (p\<lparr>is_stoped := b\<rparr>) = worker_sum f p"
  "worker_sum f (p\<lparr>results := rs\<rparr>) = worker_sum f p"
  by (simp_all add: worker_sum_def)

lemma pool_step_conserves:
  "pool_step p e q \<Longrightarrow> pool_tasks q + finished_of e = pool_tasks p + posted_of e"
proof -
  assume step: "pool_step p e q"
  note move = worker_sum_set_worker [where f = held_by]
  from step show "pool_tasks q + finished_of e = pool_tasks p + posted_of e"
  proof cases
    case (take i t)
    then have "t \<in># mset (in_queue p)" by (auto dest: select_task_in)
    with take show ?thesis
      using move [of i "p\<lparr>in_queue := remove1 t (in_queue p), task_runned := task_runned p + 1\<rparr>"]
      by (simp add: pool_tasks_def)
  next
    case (apply_single i t)
    then show ?thesis
      using move [of i "p\<lparr>results := task_result_unlock (tw_result t) (results p)\<rparr>" _ W_done]
      by (simp add: pool_tasks_def)
  next
    case (push_back i t)
    then show ?thesis
      using move [of i "push_task t p" _ W_done] by (simp add: pool_tasks_def push_task_def)
  next
    case (decrement i)
    then show ?thesis
      using move [of i "p\<lparr>task_runned := task_runned p - 1\<rparr>" _ W_loop] by (simp add: pool_tasks_def)
  qed (simp_all add: pool_tasks_def push_task_def worker_sum_same)
qed

lemma pool_run_conserves:
  "pool_run p es q \<Longrightarrow>
   pool_tasks q + sum_list (map finished_of es) = pool_tasks p + sum_list (map posted_of es)"
proof (induction rule: pool_run.induct)
  case (pool_run_snoc p es q e r)
  have "pool_tasks r + sum_list (map finished_of (es @ [e])) =
      (pool_tasks r + finished_of e) + sum_list (map finished_of es)" by simp
  also have "\<dots> = (pool_tasks q + posted_of e) + sum_list (map finished_of es)"
    using pool_step_conserves [OF pool_run_snoc.hyps(2)] by simp
  also have "\<dots> = (pool_tasks q + sum_list (map finished_of es)) + posted_of e" by simp
  also have "\<dots> = pool_tasks p + sum_list (map posted_of (es @ [e]))"
    using pool_run_snoc.IH by simp
  finally show ?case .
qed simp

text \<open>
  The counter is exact, and a pool that is marked as stopped has its flag set and no worker left.
\<close>

definition pool_inv :: "'t threads_pool \<Rightarrow> bool" where
  "pool_inv p \<longleftrightarrow> task_runned p = worker_sum counted p \<and>
     (is_stoped p \<longrightarrow> stop_flag p \<and> set (workers p) \<subseteq> {W_exited})"

lemma worker_sum_replicate: "worker_sum counted (p\<lparr>workers := replicate n W_loop\<rparr>) = 0"
  by (simp add: worker_sum_def)

lemma threads_pool_new_inv: "threads_pool_new dc params = Inr p \<Longrightarrow> pool_inv p"
  by (auto simp: threads_pool_new_def pool_inv_def worker_sum_def bindR_eq_Inr)

lemma sum_list_map_mempty: "(\<And>x. x \<in> set xs \<Longrightarrow> f x = {#}) \<Longrightarrow> sum_list (map f xs) = {#}"
  by (induction xs) auto

lemma worker_sum_held_empty:
  "(\<And>w. w \<in> set (workers p) \<Longrightarrow> held_by w = {#}) \<Longrightarrow> worker_sum held_by p = {#}"
  unfolding worker_sum_def by (rule sum_list_map_mempty)

lemma threads_pool_new_tasks: "threads_pool_new dc params = Inr p \<Longrightarrow> pool_tasks p = {#}"
  by (auto simp: threads_pool_new_def pool_tasks_def bindR_eq_Inr intro: worker_sum_held_empty)

lemma stopped_worker:
  "set (workers p) \<subseteq> {W_exited} \<Longrightarrow> i < length (workers p) \<Longrightarrow> workers p ! i = W_exited"
  using nth_mem by blast

lemma pool_step_inv:
  assumes step: "pool_step p e q" and inv: "pool_inv p"
  shows "pool_inv q"
proof -
  note move = worker_sum_set_worker [where f = counted]
  have stopped: "is_stoped p \<Longrightarrow> i < length (workers p) \<Longrightarrow> workers p ! i = W_exited" for i
    using inv by (auto simp: pool_inv_def dest: stopped_worker)
  from step show ?thesis
  proof cases
    case (take i t)
    then show ?thesis
      using inv stopped [of i]
        move [of i "p\<lparr>in_queue := remove1 t (in_queue p), task_runned := task_runned p + 1\<rparr>"]
      by (auto simp: pool_inv_def)
  next
    case (decrement i)
    then show ?thesis
      using inv stopped [of i] move [of i "p\<lparr>task_runned := task_runned p - 1\<rparr>" _ W_loop]
      by (auto simp: pool_inv_def)
  qed (use inv stopped in \<open>fastforce simp: pool_inv_def push_task_def worker_sum_same\<close>)+
qed

lemma pool_run_inv: "pool_run p es q \<Longrightarrow> pool_inv p \<Longrightarrow> pool_inv q"
  by (induction rule: pool_run.induct) (auto intro: pool_step_inv)

lemma new_pool_run:
  assumes "threads_pool_new dc params = Inr p" and "pool_run p es q"
  shows "pool_tasks q + sum_list (map finished_of es) = sum_list (map posted_of es)"
    and "task_runned q = worker_sum counted q"
  using pool_run_conserves [OF assms(2)] threads_pool_new_tasks [OF assms(1)]
    pool_run_inv [OF assms(2) threads_pool_new_inv [OF assms(1)]]
  by (simp_all add: pool_inv_def)

lemma worker_sum_counted_0:
  "worker_sum counted p = 0 \<Longrightarrow> i < length (workers p) \<Longrightarrow> workers p ! i \<in> {W_loop, W_exited}"
proof -
  assume "worker_sum counted p = 0" and "i < length (workers p)"
  then have "counted (workers p ! i) = 0" by (simp add: worker_sum_def)
  then show ?thesis by (cases "workers p ! i") auto
qed

lemma pool_tasks_stopped:
  "pool_inv p \<Longrightarrow> is_stoped p \<Longrightarrow> pool_step p e q \<Longrightarrow>
   is_stoped q \<and> in_queue q = in_queue p \<and> results q = results p \<and> e = Internal"
  by (erule pool_step.cases) (auto simp: pool_inv_def dest: stopped_worker)

subsection \<open>Stopping through the steps of the workers\<close>

lemma pool_run_trans: "pool_run q es r \<Longrightarrow> pool_run p ds q \<Longrightarrow> pool_run p (ds @ es) r"
proof (induction rule: pool_run.induct)
  case (pool_run_snoc q es r e t)
  then have "pool_run p ((ds @ es) @ [e]) t" by (blast intro: pool_run.pool_run_snoc)
  then show ?case by simp
qed simp

lemma pool_run_step: "pool_step p e q \<Longrightarrow> pool_run p [e] q"
  using pool_run.pool_run_snoc [OF pool_run.pool_run_Nil] by fastforce

lemma pool_run_leave_all:
  assumes "stop_flag p" and "set (workers p) \<subseteq> {W_loop, W_exited}" and "n \<le> length (workers p)"
  shows "\<exists>es. pool_run p es
    (p\<lparr>workers := replicate n W_exited @ drop n (workers p)\<rparr>)"
  using assms(3)
proof (induction n)
  case 0
  have "p\<lparr>workers := replicate 0 W_exited @ drop 0 (workers p)\<rparr> = p" by simp
  then show ?case using pool_run.pool_run_Nil by metis
next
  case (Suc n)
  let ?q = "p\<lparr>workers := replicate n W_exited @ drop n (workers p)\<rparr>"
  let ?r = "p\<lparr>workers := replicate (Suc n) W_exited @ drop (Suc n) (workers p)\<rparr>"
  from Suc obtain es where run: "pool_run p es ?q" by auto
  have n: "n < length (workers p)" using Suc.prems by simp
  then have upd: "(replicate n W_exited @ drop n (workers p))[n := W_exited] =
      replicate (Suc n) W_exited @ drop (Suc n) (workers p)"
    by (simp add: list_update_append Cons_nth_drop_Suc [symmetric] replicate_append_same)
  have at: "workers ?q ! n = workers p ! n" using n by (simp add: nth_append)
  have "workers p ! n \<in> {W_loop, W_exited}" using assms(2) n nth_mem by blast
  then consider "workers p ! n = W_loop" | "workers p ! n = W_exited" by auto
  then show ?case
  proof cases
    case 1
    then have "pool_step ?q Internal (set_worker n W_exited ?q)"
      using at n assms(1) by (intro pool_step.leave) auto
    moreover have "set_worker n W_exited ?q = ?r" using upd by (simp add: set_worker_def)
    ultimately show ?thesis using run pool_run.pool_run_snoc by metis
  next
    case 2
    then have "?r = ?q"
      using n by (simp add: Cons_nth_drop_Suc [symmetric] replicate_append_same [symmetric])
    with run show ?thesis by metis
  qed
qed

lemma pool_stop_run:
  assumes "set (workers p) \<subseteq> {W_loop, W_exited}"
  shows "\<exists>es. pool_run p es (pool_stop p)"
proof -
  let ?p1 = "p\<lparr>stop_flag := True\<rparr>"
  let ?p2 = "?p1\<lparr>workers := replicate (length (workers p)) W_exited\<rparr>"
  have run1: "pool_run p [Internal] ?p1" by (intro pool_run_step pool_step.stop_begin)
  from pool_run_leave_all [of ?p1 "length (workers p)"] assms obtain es where "pool_run ?p1 es ?p2"
    by auto
  with run1 have run2: "pool_run p ([Internal] @ es) ?p2" by (blast intro: pool_run_trans)
  have "pool_step ?p2 Internal (?p2\<lparr>is_stoped := True\<rparr>)"
    by (intro pool_step.stop_end) (auto simp: set_replicate_conv_if)
  moreover have "?p2\<lparr>is_stoped := True\<rparr> = pool_stop p"
    by (simp add: pool_stop_def map_replicate_const)
  ultimately show ?thesis using run2 pool_run.pool_run_snoc by metis
qed

section \<open>The thread manager\<close>

record 't thread_manager =
  tm_stoping_begin :: bool
  tm_stoped :: bool
  tm_params :: "pool_params list"
  tm_pools :: "(thread_kind_t, 't threads_pool) unordered_map"

text \<open>The constructor makes one pool per entry; \<^verbatim>\<open>ENSURE\<close> rejects a kind that occurs twice.\<close>

fun make_pools ::
    "bool \<Rightarrow> pool_params list \<Rightarrow> (thread_kind_t, 't threads_pool) unordered_map \<Rightarrow>
     fault + (thread_kind_t, 't threads_pool) unordered_map" where
  "make_pools dc [] pools = Inr pools"
| "make_pools dc (kv # kvs) pools =
     bindR (ensure dc (map_of pools (pp_kind kv) = None) ''_pools.find(kv.kind) == _pools.end()'') (\<lambda>_.
     bindR (threads_pool_new dc kv) (\<lambda>p.
       make_pools dc kvs (AList.update (pp_kind kv) p pools)))"

definition thread_manager_new :: "bool \<Rightarrow> pool_params list \<Rightarrow> fault + 't thread_manager" where
  "thread_manager_new dc params =
     bindR (make_pools dc params []) (\<lambda>pools.
       Inr \<lparr>tm_stoping_begin = False, tm_stoped = False, tm_params = params, tm_pools = pools\<rparr>)"

definition tm_post ::
    "thread_kind_t \<Rightarrow> 't task_wrapper \<Rightarrow> 't thread_manager \<Rightarrow>
     fault + (nat option \<times> 't thread_manager)" where
  "tm_post kind t m =
     (if tm_stoping_begin m then Inr (None, m)
      else case map_of (tm_pools m) kind of
        None \<Rightarrow> Inl (Throw ''unknow kind.'')
      | Some pool \<Rightarrow> (let (r, pool') = pool_post t pool
          in Inr (r, m\<lparr>tm_pools := AList.update kind pool' (tm_pools m)\<rparr>)))"

definition tm_stop :: "'t thread_manager \<Rightarrow> 't thread_manager" where
  "tm_stop m =
     (let m = m\<lparr>tm_stoping_begin := True\<rparr> in
      if \<not> tm_stoped m then
        let m = m\<lparr>tm_pools := map (map_prod id pool_stop) (tm_pools m)\<rparr>
        in m\<lparr>tm_pools := [], tm_stoped := True\<rparr>
      else m)"

definition tm_flush_test :: "'t thread_manager \<Rightarrow> bool" where
  "tm_flush_test m \<longleftrightarrow> list_all (\<lambda>(k, p). flush_test p) (tm_pools m)"

definition tm_active_works :: "'t thread_manager \<Rightarrow> nat" where
  "tm_active_works m = foldl (\<lambda>res (k, p). res + active_workers p) 0 (tm_pools m)"

text \<open>
  What the context relies on: while the manager accepts work of a kind, a posted task is appended to
  that kind's queue and no other queue changes.
\<close>

definition tm_queue :: "'t thread_manager \<Rightarrow> thread_kind_t \<Rightarrow> 't task_wrapper list" where
  "tm_queue m kind = (case map_of (tm_pools m) kind of None \<Rightarrow> [] | Some p \<Rightarrow> in_queue p)"

definition tm_accepts :: "'t thread_manager \<Rightarrow> thread_kind_t \<Rightarrow> bool" where
  "tm_accepts m kind \<longleftrightarrow> \<not> tm_stoping_begin m \<and>
     (case map_of (tm_pools m) kind of None \<Rightarrow> False | Some p \<Rightarrow> \<not> is_stoped p)"

locale task_sink =
  fixes post :: "'k \<Rightarrow> 't \<Rightarrow> 'm \<Rightarrow> fault + ('r \<times> 'm)"
    and queue :: "'m \<Rightarrow> 'k \<Rightarrow> 't list"
    and accepts :: "'m \<Rightarrow> 'k \<Rightarrow> bool"
  assumes post_accepted: "accepts m k \<Longrightarrow>
    \<exists>r m'. post k t m = Inr (r, m') \<and> queue m' = (queue m)(k := queue m k @ [t]) \<and>
      accepts m' = accepts m"
begin

lemma post_queue:
  "accepts m k \<Longrightarrow> post k t m = Inr (r, m') \<Longrightarrow> queue m' j = (if j = k then queue m k @ [t] else queue m j)"
  using post_accepted [of m k t] by auto

lemma post_accepts: "accepts m k \<Longrightarrow> post k t m = Inr (r, m') \<Longrightarrow> accepts m' j = accepts m j"
  using post_accepted [of m k t] by auto

lemma post_no_fault: "accepts m k \<Longrightarrow> post k t m \<noteq> Inl f"
  using post_accepted [of m k t] by auto

end

interpretation tm: task_sink tm_post tm_queue tm_accepts
proof
  fix m :: "'t thread_manager" and k t
  assume "tm_accepts m k"
  then obtain p where p: "\<not> tm_stoping_begin m" "map_of (tm_pools m) k = Some p" "\<not> is_stoped p"
    by (auto simp: tm_accepts_def split: option.splits)
  let ?m' = "m\<lparr>tm_pools := AList.update k (push_task t p) (tm_pools m)\<rparr>"
  have "tm_post k t m = Inr (Some (tw_result t), ?m')"
    using p by (simp add: tm_post_def pool_post_def)
  moreover have "tm_queue ?m' = (tm_queue m)(k := tm_queue m k @ [t])"
    using p by (auto simp: tm_queue_def push_task_def fun_eq_iff)
  moreover have "tm_accepts ?m' = tm_accepts m"
    using p by (auto simp: tm_accepts_def push_task_def fun_eq_iff)
  ultimately show "\<exists>r m'. tm_post k t m = Inr (r, m') \<and>
      tm_queue m' = (tm_queue m)(k := tm_queue m k @ [t]) \<and> tm_accepts m' = tm_accepts m"
    by blast
qed

section \<open>Properties\<close>

text \<open>
  C16: the search loop of a worker picks the first task of default priority; only when every queued task
  is a \<^verbatim>\<open>WORKER\<close> does it pick one, the first. It finds a task exactly when the queue is not empty.
\<close>

theorem select_task_spec:
  "select_task q = (case find (\<lambda>v. tw_priority v \<noteq> TP_WORKER) q of
     Some v \<Rightarrow> Some v | None \<Rightarrow> (case q of [] \<Rightarrow> None | v # _ \<Rightarrow> Some v)) \<and>
   (select_task q = None \<longleftrightarrow> q = [])"
  by (auto simp: select_task_eq split: option.splits list.splits)

text \<open>
  C11: tasks are neither lost nor duplicated: in every run of a new pool, with any interleaving of
  workers, posting threads and \<^verbatim>\<open>stop\<close>, the tasks that are queued or held by a worker together with those
  that finished are exactly those that were posted; and the counter of running tasks equals the number of
  workers between taking a task and giving it up.
\<close>

theorem pool_conserves_tasks:
  assumes "threads_pool_new dc params = Inr p" and "pool_run p es q"
  shows "pool_tasks q + sum_list (map finished_of es) = sum_list (map posted_of es) \<and>
    task_runned q = worker_sum counted q"
  using new_pool_run [OF assms] by simp

definition demo_pool :: "nat threads_pool" where
  "demo_pool = \<lparr>tp_params = \<lparr>pp_threads_count = 1, pp_kind = 1\<rparr>, in_queue = [], stop_flag = False,
     is_stoped = False, task_runned = 0, workers = [W_loop], results = (\<lambda>_. True)\<rparr>"

lemma demo_pool_new:
  "threads_pool_new True \<lparr>pp_threads_count = 1, pp_kind = 1\<rparr> = Inr demo_pool"
  by (simp add: threads_pool_new_def demo_pool_def)

lemma demo_pool_run:
  "pool_run demo_pool [Posted (wrap_task 7 0), Internal]
     (set_worker 0 (W_running (wrap_task 7 0)) (demo_pool\<lparr>task_runned := 1\<rparr>))"
proof -
  let ?t = "wrap_task 7 0 :: nat task_wrapper"
  have a: "pool_run demo_pool [Posted ?t] (push_task ?t demo_pool)"
    by (intro pool_run_step pool_step.post) (simp add: demo_pool_def)
  have "pool_step (push_task ?t demo_pool) Internal (set_worker 0 (W_running ?t)
      ((push_task ?t demo_pool)\<lparr>in_queue := remove1 ?t (in_queue (push_task ?t demo_pool)),
        task_runned := task_runned (push_task ?t demo_pool) + 1\<rparr>))"
    by (intro pool_step.take)
      (simp_all add: demo_pool_def push_task_def select_task_def wrap_task_def)
  with pool_run.pool_run_snoc [OF a] show ?thesis
    by (simp add: demo_pool_def push_task_def set_worker_def)
qed

theorem pool_conserves_tasks_witness:
  "pool_tasks (set_worker 0 (W_running (wrap_task 7 0)) (demo_pool\<lparr>task_runned := 1\<rparr>)) +
     sum_list (map finished_of [Posted (wrap_task 7 0), Internal]) =
   sum_list (map posted_of [Posted (wrap_task (7::nat) 0), Internal]) \<and>
   task_runned (set_worker 0 (W_running (wrap_task 7 0)) (demo_pool\<lparr>task_runned := 1\<rparr>)) =
   worker_sum counted (set_worker 0 (W_running (wrap_task 7 0)) (demo_pool\<lparr>task_runned := 1\<rparr>))"
  by (rule pool_conserves_tasks [OF demo_pool_new demo_pool_run])

text \<open>
  C17: what \<^verbatim>\<open>flush\<close> has established when its test succeeds in a state a new pool can reach: every task
  still queued is a \<^verbatim>\<open>WORKER\<close>, no worker holds a task, and so every finished or unfinished task of default
  priority that was posted has finished.
\<close>

theorem flush_complete:
  assumes "threads_pool_new dc params = Inr p" and "pool_run p es q" and "flush_test q"
  shows "set (workers q) \<subseteq> {W_loop, W_exited} \<and>
    filter_mset (\<lambda>t. tw_priority t = TP_DEFAULT) (sum_list (map finished_of es)) =
    filter_mset (\<lambda>t. tw_priority t = TP_DEFAULT) (sum_list (map posted_of es))"
proof -
  note cons = new_pool_run(1) [OF assms(1,2)] and cnt = new_pool_run(2) [OF assms(1,2)]
  from assms(3) have z: "task_runned q = 0" and ws: "list_all (\<lambda>t. tw_priority t = TP_WORKER) (in_queue q)"
    by (auto simp: flush_test_def split: if_splits)
  have idle: "workers q ! i \<in> {W_loop, W_exited}" if "i < length (workers q)" for i
    using worker_sum_counted_0 [OF _ that] cnt z by simp
  then have idle: "set (workers q) \<subseteq> {W_loop, W_exited}" by (fastforce simp: in_set_conv_nth)
  then have "\<forall>w \<in> set (workers q). held_by w = {#}" by auto
  then have "worker_sum held_by q = {#}" by (auto intro: worker_sum_held_empty)
  then have "filter_mset (\<lambda>t. tw_priority t = TP_DEFAULT) (pool_tasks q) = {#}"
    using ws by (auto simp: pool_tasks_def list_all_iff)
  with idle show ?thesis by (auto simp flip: cons)
qed

lemma demo_pool_run_complete:
  "pool_run demo_pool [Posted (wrap_task 7 0), Internal, Finished (wrap_task 7 0), Internal]
     (demo_pool\<lparr>results := (\<lambda>_. True)(0 := False)\<rparr>)"
proof -
  let ?t = "wrap_task 7 0 :: nat task_wrapper"
  let ?p2 = "set_worker 0 (W_running ?t) (demo_pool\<lparr>task_runned := 1\<rparr>)"
  let ?p3 = "set_worker 0 W_done (?p2\<lparr>results := task_result_unlock (tw_result ?t) (results ?p2)\<rparr>)"
  have "pool_step ?p2 (Finished ?t) ?p3"
    by (intro pool_step.apply_single) (simp_all add: demo_pool_def set_worker_def)
  from pool_run.pool_run_snoc [OF demo_pool_run this]
  have a: "pool_run demo_pool [Posted ?t, Internal, Finished ?t] ?p3" by simp
  have "pool_step ?p3 Internal (set_worker 0 W_loop (?p3\<lparr>task_runned := task_runned ?p3 - 1\<rparr>))"
    by (intro pool_step.decrement) (simp_all add: demo_pool_def set_worker_def)
  from pool_run.pool_run_snoc [OF a this] show ?thesis
    by (simp add: demo_pool_def set_worker_def task_result_unlock_def wrap_task_def)
qed

theorem flush_complete_witness:
  "set (workers (demo_pool\<lparr>results := (\<lambda>_. True)(0 := False)\<rparr>)) \<subseteq> {W_loop, W_exited} \<and>
   filter_mset (\<lambda>t. tw_priority t = TP_DEFAULT)
     (sum_list (map finished_of
       [Posted (wrap_task (7::nat) 0), Internal, Finished (wrap_task 7 0), Internal])) =
   filter_mset (\<lambda>t. tw_priority t = TP_DEFAULT)
     (sum_list (map posted_of
       [Posted (wrap_task (7::nat) 0), Internal, Finished (wrap_task 7 0), Internal]))"
  by (rule flush_complete [OF demo_pool_new demo_pool_run_complete])
    (simp add: demo_pool_def flush_test_def)

text \<open>
  C18: \<^verbatim>\<open>stop\<close> is final: a stopped pool refuses every further task, and in every continuation no task runs or
  finishes and the queue, with the tasks that were never run, stays as it is.
\<close>

theorem stopped_pool_inert:
  assumes "pool_inv p" and "is_stoped p" and "pool_run p es q"
  shows "pool_post t q = (None, q) \<and> in_queue q = in_queue p \<and> results q = results p \<and>
    set es \<subseteq> {Internal}"
proof -
  have "is_stoped q \<and> pool_inv q \<and> in_queue q = in_queue p \<and> results q = results p \<and>
      set es \<subseteq> {Internal}"
    using assms(3,1,2)
  proof (induction rule: pool_run.induct)
    case (pool_run_snoc p es q e r)
    then show ?case using pool_tasks_stopped [of q e r] pool_step_inv [of q e r] by auto
  qed simp
  then show ?thesis by (simp add: pool_post_def)
qed

theorem stopped_pool_inert_witness:
  "pool_post (wrap_task 1 1) (pool_stop demo_pool) = (None, pool_stop demo_pool) \<and>
   in_queue (pool_stop demo_pool) = in_queue (pool_stop demo_pool) \<and>
   results (pool_stop demo_pool) = results (pool_stop demo_pool) \<and>
   set ([] :: nat pool_event list) \<subseteq> {Internal}"
  by (rule stopped_pool_inert [OF _ _ pool_run.pool_run_Nil])
    (simp_all add: pool_stop_def demo_pool_def pool_inv_def worker_sum_def)

text \<open>
  The state \<^verbatim>\<open>stop\<close> returns in is one the worker threads reach by themselves: from any pool whose
  workers are between tasks, setting the flag, letting every worker leave its loop and joining them is a run
  that ends in the stopped pool with the queue unchanged.
\<close>

theorem pool_stop_refines:
  assumes "set (workers p) \<subseteq> {W_loop, W_exited}"
  shows "(\<exists>es. pool_run p es (pool_stop p)) \<and> in_queue (pool_stop p) = in_queue p \<and>
    is_stoped (pool_stop p)"
  using pool_stop_run [OF assms] by (simp add: pool_stop_def)

theorem pool_stop_refines_witness:
  "(\<exists>es. pool_run demo_pool es (pool_stop demo_pool)) \<and>
   in_queue (pool_stop demo_pool) = in_queue demo_pool \<and> is_stoped (pool_stop demo_pool)"
  by (rule pool_stop_refines) (simp add: demo_pool_def)

text \<open>
  Stopping the manager is idempotent and final: afterwards it has no pools and every post, of any
  kind, is silently refused; before that, a post of a kind without a pool throws.
\<close>

theorem tm_stop_final:
  "tm_stop (tm_stop m) = tm_stop m \<and>
   tm_post kind t (tm_stop m) = Inr (None, tm_stop m) \<and>
   (\<not> tm_stoped m \<longrightarrow> tm_pools (tm_stop m) = []) \<and>
   (\<not> tm_stoping_begin m \<and> map_of (tm_pools m) kind = None \<longrightarrow>
      tm_post kind t m = Inl (Throw ''unknow kind.''))"
  by (auto simp: tm_stop_def tm_post_def Let_def)

theorem tm_stop_final_witness:
  "tm_pools (tm_stop \<lparr>tm_stoping_begin = False, tm_stoped = False, tm_params = [],
     tm_pools = [(1, demo_pool)]\<rparr>) = [] \<and>
   tm_post 2 (wrap_task 0 0) \<lparr>tm_stoping_begin = False, tm_stoped = False, tm_params = [],
     tm_pools = [(1, demo_pool)]\<rparr> = Inl (Throw ''unknow kind.'')"
  using tm_stop_final [of "\<lparr>tm_stoping_begin = False, tm_stoped = False, tm_params = [],
     tm_pools = [(1, demo_pool)]\<rparr>" 2 "wrap_task 0 0"] by simp

end
