(* ===== verification/Yaaf_Context_State.thy ===== *)
theory Yaaf_Context_State
  imports Yaaf_Actor Yaaf_Async
begin

text \<open>
  The state of \<^verbatim>\<open>context\<close> (\<^verbatim>\<open>libyaaf/context.h\<close>), the virtual functions of the actors it calls, and its two
  mutexes. The context extends the store of \<open>Yaaf_Actor\<close>, so operations on actors and mailboxes apply to it as they
  are. A mutex records how the running thread holds it: locking one the thread already owns is undefined
  (\<^const>\<open>Relock\<close>), which is how re-entrance from a callback shows up in the model.
\<close>

section \<open>The state\<close>

datatype rw_lock = Unlocked | Shared | Exclusive

record description =
  d_actor :: actor_ptr
  d_address :: actor_address
  d_settings :: actor_settings
  d_usrcont :: "user_context option"
  d_name :: string
  d_parent :: id_t
  d_children :: "id_t list"

record exchange_t =
  ex_subscribes :: "id_t list"
  ex_owner :: actor_address
  ex_pub :: mbox_ptr

text \<open>
  The closures the context posts: starting an actor, applying an actor to a mailbox with what the
  closure captured, and the mailbox worker; each with the strategy it returns.
\<close>

datatype ctx_task =
    T_on_start actor_ptr
  | T_apply description "actor_ptr option" mbox_ptr
  | T_mailbox_worker

type_synonym posted_task = "ctx_task \<times> continuation_strategy"

record ctx_params =
  user_threads :: nat
  sys_threads :: nat

definition defparams :: ctx_params where
  "defparams = \<lparr>user_threads = 1, sys_threads = 1\<rparr>"

text \<open>
  The members of \<^verbatim>\<open>context\<close>. The last three fields are the allocators behind \<^verbatim>\<open>std::make_shared\<close> for
  mailboxes, actors and task results; \<open>double_checks\<close> is the build option.
\<close>

record 'u ctx = "'u world" +
  double_checks :: bool
  cx_params :: ctx_params
  cx_name :: string
  cx_tm :: "posted_task thread_manager option"
  cx_lock :: rw_lock
  next_actor_id :: "64 word"
  actors :: "(id_t, description) unordered_map"
  id_by_name :: "(string, id_t) unordered_map"
  mboxes :: "(id_t, mbox_ptr) unordered_map"
  cx_xlock :: rw_lock
  exchanges :: "(string, exchange_t) unordered_map"
  stopping_begin :: bool
  root_addr :: actor_address
  usr_root :: actor_address
  sys_root :: actor_address
  next_mb :: mbox_ptr
  next_obj :: actor_ptr
  next_result :: nat

abbreviation actor_at :: "'u ctx \<Rightarrow> id_t \<Rightarrow> description option" where
  "actor_at s \<equiv> map_of (actors s)"

abbreviation mbox_at :: "'u ctx \<Rightarrow> id_t \<Rightarrow> mbox_ptr option" where
  "mbox_at s \<equiv> map_of (mboxes s)"

abbreviation queue_at :: "'u ctx \<Rightarrow> mbox_ptr \<Rightarrow> envelope list" where
  "queue_at s m \<equiv> dqueue (mbs s m)"

section \<open>The mutexes\<close>

definition with_excl :: "('u ctx, 'a) cpp \<Rightarrow> ('u ctx, 'a) cpp" where
  "with_excl m = (\<lambda>s. if cx_lock s \<noteq> Unlocked then (Inl Relock, s)
     else (case m (s\<lparr>cx_lock := Exclusive\<rparr>) of (r, s') \<Rightarrow> (r, s'\<lparr>cx_lock := Unlocked\<rparr>)))"

definition with_shared :: "('u ctx, 'a) cpp \<Rightarrow> ('u ctx, 'a) cpp" where
  "with_shared m = (\<lambda>s. if cx_lock s \<noteq> Unlocked then (Inl Relock, s)
     else (case m (s\<lparr>cx_lock := Shared\<rparr>) of (r, s') \<Rightarrow> (r, s'\<lparr>cx_lock := Unlocked\<rparr>)))"

definition with_xexcl :: "('u ctx, 'a) cpp \<Rightarrow> ('u ctx, 'a) cpp" where
  "with_xexcl m = (\<lambda>s. if cx_xlock s \<noteq> Unlocked then (Inl Relock, s)
     else (case m (s\<lparr>cx_xlock := Exclusive\<rparr>) of (r, s') \<Rightarrow> (r, s'\<lparr>cx_xlock := Unlocked\<rparr>)))"

definition with_xshared :: "('u ctx, 'a) cpp \<Rightarrow> ('u ctx, 'a) cpp" where
  "with_xshared m = (\<lambda>s. if cx_xlock s \<noteq> Unlocked then (Inl Relock, s)
     else (case m (s\<lparr>cx_xlock := Shared\<rparr>) of (r, s') \<Rightarrow> (r, s'\<lparr>cx_xlock := Unlocked\<rparr>)))"

lemmas lock_defs = with_excl_def with_shared_def with_xexcl_def with_xshared_def

abbreviation unlocked :: "'u ctx \<Rightarrow> bool" where
  "unlocked s \<equiv> cx_lock s = Unlocked \<and> cx_xlock s = Unlocked"

lemma cx_lock_idem: "cx_lock s = l \<Longrightarrow> s\<lparr>cx_lock := l\<rparr> = s"
  and cx_xlock_idem: "cx_xlock s = l \<Longrightarrow> s\<lparr>cx_xlock := l\<rparr> = s"
  by auto

text \<open>A property that does not look at a mutex survives a critical section that keeps it.\<close>

lemma preserves_locked:
  assumes "preserves I m"
    and "\<And>s l. I s \<Longrightarrow> I (s\<lparr>cx_lock := l\<rparr>)" and "\<And>s l. I s \<Longrightarrow> I (s\<lparr>cx_xlock := l\<rparr>)"
  shows "preserves I (with_excl m)" and "preserves I (with_shared m)"
    and "preserves I (with_xexcl m)" and "preserves I (with_xshared m)"
  using preserves_snd [OF assms(1)] assms(2,3)
  by (auto intro!: preservesI simp: lock_defs split: prod.splits) (metis snd_conv)+

section \<open>Virtual functions\<close>

text \<open>
  The overrides of the user's actor classes, indexed by the actor they are called on. They run on the
  whole context because they reach it through \<^verbatim>\<open>get_context()\<close>.
\<close>

record 'u vtable =
  v_action_handle :: "actor_ptr \<Rightarrow> envelope \<Rightarrow> ('u ctx, unit) cpp"
  v_on_init :: "actor_ptr \<Rightarrow> actor_settings \<Rightarrow> ('u ctx, actor_settings) cpp"
  v_on_start :: "actor_ptr \<Rightarrow> ('u ctx, unit) cpp"
  v_on_stop :: "actor_ptr \<Rightarrow> ('u ctx, unit) cpp"
  v_on_child_status :: "actor_ptr \<Rightarrow> actor_address \<Rightarrow> actor_status_kinds \<Rightarrow> ('u ctx, unit) cpp"
  v_on_child_error :: "actor_ptr \<Rightarrow> actor_address \<Rightarrow> ('u ctx, actor_action_when_error) cpp"
  v_on_child_stopped ::
    "actor_ptr \<Rightarrow> actor_address \<Rightarrow> actor_stopping_reason \<Rightarrow> ('u ctx, unit) cpp"

text \<open>The functions \<^verbatim>\<open>base_actor\<close> provides where a class overrides nothing.\<close>

definition base_vtable :: "'u vtable" where
  "base_vtable = \<lparr>v_action_handle = (\<lambda>p e. retM ()), v_on_init = (\<lambda>p. base_on_init),
     v_on_start = (\<lambda>p. base_on_start), v_on_stop = base_on_stop,
     v_on_child_status = (\<lambda>p. base_on_child_status), v_on_child_error = (\<lambda>p. base_on_child_error),
     v_on_child_stopped = (\<lambda>p. base_on_child_stopped)\<rparr>"

text \<open>
  The root actors the context creates for itself override only \<^verbatim>\<open>action_handle\<close>, with an empty body. A call
  on an actor of another class goes to that class.
\<close>

definition library_class :: "actor_class \<Rightarrow> bool" where
  "library_class k \<longleftrightarrow> k \<in> {Root_actor, Usr_actor, Sys_actor}"

definition vt_of :: "'u vtable \<Rightarrow> 'u ctx \<Rightarrow> actor_ptr \<Rightarrow> 'u vtable" where
  "vt_of vt s p = (if library_class (class_of (objs s p)) then base_vtable else vt)"

definition call_action_handle :: "'u vtable \<Rightarrow> actor_ptr \<Rightarrow> envelope \<Rightarrow> ('u ctx, unit) cpp" where
  "call_action_handle vt p e = (\<lambda>s. v_action_handle (vt_of vt s p) p e s)"

definition call_on_init ::
    "'u vtable \<Rightarrow> actor_ptr \<Rightarrow> actor_settings \<Rightarrow> ('u ctx, actor_settings) cpp" where
  "call_on_init vt p st = (\<lambda>s. v_on_init (vt_of vt s p) p st s)"

definition call_on_start :: "'u vtable \<Rightarrow> actor_ptr \<Rightarrow> ('u ctx, unit) cpp" where
  "call_on_start vt p = (\<lambda>s. v_on_start (vt_of vt s p) p s)"

definition call_on_stop :: "'u vtable \<Rightarrow> actor_ptr \<Rightarrow> ('u ctx, unit) cpp" where
  "call_on_stop vt p = (\<lambda>s. v_on_stop (vt_of vt s p) p s)"

definition call_on_child_status ::
    "'u vtable \<Rightarrow> actor_ptr \<Rightarrow> actor_address \<Rightarrow> actor_status_kinds \<Rightarrow> ('u ctx, unit) cpp" where
  "call_on_child_status vt p a k = (\<lambda>s. v_on_child_status (vt_of vt s p) p a k s)"

definition call_on_child_error ::
    "'u vtable \<Rightarrow> actor_ptr \<Rightarrow> actor_address \<Rightarrow> ('u ctx, actor_action_when_error) cpp" where
  "call_on_child_error vt p a = (\<lambda>s. v_on_child_error (vt_of vt s p) p a s)"

definition call_on_child_stopped ::
    "'u vtable \<Rightarrow> actor_ptr \<Rightarrow> actor_address \<Rightarrow> actor_stopping_reason \<Rightarrow> ('u ctx, unit) cpp" where
  "call_on_child_stopped vt p a r = (\<lambda>s. v_on_child_stopped (vt_of vt s p) p a r s)"

lemmas call_defs = call_action_handle_def call_on_init_def call_on_start_def call_on_stop_def
  call_on_child_status_def call_on_child_error_def call_on_child_stopped_def

subsection \<open>Quiet callbacks\<close>

text \<open>
  A callback is quiet when it returns and touches nothing but actor objects and the user's own state.
  \<^verbatim>\<open>on_stop\<close> and \<^verbatim>\<open>on_child_stopped\<close> run while the context's mutex is held exclusively, so calling back into
  the context from them would deadlock; \<^verbatim>\<open>on_init\<close> runs before the actor is registered.
\<close>

definition quiet_change :: "'u ctx \<Rightarrow> 'u ctx \<Rightarrow> bool" where
  "quiet_change s s' \<longleftrightarrow> (\<exists>f u. s' = s\<lparr>objs := f, usr := u\<rparr>)"

definition quiet_op :: "('u ctx, 'a) cpp \<Rightarrow> bool" where
  "quiet_op m \<longleftrightarrow> (\<forall>s. \<exists>x s'. m s = (Inr x, s') \<and> quiet_change s s')"

definition quiet_vtable :: "'u vtable \<Rightarrow> bool" where
  "quiet_vtable vt \<longleftrightarrow> (\<forall>p st a r. quiet_op (v_on_init vt p st) \<and> quiet_op (v_on_stop vt p) \<and>
     quiet_op (v_on_child_stopped vt p a r))"

lemma quiet_change_refl [simp]: "quiet_change s s"
  unfolding quiet_change_def by (rule exI [of _ "objs s"], rule exI [of _ "usr s"]) simp

lemma quiet_change_trans [trans]: "quiet_change s t \<Longrightarrow> quiet_change t u \<Longrightarrow> quiet_change s u"
  unfolding quiet_change_def by (elim exE) (auto intro!: exI)

lemma quiet_change_sel:
  assumes "quiet_change s s'"
  shows "actors s' = actors s" "mboxes s' = mboxes s" "id_by_name s' = id_by_name s"
    "exchanges s' = exchanges s" "mbs s' = mbs s" "next_actor_id s' = next_actor_id s"
    "next_mb s' = next_mb s" "next_result s' = next_result s" "next_obj s' = next_obj s"
    "cx_lock s' = cx_lock s" "cx_xlock s' = cx_xlock s" "cx_tm s' = cx_tm s" "cx_name s' = cx_name s"
    "usr_root s' = usr_root s" "root_addr s' = root_addr s" "sys_root s' = sys_root s"
    "stopping_begin s' = stopping_begin s" "double_checks s' = double_checks s"
    "cx_params s' = cx_params s"
  using assms by (auto simp: quiet_change_def)

lemma quiet_change_objs [simp]: "quiet_change s (s\<lparr>objs := f\<rparr>)"
  unfolding quiet_change_def by (rule exI [of _ f], rule exI [of _ "usr s"]) simp

lemma quiet_upd_obj: "quiet_op (upd_obj p f)"
  by (simp add: quiet_op_def)

lemma quiet_retM: "quiet_op (retM x)"
  by (simp add: quiet_op_def)

lemma base_vtable_quiet: "quiet_vtable base_vtable"
  by (simp add: quiet_vtable_def base_vtable_def base_on_init_def base_on_stop_def
      base_on_child_stopped_def quiet_retM quiet_upd_obj)

lemma quiet_dispatch:
  "quiet_op (f base_vtable) \<Longrightarrow> quiet_op (f vt) \<Longrightarrow> quiet_op (\<lambda>s. f (vt_of vt s p) s)"
  by (simp add: quiet_op_def vt_of_def)

lemma quiet_calls:
  assumes "quiet_vtable vt"
  shows "quiet_op (call_on_init vt p st)" and "quiet_op (call_on_stop vt p)"
    and "quiet_op (call_on_child_stopped vt p a r)"
  using assms base_vtable_quiet quiet_dispatch [of "\<lambda>v. v_on_init v p st" vt]
    quiet_dispatch [of "\<lambda>v. v_on_stop v p" vt]
    quiet_dispatch [of "\<lambda>v. v_on_child_stopped v p a r" vt]
  unfolding call_defs quiet_vtable_def by blast+

section \<open>Posting work\<close>

definition USER :: thread_kind_t where
  "USER = 1"

definition SYSTEM :: thread_kind_t where
  "SYSTEM = 2"

text \<open>
  \<^verbatim>\<open>user_post\<close> and \<^verbatim>\<open>sys_post\<close> wrap a closure and hand it to the thread manager, through a pointer that
  \<^verbatim>\<open>stop\<close> resets.
\<close>

definition post_task ::
    "thread_kind_t \<Rightarrow> ctx_task \<Rightarrow> continuation_strategy \<Rightarrow> ('u ctx, nat option) cpp" where
  "post_task kind f strategy = (\<lambda>s. case cx_tm s of
       None \<Rightarrow> (Inl NullDeref, s)
     | Some m \<Rightarrow>
         (case tm_post kind (wrap_task (f, strategy) (next_result s)) m of
            Inl e \<Rightarrow> (Inl e, s\<lparr>next_result := Suc (next_result s)\<rparr>)
          | Inr (r, m') \<Rightarrow> (Inr r, s\<lparr>cx_tm := Some m', next_result := Suc (next_result s)\<rparr>)))"

definition user_post :: "ctx_task \<Rightarrow> continuation_strategy \<Rightarrow> ('u ctx, nat option) cpp" where
  "user_post f strategy = post_task USER f strategy"

definition sys_post :: "ctx_task \<Rightarrow> continuation_strategy \<Rightarrow> ('u ctx, nat option) cpp" where
  "sys_post f strategy = post_task SYSTEM f strategy"

text \<open>The closures waiting in the two pools, and whether the context can still post to the user pool.\<close>

definition user_queue :: "'u ctx \<Rightarrow> ctx_task list" where
  "user_queue s = (case cx_tm s of None \<Rightarrow> [] | Some m \<Rightarrow> map (fst \<circ> tw_task) (tm_queue m USER))"

definition sys_queue :: "'u ctx \<Rightarrow> ctx_task list" where
  "sys_queue s = (case cx_tm s of None \<Rightarrow> [] | Some m \<Rightarrow> map (fst \<circ> tw_task) (tm_queue m SYSTEM))"

definition can_post :: "'u ctx \<Rightarrow> bool" where
  "can_post s \<longleftrightarrow> (case cx_tm s of None \<Rightarrow> False | Some m \<Rightarrow> tm_accepts m USER)"

lemma user_post_app:
  assumes "can_post s"
  shows "\<exists>r m'. user_post f st s =
      (Inr r, s\<lparr>cx_tm := Some m', next_result := Suc (next_result s)\<rparr>) \<and>
    user_queue (s\<lparr>cx_tm := Some m', next_result := Suc (next_result s)\<rparr>) = user_queue s @ [f] \<and>
    sys_queue (s\<lparr>cx_tm := Some m', next_result := Suc (next_result s)\<rparr>) = sys_queue s \<and>
    can_post (s\<lparr>cx_tm := Some m', next_result := Suc (next_result s)\<rparr>)"
proof -
  from assms obtain m where m: "cx_tm s = Some m" "tm_accepts m USER"
    by (auto simp: can_post_def split: option.splits)
  let ?t = "wrap_task (f, st) (next_result s)"
  from tm.post_accepted [OF m(2), of ?t] obtain r m' where p: "tm_post USER ?t m = Inr (r, m')"
    and q: "tm_queue m' = (tm_queue m)(USER := tm_queue m USER @ [?t])"
    and a: "tm_accepts m' = tm_accepts m" by blast
  have "SYSTEM \<noteq> USER" by (simp add: USER_def SYSTEM_def)
  then show ?thesis
    using m p q a
    by (intro exI [of _ r] exI [of _ m'])
      (simp add: user_post_def post_task_def user_queue_def sys_queue_def can_post_def wrap_task_def)
qed

end
