(* ===== verification/Yaaf_Context.thy ===== *)
theory Yaaf_Context
  imports Yaaf_Context_State
begin

text \<open>
  The operations of \<^verbatim>\<open>context\<close> (\<^verbatim>\<open>libyaaf/context.cpp\<close>) on the registry of actors: creation, lookup by address
  and by name, sending, stopping, and what happens when a handler throws. Each operation is the whole body
  of its C++ function; calls of the logger, which change nothing the context can see, are left out.
\<close>

section \<open>Construction\<close>

text \<open>
  The constructor makes the two pools and names the context: an empty name is replaced by one made from
  the process-wide counter \<^verbatim>\<open>_ctx_id\<close>, passed in and returned. No actor object of the context exists yet.
\<close>

definition context_name :: "string \<Rightarrow> 64 word \<Rightarrow> string \<times> 64 word" where
  "context_name nm ctx_id =
     (if nm = [] then (''system_'' @ string_of_nat (unat ctx_id), ctx_id + 1) else (nm, ctx_id))"

definition context_pools :: "ctx_params \<Rightarrow> pool_params list" where
  "context_pools p = [\<lparr>pp_threads_count = user_threads p, pp_kind = USER\<rparr>,
     \<lparr>pp_threads_count = sys_threads p, pp_kind = SYSTEM\<rparr>]"

definition context_new ::
    "bool \<Rightarrow> ctx_params \<Rightarrow> string \<Rightarrow> 64 word \<Rightarrow> 'u \<Rightarrow> fault + ('u ctx \<times> 64 word)" where
  "context_new dc p nm ctx_id u =
     (let (nm', ctx_id') = context_name nm ctx_id
      in bindR (thread_manager_new dc (context_pools p)) (\<lambda>tm. Inr
        (\<lparr>objs = (\<lambda>_. base_actor_new User_actor), mbs = (\<lambda>_. mailbox_new), usr = u,
          double_checks = dc, cx_params = p, cx_name = nm', cx_tm = Some tm, cx_lock = Unlocked,
          next_actor_id = 1, actors = [], id_by_name = [], mboxes = [], cx_xlock = Unlocked,
          exchanges = [], stopping_begin = False, root_addr = address_default,
          usr_root = address_default, sys_root = address_default, next_mb = 0, next_obj = 0,
          next_result = 0\<rparr>, ctx_id')))"

section \<open>Lookup\<close>

definition get_actor :: "actor_address \<Rightarrow> ('u ctx, actor_ptr option) cpp" where
  "get_actor addr = with_shared
     (bindM (getM (\<lambda>s. actor_at s (aa_id addr))) (\<lambda>it. retM (map_option d_actor it)))"

definition get_actor_by_name :: "string \<Rightarrow> ('u ctx, actor_ptr option) cpp" where
  "get_actor_by_name name = with_shared
     (bindM (getM (\<lambda>s. map_of (id_by_name s) name)) (\<lambda>id_it. case id_it of
        None \<Rightarrow> retM None
      | Some i \<Rightarrow> bindM (getM (\<lambda>s. actor_at s i)) (\<lambda>it. retM (map_option d_actor it))))"

definition get_address :: "string \<Rightarrow> ('u ctx, actor_address) cpp" where
  "get_address name = with_shared
     (bindM (getM (\<lambda>s. map_of (id_by_name s) name)) (\<lambda>id_it. case id_it of
        None \<Rightarrow> retM address_default
      | Some i \<Rightarrow> bindM (getM (\<lambda>s. actor_at s i)) (\<lambda>it. case it of
            None \<Rightarrow> retM address_default
          | Some d \<Rightarrow> retM (d_address d))))"

definition ctx_get_name :: "('u ctx, string) cpp" where
  "ctx_get_name = getM cx_name"

section \<open>Sending\<close>

text \<open>Both overloads: the one for a temporary copies too, see \<open>Yaaf_Mailbox\<close>.\<close>

definition quoted :: "string \<Rightarrow> string" where
  "quoted t = CHR 34 # t @ [CHR 34]"

definition ensure_not_null :: "actor_address \<Rightarrow> string \<Rightarrow> ('u ctx, unit) cpp" where
  "ensure_not_null a what = bindM (getM double_checks) (\<lambda>dc.
     liftM (ensure dc (aa_pathname a \<noteq> null_pathname) what))"

definition send_envelope :: "actor_address \<Rightarrow> envelope \<Rightarrow> ('u ctx, unit) cpp" where
  "send_envelope target e = with_shared
     (seqM (ensure_not_null target (''target.get_pathname() != '' @ quoted ''null''))
     (seqM (ensure_not_null (sender e) (''e.sender.get_pathname() != '' @ quoted ''null''))
     (bindM (getM (\<lambda>s. mbox_at s (aa_id target))) (\<lambda>it. case it of
        None \<Rightarrow> retM ()
      | Some m \<Rightarrow> mb_push m e))))"

definition send_envelope_rv :: "actor_address \<Rightarrow> envelope \<Rightarrow> ('u ctx, unit) cpp" where
  "send_envelope_rv target e = with_shared
     (seqM (ensure_not_null target (''target.get_pathname() != '' @ quoted ''null''))
     (seqM (ensure_not_null (sender e) (''e.sender.get_pathname() != '' @ quoted ''null''))
     (bindM (getM (\<lambda>s. mbox_at s (aa_id target))) (\<lambda>it. case it of
        None \<Rightarrow> retM ()
      | Some m \<Rightarrow> mb_push_rv m e))))"

text \<open>\<^verbatim>\<open>abstract_context::send\<close>: a value becomes the payload of an envelope without a sender.\<close>

definition ctx_send :: "actor_address \<Rightarrow> cpp_value \<Rightarrow> ('u ctx, unit) cpp" where
  "ctx_send target t =
     bindM (liftM (payload_assign payload_default (payload_of t))) (\<lambda>p.
       send_envelope target (envelope_default\<lparr>payload := p\<rparr>))"

section \<open>Adding an actor\<close>

definition fetch_next_id :: "('u ctx, id_t) cpp" where
  "fetch_next_id = (\<lambda>s. (Inr (Id_t (next_actor_id s)), s\<lparr>next_actor_id := next_actor_id s + 1\<rparr>))"

definition new_mailbox :: "('u ctx, mbox_ptr) cpp" where
  "new_mailbox = (\<lambda>s. (Inr (next_mb s),
     s\<lparr>mbs := (mbs s)(next_mb s := mailbox_new), next_mb := Suc (next_mb s)\<rparr>))"

text \<open>
  The first critical section reads the parent's description. \<^verbatim>\<open>_actors[id]\<close> of an actor that is not
  registered yields a null pointer, which the next line dereferences.
\<close>

definition read_parent :: "actor_address \<Rightarrow> ('u ctx, description option) cpp" where
  "read_parent cur_parent =
     (if \<not> address_empty cur_parent then with_shared
        (bindM (getM (\<lambda>s. actor_at s (aa_id cur_parent))) (\<lambda>pd. case pd of
           None \<Rightarrow> faultM NullDeref
         | Some d \<Rightarrow> retM (Some d)))
      else retM None)"

definition user_context_new :: "actor_address \<Rightarrow> string \<Rightarrow> ('u ctx, user_context) cpp" where
  "user_context_new addr nm = bindM (getM double_checks) (\<lambda>dc.
     seqM (liftM (ensure dc (aa_pathname addr \<noteq> null_pathname) (''_addr.get_pathname() != '' @ quoted ''null'')))
     (seqM (liftM (ensure dc (aa_pathname addr \<noteq> []) (''_addr.get_pathname() != '' @ quoted [])))
     (seqM (liftM (ensure dc (nm \<noteq> null_pathname) (''_name != '' @ quoted ''null'')))
     (seqM (liftM (ensure dc (nm \<noteq> aa_pathname addr) ''_name != _addr.get_pathname()''))
       (retM \<lparr>uc_addr = addr, uc_name = nm\<rparr>)))))"

text \<open>The second critical section: the parent's set of children, the three maps, a new mailbox.\<close>

definition add_child :: "id_t \<Rightarrow> id_t \<Rightarrow> 'u ctx \<Rightarrow> 'u ctx" where
  "add_child pid cid s = (case actor_at s pid of
       None \<Rightarrow> s
     | Some pd \<Rightarrow>
         s\<lparr>actors := AList.update pid (pd\<lparr>d_children := List.insert cid (d_children pd)\<rparr>) (actors s)\<rparr>)"

definition register_actor :: "id_t \<Rightarrow> description \<Rightarrow> bool \<Rightarrow> ('u ctx, unit) cpp" where
  "register_actor new_id d has_parent = with_excl
     (seqM (whenM has_parent (modM (add_child (d_parent d) new_id)))
     (seqM (modM (\<lambda>s. s\<lparr>actors := AList.update new_id d (actors s)\<rparr>))
     (seqM (modM (\<lambda>s. s\<lparr>id_by_name := AList.update (d_name d) new_id (id_by_name s)\<rparr>))
     (bindM new_mailbox (\<lambda>m.
        modM (\<lambda>s. s\<lparr>mboxes := AList.update new_id m (mboxes s)\<rparr>))))))"

definition usercontext_name :: "string \<Rightarrow> id_t \<Rightarrow> string" where
  "usercontext_name ctx_nm i = ctx_nm @ ''/#usercontext#'' @ string_of_nat (unat (val i))"

text \<open>The body of \<^verbatim>\<open>add_actor\<close> after the parent is known, then the whole of it.\<close>

definition install_actor ::
    "'u vtable \<Rightarrow> id_t \<Rightarrow> string \<Rightarrow> string \<Rightarrow> actor_settings \<Rightarrow> id_t \<Rightarrow> bool \<Rightarrow> actor_ptr \<Rightarrow>
     ('u ctx, actor_address) cpp" where
  "install_actor vt new_id ucname nm settings parent_id has_parent a =
     (let result = address_of new_id nm
      in bindM (user_context_new result ucname) (\<lambda>uc.
         seqM (upd_obj a (set_context uc))
         (bindM (call_on_init vt a settings) (\<lambda>st.
          seqM (upd_obj a (set_self_addr result))
          (seqM (register_actor new_id
              \<lparr>d_actor = a, d_address = result, d_settings = st, d_usrcont = Some uc,
               d_name = nm, d_parent = parent_id, d_children = []\<rparr> has_parent)
          (bindM (user_post (T_on_start a) SINGLE) (\<lambda>_. retM result)))))))"

definition add_actor_under ::
    "'u vtable \<Rightarrow> string \<Rightarrow> actor_address \<Rightarrow> actor_ptr \<Rightarrow> ('u ctx, actor_address) cpp" where
  "add_actor_under vt actor_name parent a =
     bindM fetch_next_id (\<lambda>new_id.
     bindM (getM (\<lambda>s. usercontext_name (cx_name s) new_id)) (\<lambda>ucname.
     bindM (getM (\<lambda>s. if address_empty parent then usr_root s else parent)) (\<lambda>cur_parent.
     bindM (read_parent cur_parent) (\<lambda>parent_description. case parent_description of
         None \<Rightarrow> install_actor vt new_id ucname ([] @ ''/'' @ actor_name) defsettings id_default False a
       | Some pd \<Rightarrow> install_actor vt new_id ucname (d_name pd @ ''/'' @ actor_name) (d_settings pd)
           (aa_id cur_parent) True a))))"

definition add_actor :: "'u vtable \<Rightarrow> string \<Rightarrow> actor_ptr \<Rightarrow> ('u ctx, actor_address) cpp" where
  "add_actor vt actor_name a = add_actor_under vt actor_name address_default a"

text \<open>\<^verbatim>\<open>make_actor\<close> creates the actor object first.\<close>

definition new_actor :: "actor_class \<Rightarrow> ('u ctx, actor_ptr) cpp" where
  "new_actor k = (\<lambda>s. (Inr (next_obj s),
     s\<lparr>objs := (objs s)(next_obj s := base_actor_new k), next_obj := Suc (next_obj s)\<rparr>))"

definition make_actor :: "'u vtable \<Rightarrow> actor_class \<Rightarrow> string \<Rightarrow> ('u ctx, actor_address) cpp" where
  "make_actor vt k actor_name = bindM (new_actor k) (\<lambda>a. add_actor vt actor_name a)"

text \<open>
  \<^verbatim>\<open>start\<close> posts the mailbox worker, which repeats for ever, and creates the three root actors;
  \<^verbatim>\<open>network_init\<close> is empty in a build without the network.
\<close>

definition network_init :: "('u ctx, unit) cpp" where
  "network_init = retM ()"

definition context_start :: "'u vtable \<Rightarrow> ('u ctx, unit) cpp" where
  "context_start vt =
     bindM (sys_post T_mailbox_worker REPEAT) (\<lambda>_.
     bindM (make_actor vt Root_actor ''root'') (\<lambda>r.
     seqM (modM (\<lambda>s. s\<lparr>root_addr := r\<rparr>))
     (bindM (new_actor Usr_actor) (\<lambda>ua.
      bindM (add_actor_under vt ''usr'' r ua) (\<lambda>u.
      seqM (modM (\<lambda>s. s\<lparr>usr_root := u\<rparr>))
      (bindM (new_actor Sys_actor) (\<lambda>sa.
       bindM (add_actor_under vt ''sys'' r sa) (\<lambda>y.
       seqM (modM (\<lambda>s. s\<lparr>sys_root := y\<rparr>)) network_init))))))))"

definition make_context ::
    "'u vtable \<Rightarrow> bool \<Rightarrow> ctx_params \<Rightarrow> string \<Rightarrow> 64 word \<Rightarrow> 'u \<Rightarrow> fault + ('u ctx \<times> 64 word)" where
  "make_context vt dc p nm ctx_id u = bindR (context_new dc p nm ctx_id u) (\<lambda>(s, ctx_id').
     case context_start vt s of (Inl e, _) \<Rightarrow> Inl e | (Inr _, s') \<Rightarrow> Inr (s', ctx_id'))"

definition make_context_default ::
    "'u vtable \<Rightarrow> bool \<Rightarrow> string \<Rightarrow> 64 word \<Rightarrow> 'u \<Rightarrow> fault + ('u ctx \<times> 64 word)" where
  "make_context_default vt dc nm ctx_id u = make_context vt dc defparams nm ctx_id u"

text \<open>
  \<^verbatim>\<open>stop\<close>: the thread manager is stopped and released, then every actor is told and the maps are
  cleared. A second call meets the null pointer. The destructor calls it if nobody has.
\<close>

definition drop_usrcont :: "id_t \<Rightarrow> 'u ctx \<Rightarrow> 'u ctx" where
  "drop_usrcont i s = (case actor_at s i of
       None \<Rightarrow> s
     | Some d \<Rightarrow> s\<lparr>actors := AList.update i (d\<lparr>d_usrcont := None\<rparr>) (actors s)\<rparr>)"

fun stop_one :: "'u vtable \<Rightarrow> id_t \<times> description \<Rightarrow> ('u ctx, unit) cpp" where
  "stop_one vt (i, d) = seqM (call_on_stop vt (d_actor d)) (modM (drop_usrcont i))"

definition context_stop :: "'u vtable \<Rightarrow> ('u ctx, unit) cpp" where
  "context_stop vt =
     seqM (modM (\<lambda>s. s\<lparr>stopping_begin := True\<rparr>))
     (bindM (getM cx_tm) (\<lambda>tm. case tm of
        None \<Rightarrow> faultM NullDeref
      | Some m \<Rightarrow>
          seqM (modM (\<lambda>s. s\<lparr>cx_tm := Some (tm_stop m)\<rparr>))
          (seqM (modM (\<lambda>s. s\<lparr>cx_tm := None\<rparr>))
          (with_excl
            (seqM (bindM (getM actors) (\<lambda>as. forM as (stop_one vt)))
            (modM (\<lambda>s. s\<lparr>actors := [], mboxes := [], id_by_name := []\<rparr>)))))))"

definition context_destroy :: "'u vtable \<Rightarrow> ('u ctx, unit) cpp" where
  "context_destroy vt = bindM (getM cx_tm) (\<lambda>tm. whenM (tm \<noteq> None) (context_stop vt))"

section \<open>Stopping an actor\<close>

text \<open>
  The recursion over children need not end on a cyclic child relation; the first argument bounds its
  depth. The wrapper allows one level per registered actor, which the invariant shows to be enough.
  The parent is told the address of the argument, whose path name the callers have dropped.
\<close>

definition notify_parent ::
    "'u vtable \<Rightarrow> description \<Rightarrow> actor_address \<Rightarrow> actor_stopping_reason \<Rightarrow> ('u ctx, unit) cpp" where
  "notify_parent vt desc addr reason = whenM (\<not> id_empty (d_parent desc))
     (bindM (getM (\<lambda>s. actor_at s (d_parent desc))) (\<lambda>parent. case parent of
        None \<Rightarrow> retM ()
      | Some pd \<Rightarrow> call_on_child_stopped vt (d_actor pd) addr reason))"

definition unregister_actor :: "id_t \<Rightarrow> ('u ctx, unit) cpp" where
  "unregister_actor i = modM (\<lambda>s.
     s\<lparr>mboxes := AList.delete i (mboxes s), actors := AList.delete i (actors s)\<rparr>)"

fun stop_actor_impl ::
    "'u vtable \<Rightarrow> nat \<Rightarrow> actor_address \<Rightarrow> actor_stopping_reason \<Rightarrow> ('u ctx, unit) cpp" where
  "stop_actor_impl vt 0 addr reason = faultM Unbounded"
| "stop_actor_impl vt (Suc n) addr reason =
     bindM (getM (\<lambda>s. actor_at s (aa_id addr))) (\<lambda>it. case it of
       None \<Rightarrow> retM ()
     | Some desc \<Rightarrow>
         seqM (forM (d_children desc) (\<lambda>c. stop_actor_impl vt n (address_of_id c) reason))
         (seqM (call_on_stop vt (d_actor desc))
         (seqM (notify_parent vt desc addr reason)
           (unregister_actor (aa_id addr)))))"

definition stop_actor_impl_safety ::
    "'u vtable \<Rightarrow> actor_address \<Rightarrow> actor_stopping_reason \<Rightarrow> ('u ctx, unit) cpp" where
  "stop_actor_impl_safety vt addr reason = with_excl (\<lambda>s.
     stop_actor_impl vt (Suc (length (actors s))) (address_of_id (aa_id addr)) reason s)"

definition stop_actor :: "'u vtable \<Rightarrow> actor_address \<Rightarrow> ('u ctx, unit) cpp" where
  "stop_actor vt addr = stop_actor_impl_safety vt (address_of_id (aa_id addr)) MANUAL"

section \<open>Errors of a handler\<close>

text \<open>
  The escalation loop walks up the parents until one answers otherwise. It looks the parent up without
  a test, so an actor without a registered parent is an end iterator dereferenced. The first argument
  bounds the number of rounds.
\<close>

fun escalate_loop ::
    "'u vtable \<Rightarrow> nat \<Rightarrow> actor_action_when_error \<Rightarrow> description \<Rightarrow>
     ('u ctx, actor_action_when_error) cpp" where
  "escalate_loop vt 0 action descr = faultM Unbounded"
| "escalate_loop vt (Suc n) action descr =
     (if action \<noteq> ESCALATE then retM action
      else bindM (getM (\<lambda>s. actor_at s (d_parent descr))) (\<lambda>parent_it. case parent_it of
        None \<Rightarrow> faultM EndDeref
      | Some pd \<Rightarrow> bindM (call_on_child_error vt (d_actor pd) (d_address descr)) (\<lambda>action'.
          escalate_loop vt n action' pd)))"

definition escalate :: "'u vtable \<Rightarrow> description \<Rightarrow> ('u ctx, actor_action_when_error) cpp" where
  "escalate vt target = with_shared (\<lambda>s.
     escalate_loop vt (Suc (Suc (length (actors s)))) ESCALATE target s)"

fun on_actor_error ::
    "'u vtable \<Rightarrow> actor_action_when_error \<Rightarrow> description \<Rightarrow> actor_ptr \<Rightarrow> ('u ctx, unit) cpp" where
  "on_actor_error vt REINIT target parent =
     seqM (stop_actor_impl_safety vt (d_address target) EXCEPT) (call_on_start vt (d_actor target))"
| "on_actor_error vt STOP target parent = stop_actor_impl_safety vt (d_address target) EXCEPT"
| "on_actor_error vt ESCALATE target parent = retM ()"
| "on_actor_error vt RESUME target parent =
     call_on_child_status vt parent (d_address target) WITH_ERROR"

definition handle_failure ::
    "'u vtable \<Rightarrow> description \<Rightarrow> actor_ptr option \<Rightarrow> ('u ctx, unit) cpp" where
  "handle_failure vt target parent = (case parent of
       Some p \<Rightarrow>
         bindM (call_on_child_error vt p (d_address target)) (\<lambda>action.
         bindM (if action = ESCALATE then escalate vt target else retM action) (\<lambda>action'.
           on_actor_error vt action' target p))
     | None \<Rightarrow> stop_actor_impl_safety vt (d_address target) EXCEPT)"

definition apply_actor_to_mailbox ::
    "'u vtable \<Rightarrow> nat \<Rightarrow> description \<Rightarrow> actor_ptr option \<Rightarrow> mbox_ptr \<Rightarrow> ('u ctx, unit) cpp" where
  "apply_actor_to_mailbox vt fuel target parent m =
     tryM
       (bindM (getM double_checks) (\<lambda>dc.
        seqM (actor_apply fuel dc (call_action_handle vt (d_actor target)) (d_actor target) m)
          (case parent of
             None \<Rightarrow> retM ()
           | Some p \<Rightarrow> call_on_child_status vt p (d_address target) NORMAL)))
       (\<lambda>ex. handle_failure vt target parent)"

end
