(* ===== verification/Yaaf_Tree.thy ===== *)
theory Yaaf_Tree
  imports Yaaf_Context
begin

text \<open>
  The tree the registry holds: \<open>reg_tree\<close> says how the parent and children members of the descriptions
  agree, \<open>subtree\<close> is an actor with all its registered descendants, and the lemmas show that stopping an actor
  removes exactly its subtree. Actor identifiers grow from parent to child, which bounds every walk along
  the tree. The locale \<open>quiet_callbacks\<close> is the contract between the context and the callbacks it invokes while
  it holds its mutex.
\<close>

section \<open>Trees of descriptions\<close>

definition reg_tree :: "(id_t \<rightharpoonup> description) \<Rightarrow> bool" where
  "reg_tree A \<longleftrightarrow> A id_default = None \<and>
     (\<forall>i d. A i = Some d \<longrightarrow>
        (d_parent d \<noteq> id_default \<longrightarrow>
           (\<exists>pd. A (d_parent d) = Some pd \<and> i \<in> set (d_children pd))) \<and>
        (\<forall>c \<in> set (d_children d). i < c \<and> (\<forall>cd. A c = Some cd \<longrightarrow> d_parent cd = i)))"

inductive below :: "(id_t \<rightharpoonup> description) \<Rightarrow> id_t \<Rightarrow> id_t \<Rightarrow> bool" for A i where
  below_self: "A i = Some d \<Longrightarrow> below A i i"
| below_child: "below A i j \<Longrightarrow> A k = Some d \<Longrightarrow> d_parent d = j \<Longrightarrow> below A i k"

definition subtree :: "(id_t \<rightharpoonup> description) \<Rightarrow> id_t \<Rightarrow> id_t set" where
  "subtree A i = {j. below A i j}"

lemma reg_tree_parent:
  "reg_tree A \<Longrightarrow> A i = Some d \<Longrightarrow> d_parent d \<noteq> id_default \<Longrightarrow>
   \<exists>pd. A (d_parent d) = Some pd \<and> i \<in> set (d_children pd) \<and> d_parent d < i"
  unfolding reg_tree_def by metis

lemma reg_tree_child:
  "reg_tree A \<Longrightarrow> A i = Some d \<Longrightarrow> c \<in> set (d_children d) \<Longrightarrow> i < c"
  unfolding reg_tree_def by blast

lemma reg_tree_child_parent:
  "reg_tree A \<Longrightarrow> A i = Some d \<Longrightarrow> c \<in> set (d_children d) \<Longrightarrow> A c = Some cd \<Longrightarrow> d_parent cd = i"
  unfolding reg_tree_def by blast

lemma reg_tree_live: "reg_tree A \<Longrightarrow> A i = Some d \<Longrightarrow> i \<noteq> id_default"
  unfolding reg_tree_def by auto

lemma below_dom: "below A i j \<Longrightarrow> (\<exists>d. A i = Some d) \<and> (\<exists>d. A j = Some d)"
  by (induction rule: below.induct) auto

lemma below_trans: "below A j k \<Longrightarrow> below A i j \<Longrightarrow> below A i k"
  by (induction rule: below.induct) (auto intro: below.intros)

lemma below_le:
  assumes "reg_tree A" and "below A i j"
  shows "i \<le> j"
  using assms(2)
proof (induction rule: below.induct)
  case (below_child j k d)
  then have "d_parent d \<noteq> id_default" using below_dom reg_tree_live [OF assms(1)] by blast
  then have "d_parent d < k" using reg_tree_parent [OF assms(1)] below_child by blast
  with below_child show ?case by simp
qed simp

lemma subtree_empty: "A i = None \<Longrightarrow> subtree A i = {}"
  using below_dom by (fastforce simp: subtree_def)

lemma subtree_unfold:
  assumes tree: "reg_tree A" and i: "A i = Some d"
  shows "subtree A i = insert i (\<Union>c \<in> set (d_children d). subtree A c)"
proof
  show "insert i (\<Union>c \<in> set (d_children d). subtree A c) \<subseteq> subtree A i"
  proof -
    have "below A i j" if "c \<in> set (d_children d)" "below A c j" for c j
    proof -
      from that(2) obtain cd where "A c = Some cd" using below_dom by blast
      then have "below A i c"
        using below.below_child [OF below.below_self [of A i d]] i that(1)
          reg_tree_child_parent [OF tree i that(1)] by blast
      with that(2) show ?thesis by (rule below_trans)
    qed
    with i show ?thesis by (auto simp: subtree_def intro: below.intros)
  qed
  have "j = i \<or> (\<exists>c \<in> set (d_children d). below A c j)" if "below A i j" for j
    using that
  proof (induction rule: below.induct)
    case (below_child j k kd)
    show ?case
    proof (cases "j = i")
      case True
      then have "k \<in> set (d_children d)"
        using reg_tree_parent [OF tree below_child.hyps(2)] below_child.hyps(3) i
          reg_tree_live [OF tree i] by auto
      with below_child.hyps(2) show ?thesis by (auto intro: below.below_self)
    next
      case False
      with below_child show ?thesis by (auto intro: below.below_child)
    qed
  qed simp
  then show "subtree A i \<subseteq> insert i (\<Union>c \<in> set (d_children d). subtree A c)"
    by (auto simp: subtree_def)
qed

text \<open>Removing a whole subtree leaves a tree, in which the other subtrees lost what they shared.\<close>

lemma reg_tree_restrict:
  assumes tree: "reg_tree A"
  shows "reg_tree (A |` (- subtree A c))"
proof -
  have up: "d_parent d \<notin> subtree A c" if "A i = Some d" "i \<notin> subtree A c" for i d
    using that below.below_child [of A c "d_parent d" i d] by (auto simp: subtree_def)
  show ?thesis
    using tree up unfolding reg_tree_def by (fastforce simp: restrict_map_def split: if_splits)
qed

lemma below_restrict:
  "below (A |` (- subtree A c)) i j \<longleftrightarrow> below A i j \<and> j \<notin> subtree A c"
proof
  let ?B = "A |` (- subtree A c)"
  show "below A i j \<and> j \<notin> subtree A c" if "below ?B i j"
    using that
    by (induction rule: below.induct)
      (auto simp: restrict_map_def split: if_splits intro: below.intros)
  show "below ?B i j" if "below A i j \<and> j \<notin> subtree A c"
  proof -
    from that have "below A i j" "j \<notin> subtree A c" by auto
    then show ?thesis
    proof (induction rule: below.induct)
      case (below_self d)
      then show ?case by (auto simp: restrict_map_def intro: below.intros)
    next
      case (below_child j k d)
      then have "j \<notin> subtree A c" by (auto simp: subtree_def intro: below.intros)
      with below_child show ?case
        by (auto simp: restrict_map_def intro: below.below_child)
    qed
  qed
qed

lemma subtree_restrict: "subtree (A |` (- subtree A c)) i = subtree A i - subtree A c"
  by (auto simp: subtree_def below_restrict [unfolded subtree_def])

lemma root_not_in_child_subtree:
  "reg_tree A \<Longrightarrow> i < c \<Longrightarrow> i \<notin> subtree A c"
  using below_le by (fastforce simp: subtree_def)

section \<open>The effect of stopping\<close>

text \<open>
  \<open>stops S s s'\<close>: from \<open>s\<close> to \<open>s'\<close> exactly the actors in \<open>S\<close> and their mailboxes have left the
  registry; besides that only actor objects and the user's state may differ.
\<close>

definition stops :: "id_t set \<Rightarrow> 'u ctx \<Rightarrow> 'u ctx \<Rightarrow> bool" where
  "stops S s s' \<longleftrightarrow> (\<exists>as ms f u. s' = s\<lparr>actors := as, mboxes := ms, objs := f, usr := u\<rparr> \<and>
     map_of as = actor_at s |` (- S) \<and> map_of ms = mbox_at s |` (- S) \<and>
     (wf_map (actors s) \<longrightarrow> wf_map as) \<and> (wf_map (mboxes s) \<longrightarrow> wf_map ms))"

lemma stopsI:
  "s' = s\<lparr>actors := as, mboxes := ms, objs := f, usr := u\<rparr> \<Longrightarrow>
   map_of as = actor_at s |` (- S) \<Longrightarrow> map_of ms = mbox_at s |` (- S) \<Longrightarrow>
   (wf_map (actors s) \<Longrightarrow> wf_map as) \<Longrightarrow> (wf_map (mboxes s) \<Longrightarrow> wf_map ms) \<Longrightarrow> stops S s s'"
  unfolding stops_def by blast

lemma stops_quiet: "quiet_change s s' \<Longrightarrow> stops {} s s'"
proof -
  assume "quiet_change s s'"
  then obtain f u where "s' = s\<lparr>actors := actors s, mboxes := mboxes s, objs := f, usr := u\<rparr>"
    by (auto simp: quiet_change_def)
  then show ?thesis by (rule stopsI) simp_all
qed

lemma stops_trans: "stops S s t \<Longrightarrow> stops T t u \<Longrightarrow> stops (S \<union> T) s u"
  unfolding stops_def by (elim exE conjE) (auto intro!: exI simp: Int_commute)

lemma stops_sel:
  assumes "stops S s s'"
  shows "actor_at s' = actor_at s |` (- S)" "mbox_at s' = mbox_at s |` (- S)"
    "id_by_name s' = id_by_name s" "exchanges s' = exchanges s" "mbs s' = mbs s"
    "next_actor_id s' = next_actor_id s" "next_mb s' = next_mb s" "next_result s' = next_result s"
    "cx_lock s' = cx_lock s" "cx_xlock s' = cx_xlock s" "cx_tm s' = cx_tm s"
    "usr_root s' = usr_root s" "root_addr s' = root_addr s" "sys_root s' = sys_root s"
    "stopping_begin s' = stopping_begin s"
    "wf_map (actors s) \<Longrightarrow> wf_map (actors s')" "wf_map (mboxes s) \<Longrightarrow> wf_map (mboxes s')"
  using assms by (auto simp: stops_def)

lemma stops_unregister:
  "stops {i} s (s\<lparr>mboxes := AList.delete i (mboxes s), actors := AList.delete i (actors s)\<rparr>)"
  by (rule stopsI [where as = "AList.delete i (actors s)" and ms = "AList.delete i (mboxes s)"
        and f = "objs s" and u = "usr s"]) (simp_all add: restrict_complement_singleton_eq)

lemma stops_lock:
  assumes "stops S (s\<lparr>cx_lock := l\<rparr>) t" and "cx_lock s = k"
  shows "stops S s (t\<lparr>cx_lock := k\<rparr>)"
proof -
  from assms(1) obtain as ms f u where
    t: "t = s\<lparr>cx_lock := l, actors := as, mboxes := ms, objs := f, usr := u\<rparr>"
    and m: "map_of as = actor_at s |` (- S)" "map_of ms = mbox_at s |` (- S)"
      "wf_map (actors s) \<longrightarrow> wf_map as" "wf_map (mboxes s) \<longrightarrow> wf_map ms"
    by (auto simp: stops_def)
  have "t\<lparr>cx_lock := k\<rparr> = s\<lparr>actors := as, mboxes := ms, objs := f, usr := u\<rparr>"
    using t assms(2) cx_lock_idem [of "s\<lparr>actors := as, mboxes := ms, objs := f, usr := u\<rparr>" k] by simp
  then show ?thesis by (rule stopsI) (use m in simp_all)
qed

text \<open>How many registered actors an actor's walk can still meet.\<close>

definition room :: "(id_t \<rightharpoonup> description) \<Rightarrow> id_t \<Rightarrow> nat" where
  "room A i = card {j \<in> dom A. i \<le> j}"

lemma room_less:
  assumes "finite (dom A)" and "A i = Some d" and "i < c"
  shows "room A c < room A i"
  unfolding room_def
proof (rule psubset_card_mono)
  show "finite {j \<in> dom A. i \<le> j}" using assms(1) by simp
  show "{j \<in> dom A. c \<le> j} \<subset> {j \<in> dom A. i \<le> j}" using assms(2,3) by force
qed

lemma room_restrict: "finite (dom A) \<Longrightarrow> room (A |` S) i \<le> room A i"
  unfolding room_def by (rule card_mono) (auto simp: restrict_map_def split: if_splits)

lemma room_length: "room (map_of m) i \<le> length m"
proof -
  have "room (map_of m) i \<le> card (dom (map_of m))"
    unfolding room_def by (rule card_mono) (auto simp: finite_dom_map_of)
  also have "\<dots> = card (set (map fst m))" by (simp add: dom_map_of_conv_image_fst)
  also have "\<dots> \<le> length m" using card_length [of "map fst m"] by simp
  finally show ?thesis .
qed

locale quiet_callbacks =
  fixes vt :: "'u vtable"
  assumes quiet: "quiet_vtable vt"
begin

lemma on_stop_stops: "\<exists>s'. call_on_stop vt p s = (Inr (), s') \<and> stops {} s s'"
  using quiet_calls(2) [OF quiet] stops_quiet by (fastforce simp: quiet_op_def)

lemma notify_stops: "\<exists>s'. notify_parent vt desc addr reason s = (Inr (), s') \<and> stops {} s s'"
proof -
  have "\<exists>s'. call_on_child_stopped vt p addr reason s = (Inr (), s') \<and> stops {} s s'" for p
    using quiet_calls(3) [OF quiet] stops_quiet by (fastforce simp: quiet_op_def)
  moreover have "stops {} s s" by (simp add: stops_quiet)
  ultimately show ?thesis
    by (auto simp: notify_parent_def whenM_def split: option.splits)
qed

lemma forM_children_stops:
  assumes step: "\<And>s c. reg_tree (actor_at s) \<Longrightarrow> room (actor_at s) c < n \<Longrightarrow>
      \<exists>s'. stop_actor_impl vt n (address_of_id c) reason s = (Inr (), s') \<and>
        stops (subtree (actor_at s) c) s s'"
  shows "reg_tree (actor_at s) \<Longrightarrow> actor_at s i = Some d \<Longrightarrow> room (actor_at s) i \<le> n \<Longrightarrow>
    (\<And>c. c \<in> set cs \<Longrightarrow> i < c) \<Longrightarrow>
    \<exists>s'. forM cs (\<lambda>c. stop_actor_impl vt n (address_of_id c) reason) s = (Inr (), s') \<and>
      stops (\<Union>c \<in> set cs. subtree (actor_at s) c) s s'"
proof (induction cs arbitrary: s)
  case Nil
  then show ?case by (auto simp: stops_quiet)
next
  case (Cons c cs)
  let ?A = "actor_at s"
  have fin: "finite (dom ?A)" by (rule finite_dom_map_of)
  have ic: "i < c" using Cons.prems(4) by simp
  have "room ?A c < n" using room_less [OF fin Cons.prems(2) ic] Cons.prems(3) by simp
  from step [OF Cons.prems(1) this] obtain s1 where
    s1: "stop_actor_impl vt n (address_of_id c) reason s = (Inr (), s1)"
    and st1: "stops (subtree ?A c) s s1" by blast
  have A1: "actor_at s1 = ?A |` (- subtree ?A c)" using st1 by (rule stops_sel)
  have "actor_at s1 i = Some d"
    using A1 Cons.prems(2) root_not_in_child_subtree [OF Cons.prems(1) ic] by simp
  moreover have "room (actor_at s1) i \<le> n"
    using room_restrict [OF fin, of "- subtree ?A c" i] A1 Cons.prems(3) by simp
  moreover have "reg_tree (actor_at s1)" using reg_tree_restrict [OF Cons.prems(1)] A1 by simp
  ultimately obtain s2 where
    s2: "forM cs (\<lambda>c. stop_actor_impl vt n (address_of_id c) reason) s1 = (Inr (), s2)"
    and st2: "stops (\<Union>c \<in> set cs. subtree (actor_at s1) c) s1 s2"
    using Cons.IH [of s1] Cons.prems(4) by auto
  have "subtree ?A c \<union> (\<Union>c' \<in> set cs. subtree (actor_at s1) c') =
      (\<Union>c' \<in> set (c # cs). subtree ?A c')"
    by (auto simp: A1 subtree_restrict)
  with stops_trans [OF st1 st2] s1 s2 show ?case by auto
qed

lemma stop_actor_impl_stops:
  "reg_tree (actor_at s) \<Longrightarrow> room (actor_at s) (aa_id addr) < n \<Longrightarrow>
   \<exists>s'. stop_actor_impl vt n addr reason s = (Inr (), s') \<and>
     stops (subtree (actor_at s) (aa_id addr)) s s'"
proof (induction n arbitrary: s addr)
  case (Suc n)
  let ?i = "aa_id addr"
  show ?case
  proof (cases "actor_at s ?i")
    case None
    then show ?thesis by (simp add: subtree_empty stops_quiet)
  next
    case (Some d)
    have step: "\<exists>s'. stop_actor_impl vt n (address_of_id c) reason s = (Inr (), s') \<and>
        stops (subtree (actor_at s) c) s s'" if "reg_tree (actor_at s)" "room (actor_at s) c < n" for s c
      using Suc.IH [of s "address_of_id c"] that by simp
    have "\<exists>s1. forM (d_children d) (\<lambda>c. stop_actor_impl vt n (address_of_id c) reason) s =
        (Inr (), s1) \<and> stops (\<Union>c \<in> set (d_children d). subtree (actor_at s) c) s s1"
      using Suc.prems Some reg_tree_child [OF Suc.prems(1) Some]
      by (intro forM_children_stops [OF step, where i = ?i and d = d]) auto
    then obtain s1 where
      s1: "forM (d_children d) (\<lambda>c. stop_actor_impl vt n (address_of_id c) reason) s = (Inr (), s1)"
      and st1: "stops (\<Union>c \<in> set (d_children d). subtree (actor_at s) c) s s1" by blast
    obtain s2 where s2: "call_on_stop vt (d_actor d) s1 = (Inr (), s2)" and st2: "stops {} s1 s2"
      using on_stop_stops by blast
    obtain s3 where s3: "notify_parent vt d addr reason s2 = (Inr (), s3)" and st3: "stops {} s2 s3"
      using notify_stops by blast
    note st = stops_trans [OF stops_trans [OF stops_trans [OF st1 st2] st3] stops_unregister [of ?i s3]]
    have "stop_actor_impl vt (Suc n) addr reason s = (Inr (),
        s3\<lparr>mboxes := AList.delete ?i (mboxes s3), actors := AList.delete ?i (actors s3)\<rparr>)"
      using Some s1 s2 s3 by (simp add: unregister_actor_def)
    with st show ?thesis
      using subtree_unfold [OF Suc.prems(1) Some] by (auto simp: Un_commute)
  qed
qed simp

lemma stop_actor_impl_safety_stops:
  assumes "reg_tree (actor_at s)" and "cx_lock s = Unlocked"
  shows "\<exists>s'. stop_actor_impl_safety vt addr reason s = (Inr (), s') \<and>
    stops (subtree (actor_at s) (aa_id addr)) s s'"
proof -
  let ?s0 = "s\<lparr>cx_lock := Exclusive\<rparr>"
  have "room (actor_at ?s0) (aa_id (address_of_id (aa_id addr))) < Suc (length (actors ?s0))"
    using room_length [of "actors s" "aa_id addr"] by simp
  from stop_actor_impl_stops [OF _ this] assms(1) obtain s1 where
    s1: "stop_actor_impl vt (Suc (length (actors ?s0))) (address_of_id (aa_id addr)) reason ?s0 =
      (Inr (), s1)" and st: "stops (subtree (actor_at s) (aa_id addr)) ?s0 s1"
    by auto
  have "stops (subtree (actor_at s) (aa_id addr)) s (s1\<lparr>cx_lock := Unlocked\<rparr>)"
    using st assms(2) by (rule stops_lock)
  then show ?thesis
    using s1 assms(2)
    by (simp add: stop_actor_impl_safety_def with_excl_def del: stop_actor_impl.simps)
qed

end

interpretation base_quiet: quiet_callbacks base_vtable
  by unfold_locales (rule base_vtable_quiet)

end
