(* ===== verification/Yaaf_Context_Inv.thy ===== *)
theory Yaaf_Context_Inv
  imports Yaaf_Tree
begin

text \<open>
  The invariant of a context between operations, and that the operations keep it. It says that the four
  maps have unique keys, that the descriptions form a tree whose identifiers come from the counter, that
  exactly the registered actors have a mailbox, that mailboxes are not shared, that a name which resolves
  resolves to an actor of that name, and that every queued envelope can be copied.
\<close>

section \<open>The invariant\<close>

definition inv_maps :: "'u ctx \<Rightarrow> bool" where
  "inv_maps s \<longleftrightarrow> wf_map (actors s) \<and> wf_map (mboxes s) \<and> wf_map (id_by_name s) \<and>
     wf_map (exchanges s)"

definition inv_ids :: "'u ctx \<Rightarrow> bool" where
  "inv_ids s \<longleftrightarrow> (\<forall>i d. actor_at s i = Some d \<longrightarrow>
     aa_id (d_address d) = i \<and> aa_pathname (d_address d) = d_name d \<and>
     i \<noteq> Id_t 0 \<and> i < Id_t (next_actor_id s) \<and>
     (\<forall>c \<in> set (d_children d). c < Id_t (next_actor_id s)))"

definition inv_boxes :: "'u ctx \<Rightarrow> bool" where
  "inv_boxes s \<longleftrightarrow> keys_of (mboxes s) = keys_of (actors s) \<and>
     (\<forall>i m. mbox_at s i = Some m \<longrightarrow> m < next_mb s) \<and>
     (\<forall>i j m. mbox_at s i = Some m \<and> mbox_at s j = Some m \<longrightarrow> i = j) \<and>
     (\<forall>n x. map_of (exchanges s) n = Some x \<longrightarrow> ex_pub x < next_mb s \<and>
        (\<forall>i. mbox_at s i \<noteq> Some (ex_pub x))) \<and>
     (\<forall>n n' x x'. map_of (exchanges s) n = Some x \<and> map_of (exchanges s) n' = Some x' \<and>
        ex_pub x = ex_pub x' \<longrightarrow> n = n')"

definition inv_names :: "'u ctx \<Rightarrow> bool" where
  "inv_names s \<longleftrightarrow> (\<forall>n i d. map_of (id_by_name s) n = Some i \<and> actor_at s i = Some d \<longrightarrow> d_name d = n) \<and>
     (\<forall>n i. map_of (id_by_name s) n = Some i \<longrightarrow> i < Id_t (next_actor_id s))"

definition inv_queues :: "'u ctx \<Rightarrow> bool" where
  "inv_queues s \<longleftrightarrow> (\<forall>m. list_all sendable (queue_at s m))"

definition ctx_inv :: "'u ctx \<Rightarrow> bool" where
  "ctx_inv s \<longleftrightarrow> inv_maps s \<and> reg_tree (actor_at s) \<and> inv_ids s \<and> inv_boxes s \<and> inv_names s \<and>
     inv_queues s"

lemmas inv_defs = inv_maps_def inv_ids_def inv_boxes_def inv_names_def inv_queues_def

lemma ctx_invD:
  assumes "ctx_inv s"
  shows "inv_maps s" "reg_tree (actor_at s)" "inv_ids s" "inv_boxes s" "inv_names s" "inv_queues s"
  using assms by (simp_all add: ctx_inv_def)

lemma ctx_inv_live_mbox: "ctx_inv s \<Longrightarrow> actor_at s i = Some d \<Longrightarrow> \<exists>m. mbox_at s i = Some m"
  unfolding ctx_inv_def inv_boxes_def by blast

text \<open>The invariant looks at the registry, the exchanges and the mailboxes only.\<close>

lemma ctx_inv_frame:
  assumes "ctx_inv s" and "actors s' = actors s" "mboxes s' = mboxes s" "id_by_name s' = id_by_name s"
    "exchanges s' = exchanges s" "mbs s' = mbs s" "next_actor_id s' = next_actor_id s"
    "next_mb s' = next_mb s"
  shows "ctx_inv s'"
  using assms(1) unfolding ctx_inv_def inv_defs assms(2-) .

lemma ctx_inv_updates [simp]:
  "ctx_inv (s\<lparr>cx_lock := l\<rparr>) = ctx_inv s" "ctx_inv (s\<lparr>cx_xlock := l\<rparr>) = ctx_inv s"
  "ctx_inv (s\<lparr>objs := f\<rparr>) = ctx_inv s" "ctx_inv (s\<lparr>usr := u\<rparr>) = ctx_inv s"
  "ctx_inv (s\<lparr>cx_tm := t\<rparr>) = ctx_inv s" "ctx_inv (s\<lparr>next_result := n\<rparr>) = ctx_inv s"
  "ctx_inv (s\<lparr>next_obj := n\<rparr>) = ctx_inv s" "ctx_inv (s\<lparr>usr_root := a\<rparr>) = ctx_inv s"
  "ctx_inv (s\<lparr>root_addr := a\<rparr>) = ctx_inv s" "ctx_inv (s\<lparr>sys_root := a\<rparr>) = ctx_inv s"
  "ctx_inv (s\<lparr>stopping_begin := b\<rparr>) = ctx_inv s"
  by (simp_all add: ctx_inv_def inv_defs)

lemma ctx_inv_quiet: "ctx_inv s \<Longrightarrow> quiet_change s s' \<Longrightarrow> ctx_inv s'"
  by (erule ctx_inv_frame) (simp_all add: quiet_change_sel)

lemma preserves_ctx_inv_locked [triple_intro]:
  assumes "preserves ctx_inv m"
  shows "preserves ctx_inv (with_excl m)" and "preserves ctx_inv (with_shared m)"
    and "preserves ctx_inv (with_xexcl m)" and "preserves ctx_inv (with_xshared m)"
  by (intro preserves_locked [OF assms]; simp)+

section \<open>Stopping keeps the invariant\<close>

lemma ctx_inv_stops:
  assumes inv: "ctx_inv s" and st: "stops (subtree (actor_at s) i) s s'"
  shows "ctx_inv s'"
proof -
  note sel = stops_sel [OF st]
  have "reg_tree (actor_at s')" using reg_tree_restrict [OF ctx_invD(2) [OF inv]] sel(1) by simp
  moreover have "inv_maps s'" using ctx_invD(1) [OF inv] sel by (simp add: inv_maps_def)
  moreover have "inv_ids s'"
    using ctx_invD(3) [OF inv] sel(1,6) unfolding inv_ids_def by auto
  moreover have "inv_boxes s'"
    using ctx_invD(4) [OF inv] sel(1,2,4,7) unfolding inv_boxes_def
    by (simp add: dom_restrict) metis
  moreover have "inv_names s'"
    using ctx_invD(5) [OF inv] sel(1,3,6) unfolding inv_names_def by auto
  moreover have "inv_queues s'" using ctx_invD(6) [OF inv] sel by (simp add: inv_queues_def)
  ultimately show ?thesis by (simp add: ctx_inv_def)
qed

section \<open>Sending keeps the invariant\<close>

lemma ctx_inv_mbs: "ctx_inv s \<Longrightarrow> (\<And>m. list_all sendable (dqueue (f m))) \<Longrightarrow> ctx_inv (s\<lparr>mbs := f\<rparr>)"
  by (auto simp: ctx_inv_def inv_defs)

lemma ctx_inv_push: "ctx_inv s \<Longrightarrow> sendable e \<Longrightarrow>
   ctx_inv (s\<lparr>mbs := (mbs s)(m := (mbs s m)\<lparr>dqueue := queue_at s m @ [e]\<rparr>)\<rparr>)"
  by (auto simp: ctx_inv_def inv_defs)

lemma preserves_mb_push [triple_intro]: "preserves ctx_inv (mb_push m e)"
  by (auto intro!: preservesI simp: ctx_inv_push)

lemma preserves_send [triple_intro]:
  "preserves ctx_inv (send_envelope target e)" "preserves ctx_inv (send_envelope_rv target e)"
  unfolding send_envelope_def send_envelope_rv_def mb_push_rv_eq ensure_not_null_def
  by (intro triple_intro; assumption)+

lemma preserves_lookup [triple_intro]:
  "preserves ctx_inv (get_actor a)" "preserves ctx_inv (get_actor_by_name n)"
  "preserves ctx_inv (get_address n)"
  unfolding get_actor_def get_actor_by_name_def get_address_def
  by (intro triple_intro; assumption)+

section \<open>Adding an actor keeps the invariant\<close>

lemma id_less_next:
  assumes "w \<noteq> - 1"
  shows "i < Id_t (w + 1) \<longleftrightarrow> i < Id_t w \<or> i = Id_t w"
proof -
  have "unat (w + 1) = unat w + 1" using assms
    by (metis Suc_eq_plus1 unatSuc add.commute add_eq_0_iff)
  then show ?thesis
    by (cases i) (auto simp: less_id_t_def id_less_def word_less_nat_alt less_Suc_eq word_unat_eq_iff)
qed

text \<open>The state change of the critical section that registers a new actor.\<close>

definition registered :: "id_t \<Rightarrow> description \<Rightarrow> bool \<Rightarrow> 'u ctx \<Rightarrow> 'u ctx" where
  "registered i d has_parent s =
     (let s1 = (if has_parent then add_child (d_parent d) i s else s)
      in s1\<lparr>actors := AList.update i d (actors s1),
            id_by_name := AList.update (d_name d) i (id_by_name s1),
            mbs := (mbs s1)(next_mb s1 := mailbox_new), next_mb := Suc (next_mb s1),
            mboxes := AList.update i (next_mb s1) (mboxes s1)\<rparr>)"

lemma add_child_sel [simp]:
  "mboxes (add_child p c s) = mboxes s" "id_by_name (add_child p c s) = id_by_name s"
  "exchanges (add_child p c s) = exchanges s" "mbs (add_child p c s) = mbs s"
  "next_actor_id (add_child p c s) = next_actor_id s" "next_mb (add_child p c s) = next_mb s"
  "usr_root (add_child p c s) = usr_root s" "cx_tm (add_child p c s) = cx_tm s"
  "cx_lock (add_child p c s) = cx_lock s" "cx_xlock (add_child p c s) = cx_xlock s"
  "objs (add_child p c s) = objs s" "usr (add_child p c s) = usr s"
  "next_result (add_child p c s) = next_result s"
  "next_obj (add_child p c s) = next_obj s"
  "root_addr (add_child p c s) = root_addr s"
  "sys_root (add_child p c s) = sys_root s"
  "stopping_begin (add_child p c s) = stopping_begin s"
  "double_checks (add_child p c s) = double_checks s"
  "cx_name (add_child p c s) = cx_name s"
  "add_child p c (s\<lparr>cx_lock := l\<rparr>) = (add_child p c s)\<lparr>cx_lock := l\<rparr>"
  by (simp_all add: add_child_def split: option.splits)

lemma actor_at_add_child:
  "actor_at (add_child p c s) = (case actor_at s p of
     None \<Rightarrow> actor_at s
   | Some pd \<Rightarrow> (actor_at s)(p \<mapsto> pd\<lparr>d_children := List.insert c (d_children pd)\<rparr>))"
  by (simp add: add_child_def split: option.splits)

lemma wf_add_child: "wf_map (actors s) \<Longrightarrow> wf_map (actors (add_child p c s))"
  by (simp add: add_child_def split: option.splits)

lemma registered_sel [simp]:
  "next_actor_id (registered i d hp s) = next_actor_id s"
  "exchanges (registered i d hp s) = exchanges s"
  "next_mb (registered i d hp s) = Suc (next_mb s)"
  "mbs (registered i d hp s) = (mbs s)(next_mb s := mailbox_new)"
  "mboxes (registered i d hp s) = AList.update i (next_mb s) (mboxes s)"
  "id_by_name (registered i d hp s) = AList.update (d_name d) i (id_by_name s)"
  "usr_root (registered i d hp s) = usr_root s" "cx_tm (registered i d hp s) = cx_tm s"
  "cx_lock (registered i d hp s) = cx_lock s" "cx_xlock (registered i d hp s) = cx_xlock s"
  "objs (registered i d hp s) = objs s" "usr (registered i d hp s) = usr s"
  "next_result (registered i d hp s) = next_result s"
  "next_obj (registered i d hp s) = next_obj s"
  "root_addr (registered i d hp s) = root_addr s"
  "sys_root (registered i d hp s) = sys_root s"
  "stopping_begin (registered i d hp s) = stopping_begin s"
  "double_checks (registered i d hp s) = double_checks s"
  "cx_name (registered i d hp s) = cx_name s"
  by (simp_all add: registered_def Let_def)

lemma actors_registered:
  "actors (registered i d hp s) =
     AList.update i d (actors (if hp then add_child (d_parent d) i s else s))"
  by (simp add: registered_def Let_def)

lemma actor_at_registered:
  "actor_at (registered i d hp s) =
     (actor_at (if hp then add_child (d_parent d) i s else s))(i \<mapsto> d)"
  by (simp add: registered_def Let_def)

lemma register_actor_run:
  "cx_lock s = Unlocked \<Longrightarrow> register_actor i d hp s = (Inr (), registered i d hp s)"
  using cx_lock_idem [of "registered i d hp s" Unlocked]
  by (simp add: register_actor_def with_excl_def registered_def new_mailbox_def Let_def whenM_def
      bindM_def seqM_def add_child_def split: option.splits)

text \<open>What makes a description fit to be registered under a fresh identifier.\<close>

definition fresh_actor :: "id_t \<Rightarrow> description \<Rightarrow> bool \<Rightarrow> 'u ctx \<Rightarrow> bool" where
  "fresh_actor i d hp s \<longleftrightarrow> i \<noteq> Id_t 0 \<and> i \<noteq> id_default \<and> i < Id_t (next_actor_id s) \<and>
     (\<forall>j e. actor_at s j = Some e \<longrightarrow> j < i \<and> (\<forall>c \<in> set (d_children e). c < i)) \<and>
     (\<forall>n j. map_of (id_by_name s) n = Some j \<longrightarrow> j < i) \<and>
     d_children d = [] \<and> d_address d = address_of i (d_name d) \<and>
     (if hp then \<exists>pd. actor_at s (d_parent d) = Some pd else d_parent d = id_default)"

lemma fresh_actor_None: "fresh_actor i d hp s \<Longrightarrow> actor_at s i = None"
  by (cases "actor_at s i") (auto simp: fresh_actor_def)

text \<open>Hanging a new leaf beside the roots or under a registered parent leaves a tree.\<close>

lemma reg_treeI:
  assumes "A id_default = None"
    and "\<And>i d. A i = Some d \<Longrightarrow> d_parent d \<noteq> id_default \<Longrightarrow>
      \<exists>pd. A (d_parent d) = Some pd \<and> i \<in> set (d_children pd)"
    and "\<And>i d c. A i = Some d \<Longrightarrow> c \<in> set (d_children d) \<Longrightarrow> i < c"
    and "\<And>i d c cd. A i = Some d \<Longrightarrow> c \<in> set (d_children d) \<Longrightarrow> A c = Some cd \<Longrightarrow> d_parent cd = i"
  shows "reg_tree A"
  using assms unfolding reg_tree_def by blast

lemma reg_tree_new_root:
  assumes tree: "reg_tree A" and new: "A i = None" "i \<noteq> id_default" "d_children d = []"
    "d_parent d = id_default" and nc: "\<And>j e. A j = Some e \<Longrightarrow> i \<notin> set (d_children e)"
  shows "reg_tree (A(i \<mapsto> d))"
proof (rule reg_treeI)
  show "(A(i \<mapsto> d)) id_default = None" using tree new(2) by (simp add: reg_tree_def)
  show "\<exists>pd. (A(i \<mapsto> d)) (d_parent e) = Some pd \<and> j \<in> set (d_children pd)"
    if "(A(i \<mapsto> d)) j = Some e" "d_parent e \<noteq> id_default" for j e
    using reg_tree_parent [OF tree, of j e] that new by (auto split: if_splits)
  show "j < c" if "(A(i \<mapsto> d)) j = Some e" "c \<in> set (d_children e)" for j e c
    using reg_tree_child [OF tree, of j e c] that new by (auto split: if_splits)
  show "d_parent cd = j"
    if "(A(i \<mapsto> d)) j = Some e" "c \<in> set (d_children e)" "(A(i \<mapsto> d)) c = Some cd" for j e c cd
    using reg_tree_child_parent [OF tree, of j e c cd] that new nc [of j e]
    by (auto split: if_splits)
qed

lemma reg_tree_new_child:
  assumes tree: "reg_tree A" and p: "A p = Some pd" and pi: "p < i"
    and new: "A i = None" "i \<noteq> id_default" "d_children d = []" "d_parent d = p"
    and nc: "\<And>j e. A j = Some e \<Longrightarrow> i \<notin> set (d_children e)"
  shows "reg_tree (A(p \<mapsto> pd\<lparr>d_children := List.insert i (d_children pd)\<rparr>, i \<mapsto> d))"
    (is "reg_tree ?B")
proof (rule reg_treeI)
  have ip: "i \<noteq> p" using pi by auto
  have at_old: "\<exists>e'. A j = Some e' \<and> d_parent e' = d_parent e \<and>
      set (d_children e) = (if j = p then insert i else id) (set (d_children e'))"
    if "?B j = Some e" "j \<noteq> i" for j e
    using that p by (auto split: if_splits)
  show "?B id_default = None" using tree new(2) reg_tree_live [OF tree p] by (auto simp: reg_tree_def)
  show "\<exists>qd. ?B (d_parent e) = Some qd \<and> j \<in> set (d_children qd)"
    if B: "?B j = Some e" "d_parent e \<noteq> id_default" for j e
  proof (cases "j = i")
    case True
    then show ?thesis using B new(4) ip by auto
  next
    case False
    from at_old [OF B(1) False] obtain e' where "A j = Some e'" "d_parent e' = d_parent e" by blast
    then show ?thesis
      using reg_tree_parent [OF tree, of j e'] B(2) p new(1) by (auto split: if_splits)
  qed
  show "j < c" if B: "?B j = Some e" "c \<in> set (d_children e)" for j e c
  proof (cases "j = i")
    case False
    from at_old [OF B(1) False] obtain e' where "A j = Some e'"
      "set (d_children e) = (if j = p then insert i else id) (set (d_children e'))" by blast
    then show ?thesis using reg_tree_child [OF tree, of j e' c] B(2) pi by (auto split: if_splits)
  qed (use B new(3) in simp)
  show "d_parent cd = j"
    if B: "?B j = Some e" "c \<in> set (d_children e)" "?B c = Some cd" for j e c cd
  proof (cases "j = i")
    case False
    from at_old [OF B(1) False] obtain e' where e': "A j = Some e'"
      "set (d_children e) = (if j = p then insert i else id) (set (d_children e'))" by blast
    show ?thesis
    proof (cases "c = i")
      case True
      then show ?thesis using B(2,3) e' nc [OF e'(1)] new(4) by (auto split: if_splits)
    next
      case F: False
      from at_old [OF B(3) F] obtain cd' where "A c = Some cd'" "d_parent cd' = d_parent cd" by blast
      then show ?thesis
        using reg_tree_child_parent [OF tree e'(1), of c cd'] B(2) e'(2) F by (auto split: if_splits)
    qed
  qed (use B new(3) in simp)
qed

lemma reg_tree_registered:
  assumes tree: "reg_tree (actor_at s)" and fr: "fresh_actor i d hp s"
  shows "reg_tree (actor_at (registered i d hp s))"
proof -
  note None = fresh_actor_None [OF fr]
  have i: "i \<noteq> id_default" "d_children d = []" using fr by (auto simp: fresh_actor_def)
  have nc: "i \<notin> set (d_children e)" if "actor_at s j = Some e" for j e
    using fr that by (auto simp: fresh_actor_def)
  show ?thesis
  proof (cases hp)
    case True
    with fr obtain pd where pd: "actor_at s (d_parent d) = Some pd" "d_parent d < i"
      by (auto simp: fresh_actor_def)
    from reg_tree_new_child [OF tree pd None i refl nc] True pd show ?thesis
      by (simp add: actor_at_registered actor_at_add_child)
  next
    case False
    then have "d_parent d = id_default" using fr by (simp add: fresh_actor_def)
    from reg_tree_new_root [OF tree None i this nc] False show ?thesis
      by (simp add: actor_at_registered)
  qed
qed

lemma registered_at:
  assumes "actor_at (registered i d hp s) j = Some e"
  shows "j = i \<and> e = d \<or> (\<exists>e'. actor_at s j = Some e' \<and>
      d_address e = d_address e' \<and> d_name e = d_name e' \<and>
      set (d_children e) \<subseteq> insert i (set (d_children e')))"
proof (cases "j = i")
  case True
  with assms show ?thesis by (simp add: actor_at_registered)
next
  case False
  with assms have "actor_at (if hp then add_child (d_parent d) i s else s) j = Some e"
    by (simp add: actor_at_registered)
  then show ?thesis
    by (cases hp; cases "actor_at s (d_parent d)"; cases "j = d_parent d")
      (auto simp: actor_at_add_child)
qed

lemma registered_dom: "keys_of (actors (registered i d hp s)) = insert i (keys_of (actors s))"
proof -
  have "dom (actor_at (add_child p c s)) = dom (actor_at s)" for p c
    by (cases "actor_at s p") (auto simp: actor_at_add_child)
  then show ?thesis by (simp add: actor_at_registered)
qed

lemma inv_boxes_registered:
  assumes inv: "inv_boxes s" and dom: "keys_of (actors (registered i d hp s)) = insert i (keys_of (actors s))"
    and None: "actor_at s i = None"
  shows "inv_boxes (registered i d hp s)"
proof -
  let ?s = "registered i d hp s"
  have keys: "keys_of (mboxes s) = keys_of (actors s)" and lt: "\<And>j m. mbox_at s j = Some m \<Longrightarrow> m < next_mb s"
    and inj: "\<And>j k m. mbox_at s j = Some m \<Longrightarrow> mbox_at s k = Some m \<Longrightarrow> j = k"
    and pub: "\<And>n x. map_of (exchanges s) n = Some x \<Longrightarrow> ex_pub x < next_mb s \<and>
        (\<forall>i. mbox_at s i \<noteq> Some (ex_pub x))"
    and pubs: "\<And>n n' x x'. map_of (exchanges s) n = Some x \<Longrightarrow> map_of (exchanges s) n' = Some x' \<Longrightarrow>
        ex_pub x = ex_pub x' \<Longrightarrow> n = n'"
    using inv unfolding inv_boxes_def by blast+
  have "keys_of (mboxes ?s) = keys_of (actors ?s)" using dom keys by simp
  moreover have "m < next_mb ?s" if "mbox_at ?s j = Some m" for j m
    using that lt [of j m] by (auto split: if_splits)
  moreover have "j = k" if "mbox_at ?s j = Some m" "mbox_at ?s k = Some m" for j k m
    using that lt [of j m] lt [of k m] inj [of j m k] by (auto split: if_splits)
  moreover have "ex_pub x < next_mb ?s \<and> (\<forall>i. mbox_at ?s i \<noteq> Some (ex_pub x))"
    if "map_of (exchanges ?s) n = Some x" for n x
    using that pub [of n x] by auto
  ultimately show ?thesis using pubs unfolding inv_boxes_def registered_sel by blast
qed

lemma inv_maps_registered: "inv_maps s \<Longrightarrow> inv_maps (registered i d hp s)"
  by (cases hp) (simp_all add: inv_maps_def actors_registered wf_add_child)

lemma inv_ids_registered:
  assumes inv: "inv_ids s" and fr: "fresh_actor i d hp s"
  shows "inv_ids (registered i d hp s)"
  unfolding inv_ids_def registered_sel
proof (intro allI impI)
  fix j e assume j: "actor_at (registered i d hp s) j = Some e"
  have i: "i < Id_t (next_actor_id s)" using fr by (simp add: fresh_actor_def)
  show "aa_id (d_address e) = j \<and> aa_pathname (d_address e) = d_name e \<and>
       j \<noteq> Id_t 0 \<and> j < Id_t (next_actor_id s) \<and>
       (\<forall>c \<in> set (d_children e). c < Id_t (next_actor_id s))"
  proof (cases "j = i")
    case True
    then have "e = d" using j by (simp add: actor_at_registered)
    with True fr i show ?thesis by (simp add: fresh_actor_def)
  next
    case False
    from registered_at [OF j] False obtain e' where e': "actor_at s j = Some e'"
      "d_address e = d_address e'" "d_name e = d_name e'"
      "set (d_children e) \<subseteq> insert i (set (d_children e'))" by blast
    from inv e'(1) have "aa_id (d_address e') = j \<and> aa_pathname (d_address e') = d_name e' \<and>
       j \<noteq> Id_t 0 \<and> j < Id_t (next_actor_id s) \<and>
       (\<forall>c \<in> set (d_children e'). c < Id_t (next_actor_id s))" by (simp add: inv_ids_def)
    with e'(2-) i show ?thesis by auto
  qed
qed

lemma inv_names_registered:
  assumes inv: "inv_names s" and fr: "fresh_actor i d hp s"
  shows "inv_names (registered i d hp s)"
proof -
  have i: "i < Id_t (next_actor_id s)" and no: "\<And>n. map_of (id_by_name s) n \<noteq> Some i"
    using fr by (auto simp: fresh_actor_def)
  have "d_name e = n" if n: "map_of (id_by_name (registered i d hp s)) n = Some j"
    and j: "actor_at (registered i d hp s) j = Some e" for n j e
  proof (cases "j = i")
    case True
    then have "e = d" using j by (simp add: actor_at_registered)
    then show ?thesis using n True no by (auto split: if_splits)
  next
    case False
    from registered_at [OF j] False obtain e' where "actor_at s j = Some e'" "d_name e = d_name e'"
      by blast
    then show ?thesis using inv n False by (auto simp: inv_names_def split: if_splits)
  qed
  moreover have "j < Id_t (next_actor_id s)"
    if "map_of (id_by_name (registered i d hp s)) n = Some j" for n j
    using that inv i by (auto simp: inv_names_def split: if_splits)
  ultimately show ?thesis unfolding inv_names_def registered_sel(1) by blast
qed

lemma ctx_inv_registered:
  assumes inv: "ctx_inv s" and fr: "fresh_actor i d hp s"
  shows "ctx_inv (registered i d hp s)"
proof -
  note I = ctx_invD [OF inv]
  have "inv_queues (registered i d hp s)" using I(6) by (simp add: inv_queues_def mailbox_new_def)
  then show ?thesis
    unfolding ctx_inv_def
    using inv_maps_registered [OF I(1)] reg_tree_registered [OF I(2) fr] inv_ids_registered [OF I(3) fr]
      inv_boxes_registered [OF I(4) registered_dom fresh_actor_None [OF fr]]
      inv_names_registered [OF I(5) fr] by blast
qed

end
