(* ===== verification/Yaaf_Registry.thy ===== *)
theory Yaaf_Registry
  imports Yaaf_Context_Inv
begin

text \<open>
  What the operations of the registry do, on a context that satisfies the invariant: adding an actor
  registers exactly one new actor with an empty mailbox below the right parent and posts its \<^verbatim>\<open>on_start\<close>,
  lookups find it, sending appends to one mailbox or to none, and stopping removes exactly a subtree.
\<close>

section \<open>Adding an actor\<close>

text \<open>The parent an actor gets, its path name, and the conditions under which it can be added.\<close>

definition effective_parent :: "actor_address \<Rightarrow> 'u ctx \<Rightarrow> actor_address" where
  "effective_parent parent s = (if address_empty parent then usr_root s else parent)"

definition parent_desc :: "actor_address \<Rightarrow> 'u ctx \<Rightarrow> description option" where
  "parent_desc parent s = (let p = effective_parent parent s
     in if address_empty p then None else actor_at s (aa_id p))"

definition path_under :: "actor_address \<Rightarrow> string \<Rightarrow> 'u ctx \<Rightarrow> string" where
  "path_under parent nm s =
     (case parent_desc parent s of None \<Rightarrow> [] | Some pd \<Rightarrow> d_name pd) @ ''/'' @ nm"

definition can_add :: "actor_address \<Rightarrow> string \<Rightarrow> 'u ctx \<Rightarrow> bool" where
  "can_add parent nm s \<longleftrightarrow> cx_lock s = Unlocked \<and> can_post s \<and>
     next_actor_id s \<noteq> 0 \<and> next_actor_id s \<noteq> - 1 \<and>
     (\<not> address_empty (effective_parent parent s) \<longrightarrow> parent_desc parent s \<noteq> None) \<and>
     (double_checks s \<longrightarrow>
        path_under parent nm s \<noteq> usercontext_name (cx_name s) (Id_t (next_actor_id s)))"

lemma slash_names:
  "p @ CHR ''/'' # q \<noteq> []" "p @ CHR ''/'' # q \<noteq> null_pathname"
  "usercontext_name c i \<noteq> null_pathname"
proof -
  have "CHR ''/'' \<in> set (p @ CHR ''/'' # q)" for p q by simp
  moreover have "CHR ''/'' \<notin> set null_pathname" by (simp add: null_pathname_def)
  ultimately have *: "p @ CHR ''/'' # q \<noteq> null_pathname" for p q by metis
  show "p @ CHR ''/'' # q \<noteq> []" "p @ CHR ''/'' # q \<noteq> null_pathname" using * by simp_all
  show "usercontext_name c i \<noteq> null_pathname"
    unfolding usercontext_name_def using * [of c "''#usercontext#'' @ string_of_nat (unat (val i))"] by simp
qed

lemma read_parent_run:
  assumes "cx_lock s = Unlocked" "\<not> address_empty p \<longrightarrow> actor_at s (aa_id p) \<noteq> None"
  shows "read_parent p s = (Inr (if address_empty p then None else actor_at s (aa_id p)), s)"
  using assms cx_lock_idem [of s Unlocked]
  by (auto simp: read_parent_def with_shared_def)

lemma user_context_new_run:
  "(double_checks s \<longrightarrow> p @ ''/'' @ q \<noteq> usercontext_name c i) \<Longrightarrow>
   user_context_new (address_of j (p @ ''/'' @ q)) (usercontext_name c i) s =
     (Inr \<lparr>uc_addr = address_of j (p @ ''/'' @ q), uc_name = usercontext_name c i\<rparr>, s)"
  using slash_names(1,2) [of p q] slash_names(3) [of c i]
  by (auto simp: user_context_new_def ensure_def seqM_def)

text \<open>The description a new actor is registered with, up to what \<^verbatim>\<open>on_init\<close> returns.\<close>

definition new_desc ::
    "actor_address \<Rightarrow> string \<Rightarrow> actor_ptr \<Rightarrow> actor_settings \<Rightarrow> 'u ctx \<Rightarrow> description" where
  "new_desc parent nm a st s =
     (let i = Id_t (next_actor_id s); path = path_under parent nm s
      in \<lparr>d_actor = a, d_address = address_of i path, d_settings = st,
          d_usrcont = Some \<lparr>uc_addr = address_of i path, uc_name = usercontext_name (cx_name s) i\<rparr>,
          d_name = path,
          d_parent = (if parent_desc parent s = None then id_default
                      else aa_id (effective_parent parent s)),
          d_children = []\<rparr>)"

lemma new_desc_sel [simp]:
  "d_actor (new_desc parent nm a st s) = a"
  "d_address (new_desc parent nm a st s) =
     address_of (Id_t (next_actor_id s)) (path_under parent nm s)"
  "d_settings (new_desc parent nm a st s) = st" "d_name (new_desc parent nm a st s) = path_under parent nm s"
  "d_children (new_desc parent nm a st s) = []"
  "d_parent (new_desc parent nm a st s) = (if parent_desc parent s = None then id_default
     else aa_id (effective_parent parent s))"
  by (simp_all add: new_desc_def Let_def)

lemma can_post_cong: "cx_tm s' = cx_tm s \<Longrightarrow> can_post s' = can_post s"
  and user_queue_cong: "cx_tm s' = cx_tm s \<Longrightarrow> user_queue s' = user_queue s"
  and sys_queue_cong: "cx_tm s' = cx_tm s \<Longrightarrow> sys_queue s' = sys_queue s"
  by (simp_all add: can_post_def user_queue_def sys_queue_def)

text \<open>A class that does not override \<^verbatim>\<open>on_init\<close> has its settings handed through.\<close>

definition plain_init :: "'u vtable \<Rightarrow> bool" where
  "plain_init vt \<longleftrightarrow> (\<forall>p st s. v_on_init vt p st s = (Inr st, s))"

lemma plain_init_call: "plain_init vt \<Longrightarrow> call_on_init vt p st s = (Inr st, s)"
  by (simp add: plain_init_def call_on_init_def vt_of_def base_vtable_def base_on_init_def)

text \<open>The object of an actor once the context has given it its facade and its address.\<close>

definition linked :: "actor_address \<Rightarrow> string \<Rightarrow> base_actor \<Rightarrow> base_actor" where
  "linked addr ucname a = set_self_addr addr (set_context \<lparr>uc_addr = addr, uc_name = ucname\<rparr> a)"

lemma install_actor_run:
  assumes vt: "quiet_vtable vt" and lock: "cx_lock s = Unlocked" and cp: "can_post s"
    and dc: "double_checks s \<longrightarrow> p @ ''/'' @ q \<noteq> usercontext_name c i'"
  obtains st s1 m' where "quiet_change s s1"
    and "install_actor vt i (usercontext_name c i') (p @ ''/'' @ q) settings pid hp a s =
      (Inr (address_of i (p @ ''/'' @ q)),
       (registered i \<lparr>d_actor = a, d_address = address_of i (p @ ''/'' @ q), d_settings = st,
           d_usrcont = Some \<lparr>uc_addr = address_of i (p @ ''/'' @ q), uc_name = usercontext_name c i'\<rparr>,
           d_name = p @ ''/'' @ q, d_parent = pid, d_children = []\<rparr> hp s1)
         \<lparr>cx_tm := Some m', next_result := Suc (next_result s)\<rparr>)"
    and "user_queue (snd (install_actor vt i (usercontext_name c i') (p @ ''/'' @ q) settings pid hp a s)) =
      user_queue s @ [T_on_start a]"
    and "sys_queue (snd (install_actor vt i (usercontext_name c i') (p @ ''/'' @ q) settings pid hp a s)) =
      sys_queue s"
    and "can_post (snd (install_actor vt i (usercontext_name c i') (p @ ''/'' @ q) settings pid hp a s))"
    and "plain_init vt \<Longrightarrow>
      s1 = s\<lparr>objs := (objs s)(a := linked (address_of i (p @ ''/'' @ q)) (usercontext_name c i') (objs s a))\<rparr>"
proof -
  let ?path = "p @ ''/'' @ q"
  let ?uc = "\<lparr>uc_addr = address_of i ?path, uc_name = usercontext_name c i'\<rparr>"
  let ?oa = "s\<lparr>objs := (objs s)(a := set_context ?uc (objs s a))\<rparr>"
  from quiet_calls(1) [OF vt] obtain st s2 where
    init: "call_on_init vt a settings ?oa = (Inr st, s2)" and q2: "quiet_change ?oa s2"
    unfolding quiet_op_def by blast
  let ?s1 = "s2\<lparr>objs := (objs s2)(a := set_self_addr (address_of i ?path) (objs s2 a))\<rparr>"
  let ?d = "\<lparr>d_actor = a, d_address = address_of i ?path, d_settings = st, d_usrcont = Some ?uc,
     d_name = ?path, d_parent = pid, d_children = []\<rparr>"
  let ?reg = "registered i ?d hp ?s1"
  have q1: "quiet_change s ?s1"
    using quiet_change_trans [OF quiet_change_objs quiet_change_trans [OF q2 quiet_change_objs]] by simp
  note sel = quiet_change_sel [OF q1]
  have reg: "register_actor i ?d hp ?s1 = (Inr (), ?reg)"
    using sel(10) lock by (intro register_actor_run) simp
  have tm: "cx_tm ?reg = cx_tm s" "next_result ?reg = next_result s"
    using sel by simp_all
  from user_post_app [of ?reg "T_on_start a" SINGLE] cp can_post_cong [OF tm(1)]
  obtain r m' where post: "user_post (T_on_start a) SINGLE ?reg =
      (Inr r, ?reg\<lparr>cx_tm := Some m', next_result := Suc (next_result s)\<rparr>)"
    and uq: "user_queue (?reg\<lparr>cx_tm := Some m', next_result := Suc (next_result s)\<rparr>) =
      user_queue ?reg @ [T_on_start a]"
    and sq: "sys_queue (?reg\<lparr>cx_tm := Some m', next_result := Suc (next_result s)\<rparr>) = sys_queue ?reg"
    and cp': "can_post (?reg\<lparr>cx_tm := Some m', next_result := Suc (next_result s)\<rparr>)"
    unfolding tm(2) by blast
  have run: "install_actor vt i (usercontext_name c i') ?path settings pid hp a s =
      (Inr (address_of i ?path), ?reg\<lparr>cx_tm := Some m', next_result := Suc (next_result s)\<rparr>)"
    using user_context_new_run [OF dc] init reg post
    by (simp add: install_actor_def Let_def)
  have plain: "?s1 = s\<lparr>objs := (objs s)(a := linked (address_of i ?path) (usercontext_name c i') (objs s a))\<rparr>"
    if "plain_init vt"
    using init plain_init_call [OF that, of a settings ?oa] by (auto simp: linked_def)
  show ?thesis
    by (rule that [OF q1 run _ _ _ plain])
      (use uq sq cp' user_queue_cong [OF tm(1)] sys_queue_cong [OF tm(1)] in \<open>simp_all only: run snd_conv\<close>)
qed

text \<open>
  One equation for the whole of \<^verbatim>\<open>add_actor\<close>: take an identifier, change the actor object, register, post.
\<close>

lemma add_actor_under_run:
  assumes vt: "quiet_vtable vt" and ca: "can_add parent nm s"
  obtains st s1 m' where
    "quiet_change (s\<lparr>next_actor_id := next_actor_id s + 1\<rparr>) s1"
    and "add_actor_under vt nm parent a s =
      (Inr (address_of (Id_t (next_actor_id s)) (path_under parent nm s)),
       (registered (Id_t (next_actor_id s)) (new_desc parent nm a st s) (parent_desc parent s \<noteq> None) s1)
         \<lparr>cx_tm := Some m', next_result := Suc (next_result s)\<rparr>)"
    and "user_queue (snd (add_actor_under vt nm parent a s)) = user_queue s @ [T_on_start a]"
    and "sys_queue (snd (add_actor_under vt nm parent a s)) = sys_queue s"
    and "can_post (snd (add_actor_under vt nm parent a s))"
    and "plain_init vt \<Longrightarrow> s1 = s\<lparr>next_actor_id := next_actor_id s + 1,
      objs := (objs s)(a := linked (address_of (Id_t (next_actor_id s)) (path_under parent nm s))
        (usercontext_name (cx_name s) (Id_t (next_actor_id s))) (objs s a))\<rparr>"
proof -
  let ?i = "Id_t (next_actor_id s)" and ?p = "effective_parent parent s" and ?pd = "parent_desc parent s"
  let ?s0 = "s\<lparr>next_actor_id := next_actor_id s + 1\<rparr>" and ?pn = "case parent_desc parent s of None \<Rightarrow> [] | Some pd \<Rightarrow> d_name pd"
  let ?inst = "install_actor vt ?i (usercontext_name (cx_name s) ?i) (?pn @ ''/'' @ nm)
     (case ?pd of None \<Rightarrow> defsettings | Some pd \<Rightarrow> d_settings pd)
     (if ?pd = None then id_default else aa_id ?p) (?pd \<noteq> None) a ?s0"
  from ca have lock: "cx_lock ?s0 = Unlocked" and cp: "can_post ?s0"
    and par: "\<not> address_empty ?p \<longrightarrow> actor_at ?s0 (aa_id ?p) \<noteq> None"
    and dc: "double_checks ?s0 \<longrightarrow> ?pn @ ''/'' @ nm \<noteq> usercontext_name (cx_name s) ?i"
    by (auto simp: can_add_def parent_desc_def path_under_def Let_def can_post_def split: if_splits)
  have rp: "read_parent ?p ?s0 = (Inr ?pd, ?s0)"
    using read_parent_run [OF lock par] by (simp add: parent_desc_def Let_def)
  have eq: "add_actor_under vt nm parent a s = ?inst"
    using rp by (cases ?pd) (auto simp: add_actor_under_def fetch_next_id_def effective_parent_def
        bindM_def [of fetch_next_id] split: if_splits)
  have d: "\<lparr>d_actor = a, d_address = address_of ?i (?pn @ ''/'' @ nm), d_settings = st,
      d_usrcont = Some \<lparr>uc_addr = address_of ?i (?pn @ ''/'' @ nm), uc_name = usercontext_name (cx_name s) ?i\<rparr>,
      d_name = ?pn @ ''/'' @ nm, d_parent = (if ?pd = None then id_default else aa_id ?p),
      d_children = []\<rparr> = new_desc parent nm a st s" for st
    by (simp add: new_desc_def Let_def path_under_def)
  have uq: "user_queue ?s0 = user_queue s" "sys_queue ?s0 = sys_queue s" "next_result ?s0 = next_result s"
    by (simp_all add: user_queue_def sys_queue_def)
  show ?thesis
    by (rule install_actor_run [OF vt lock cp dc, of ?i "case ?pd of None \<Rightarrow> defsettings | Some pd \<Rightarrow> d_settings pd"
          "if ?pd = None then id_default else aa_id ?p" "?pd \<noteq> None" a])
      (rule that; unfold eq d uq path_under_def; (assumption | simp))
qed

lemma new_desc_fresh:
  assumes inv: "ctx_inv s" and ca: "can_add parent nm s"
  shows "fresh_actor (Id_t (next_actor_id s)) (new_desc parent nm a st s) (parent_desc parent s \<noteq> None)
    (s\<lparr>next_actor_id := next_actor_id s + 1\<rparr>)"
proof -
  have n: "next_actor_id s \<noteq> 0" "next_actor_id s \<noteq> - 1" using ca by (simp_all add: can_add_def)
  have "Id_t (next_actor_id s) < Id_t (next_actor_id s + 1)" using id_less_next [OF n(2)] by simp
  moreover have "\<exists>pd. actor_at s (aa_id (effective_parent parent s)) = Some pd" if "parent_desc parent s \<noteq> None"
    using that by (auto simp: parent_desc_def Let_def split: if_splits)
  ultimately show ?thesis
    using n ctx_invD(3,5) [OF inv] unfolding fresh_actor_def inv_ids_def inv_names_def
    by (simp add: id_default_def)
qed

lemma ctx_inv_next_id:
  assumes inv: "ctx_inv s" and n: "next_actor_id s \<noteq> - 1"
  shows "ctx_inv (s\<lparr>next_actor_id := next_actor_id s + 1\<rparr>)"
proof -
  have less: "i < Id_t (next_actor_id s + 1)" if "i < Id_t (next_actor_id s)" for i
    using that id_less_next [OF n] by simp
  show ?thesis
    using inv less unfolding ctx_inv_def inv_defs by auto
qed

lemma fresh_actor_cong:
  "actors s' = actors s \<Longrightarrow> id_by_name s' = id_by_name s \<Longrightarrow> next_actor_id s' = next_actor_id s \<Longrightarrow>
   fresh_actor i d hp s' = fresh_actor i d hp s"
  by (simp add: fresh_actor_def)

lemma ctx_inv_add:
  assumes vt: "quiet_vtable vt" and inv: "ctx_inv s" and ca: "can_add parent nm s"
  shows "ctx_inv (snd (add_actor_under vt nm parent a s))"
proof -
  let ?s0 = "s\<lparr>next_actor_id := next_actor_id s + 1\<rparr>"
  obtain st s1 m' where q: "quiet_change ?s0 s1"
    and run: "add_actor_under vt nm parent a s =
      (Inr (address_of (Id_t (next_actor_id s)) (path_under parent nm s)),
       (registered (Id_t (next_actor_id s)) (new_desc parent nm a st s) (parent_desc parent s \<noteq> None) s1)
         \<lparr>cx_tm := Some m', next_result := Suc (next_result s)\<rparr>)"
    by (rule add_actor_under_run [OF vt ca])
  let ?r = "registered (Id_t (next_actor_id s)) (new_desc parent nm a st s) (parent_desc parent s \<noteq> None) s1"
  have "ctx_inv ?s0" using ctx_inv_next_id [OF inv] ca by (simp add: can_add_def)
  then have "ctx_inv s1" using q by (rule ctx_inv_quiet)
  moreover have "fresh_actor (Id_t (next_actor_id s)) (new_desc parent nm a st s)
      (parent_desc parent s \<noteq> None) s1"
    using new_desc_fresh [OF inv ca, of a st] fresh_actor_cong [of s1 ?s0] quiet_change_sel [OF q] by simp
  ultimately have "ctx_inv ?r" by (rule ctx_inv_registered)
  then show ?thesis by (simp add: run)
qed

section \<open>The abstract registry\<close>

text \<open>
  What a context promises its clients: a set of members, each with its actor object, its path name and
  its parent, and an inbox per member.
\<close>

record spec_state =
  members :: "id_t \<rightharpoonup> actor_ptr \<times> string \<times> id_t"
  inbox :: "id_t \<rightharpoonup> envelope list"

definition abs_ctx :: "'u ctx \<Rightarrow> spec_state" where
  "abs_ctx s = \<lparr>members = (\<lambda>i. map_option (\<lambda>d. (d_actor d, d_name d, d_parent d)) (actor_at s i)),
     inbox = (\<lambda>i. map_option (queue_at s) (mbox_at s i))\<rparr>"

definition spec_add :: "id_t \<Rightarrow> actor_ptr \<Rightarrow> string \<Rightarrow> id_t \<Rightarrow> spec_state \<Rightarrow> spec_state" where
  "spec_add i a path p t = t\<lparr>members := (members t)(i \<mapsto> (a, path, p)), inbox := (inbox t)(i \<mapsto> [])\<rparr>"

definition spec_send :: "id_t \<Rightarrow> envelope \<Rightarrow> spec_state \<Rightarrow> spec_state" where
  "spec_send i e t = (case inbox t i of None \<Rightarrow> t | Some q \<Rightarrow> t\<lparr>inbox := (inbox t)(i \<mapsto> q @ [e])\<rparr>)"

inductive descends :: "(id_t \<rightharpoonup> actor_ptr \<times> string \<times> id_t) \<Rightarrow> id_t \<Rightarrow> id_t \<Rightarrow> bool" for M i where
  descends_self: "M i = Some x \<Longrightarrow> descends M i i"
| descends_child: "descends M i j \<Longrightarrow> M k = Some (a, path, j) \<Longrightarrow> descends M i k"

definition spec_stop :: "id_t \<Rightarrow> spec_state \<Rightarrow> spec_state" where
  "spec_stop i t = t\<lparr>members := members t |` {j. \<not> descends (members t) i j},
     inbox := inbox t |` {j. \<not> descends (members t) i j}\<rparr>"

lemma abs_ctx_sel [simp]:
  "members (abs_ctx s) i = map_option (\<lambda>d. (d_actor d, d_name d, d_parent d)) (actor_at s i)"
  "inbox (abs_ctx s) i = map_option (queue_at s) (mbox_at s i)"
  by (simp_all add: abs_ctx_def)

lemma descends_abs: "descends (members (abs_ctx s)) i j \<longleftrightarrow> below (actor_at s) i j"
proof
  show "below (actor_at s) i j" if "descends (members (abs_ctx s)) i j"
    using that
  proof (induction rule: descends.induct)
    case (descends_self x)
    then obtain d where "actor_at s i = Some d" by auto
    then show ?case by (rule below.below_self)
  next
    case (descends_child j k a path)
    then obtain d where "actor_at s k = Some d" "d_parent d = j" by auto
    with descends_child.IH show ?case by (rule below.below_child)
  qed
  show "descends (members (abs_ctx s)) i j" if "below (actor_at s) i j"
    using that
  proof (induction rule: below.induct)
    case (below_self d)
    then show ?case by (intro descends.descends_self) simp
  next
    case (below_child j k d)
    then have "members (abs_ctx s) k = Some (d_actor d, d_name d, j)" by simp
    with below_child.IH show ?case by (rule descends.descends_child)
  qed
qed

section \<open>Refinement of the abstract registry\<close>

lemma abs_registered:
  assumes "actor_at s i = None" and "\<And>j. mbox_at s j \<noteq> Some (next_mb s)"
  shows "abs_ctx (registered i d hp s) = spec_add i (d_actor d) (d_name d) (d_parent d) (abs_ctx s)"
proof -
  have "members (abs_ctx (registered i d hp s)) j =
      members (spec_add i (d_actor d) (d_name d) (d_parent d) (abs_ctx s)) j" for j
    by (cases "actor_at s (d_parent d)")
      (auto simp: actor_at_registered actor_at_add_child spec_add_def)
  moreover have "inbox (abs_ctx (registered i d hp s)) j =
      inbox (spec_add i (d_actor d) (d_name d) (d_parent d) (abs_ctx s)) j" for j
    using assms(2) [of j] by (cases "mbox_at s j") (auto simp: spec_add_def mailbox_new_def)
  ultimately show ?thesis
    by (auto simp: abs_ctx_def spec_add_def fun_eq_iff)
qed

lemma abs_ctx_cong:
  "actors s' = actors s \<Longrightarrow> mboxes s' = mboxes s \<Longrightarrow> mbs s' = mbs s \<Longrightarrow> abs_ctx s' = abs_ctx s"
  by (simp add: abs_ctx_def)

lemma abs_add:
  assumes vt: "quiet_vtable vt" and inv: "ctx_inv s" and ca: "can_add parent nm s"
  shows "abs_ctx (snd (add_actor_under vt nm parent a s)) =
    spec_add (Id_t (next_actor_id s)) a (path_under parent nm s)
      (if parent_desc parent s = None then id_default else aa_id (effective_parent parent s)) (abs_ctx s)"
proof -
  let ?s0 = "s\<lparr>next_actor_id := next_actor_id s + 1\<rparr>" and ?i = "Id_t (next_actor_id s)"
  obtain st s1 m' where q: "quiet_change ?s0 s1"
    and run: "add_actor_under vt nm parent a s = (Inr (address_of ?i (path_under parent nm s)),
       (registered ?i (new_desc parent nm a st s) (parent_desc parent s \<noteq> None) s1)
         \<lparr>cx_tm := Some m', next_result := Suc (next_result s)\<rparr>)"
    by (rule add_actor_under_run [OF vt ca])
  note sel = quiet_change_sel [OF q]
  have None: "actor_at s1 ?i = None"
    using fresh_actor_None [OF new_desc_fresh [OF inv ca]] sel by simp
  have box: "mbox_at s1 j \<noteq> Some (next_mb s1)" for j
    using ctx_invD(4) [OF inv] sel by (auto simp: inv_boxes_def)
  have "abs_ctx (snd (add_actor_under vt nm parent a s)) =
      abs_ctx (registered ?i (new_desc parent nm a st s) (parent_desc parent s \<noteq> None) s1)"
    by (rule abs_ctx_cong) (simp_all add: run)
  also have "\<dots> = spec_add ?i a (path_under parent nm s)
      (if parent_desc parent s = None then id_default else aa_id (effective_parent parent s)) (abs_ctx s1)"
    using abs_registered [OF None box] by simp
  also have "abs_ctx s1 = abs_ctx s" using sel by (intro abs_ctx_cong) simp_all
  finally show ?thesis .
qed

lemma abs_stops:
  assumes "stops (subtree (actor_at s) i) s s'"
  shows "abs_ctx s' = spec_stop i (abs_ctx s)"
proof -
  note sel = stops_sel [OF assms]
  have "members (abs_ctx s') j = members (spec_stop i (abs_ctx s)) j" for j
    by (simp add: sel(1) spec_stop_def descends_abs subtree_def restrict_map_def)
  moreover have "inbox (abs_ctx s') j = inbox (spec_stop i (abs_ctx s)) j" for j
    by (simp add: sel(2,5) spec_stop_def descends_abs subtree_def restrict_map_def)
  ultimately show ?thesis by (auto simp: abs_ctx_def spec_stop_def fun_eq_iff)
qed

text \<open>An envelope the checks let through, and where sending puts it.\<close>

definition may_send :: "actor_address \<Rightarrow> envelope \<Rightarrow> 'u ctx \<Rightarrow> bool" where
  "may_send target e s \<longleftrightarrow> cx_lock s = Unlocked \<and> sendable e \<and>
     (double_checks s \<longrightarrow> aa_pathname target \<noteq> null_pathname \<and> aa_pathname (sender e) \<noteq> null_pathname)"

lemma send_envelope_run:
  assumes "may_send target e s"
  shows "send_envelope target e s = (Inr (), case mbox_at s (aa_id target) of
       None \<Rightarrow> s
     | Some m \<Rightarrow> s\<lparr>mbs := (mbs s)(m := (mbs s m)\<lparr>dqueue := queue_at s m @ [e]\<rparr>)\<rparr>)"
  using assms cx_lock_idem [of s Unlocked]
  by (auto simp: may_send_def send_envelope_def with_shared_def ensure_not_null_def ensure_def seqM_def
      split: option.splits)

lemma send_envelope_rv_eq: "send_envelope_rv = send_envelope"
  by (intro ext) (simp only: send_envelope_rv_def send_envelope_def mb_push_rv_eq)

lemma abs_push:
  assumes inv: "ctx_inv s" and m: "mbox_at s i = Some m"
  shows "abs_ctx (s\<lparr>mbs := (mbs s)(m := (mbs s m)\<lparr>dqueue := queue_at s m @ [e]\<rparr>)\<rparr>) =
    spec_send i e (abs_ctx s)"
proof -
  have inj: "j = i" if "mbox_at s j = Some m" for j
    using ctx_invD(4) [OF inv] m that unfolding inv_boxes_def by blast
  let ?s = "s\<lparr>mbs := (mbs s)(m := (mbs s m)\<lparr>dqueue := queue_at s m @ [e]\<rparr>)\<rparr>"
  have "inbox (abs_ctx ?s) j = inbox (spec_send i e (abs_ctx s)) j" for j
    using m inj [of j] by (cases "mbox_at s j") (auto simp: spec_send_def)
  moreover have "members (abs_ctx ?s) = members (spec_send i e (abs_ctx s))"
    using m by (simp add: abs_ctx_def spec_send_def)
  ultimately show ?thesis by (intro spec_state.equality ext) simp_all
qed

lemma abs_send:
  assumes "ctx_inv s" and "may_send target e s"
  shows "abs_ctx (snd (send_envelope target e s)) = spec_send (aa_id target) e (abs_ctx s)"
proof (cases "mbox_at s (aa_id target)")
  case None
  then show ?thesis using send_envelope_run [OF assms(2)] by (simp add: spec_send_def)
next
  case (Some m)
  then show ?thesis using send_envelope_run [OF assms(2)] abs_push [OF assms(1) Some] by simp
qed

text \<open>Everything a client of \<^verbatim>\<open>add_actor\<close> needs to know, in one rule.\<close>

lemma add_actor_under_effect:
  fixes s :: "'u ctx"
  assumes vt: "quiet_vtable vt" and inv: "ctx_inv s" and ca: "can_add parent nm s"
  obtains s' where "add_actor_under vt nm parent a s =
      (Inr (address_of (Id_t (next_actor_id s)) (path_under parent nm s)), s')"
    and "abs_ctx s' = spec_add (Id_t (next_actor_id s)) a (path_under parent nm s)
      (if parent_desc parent s = None then id_default else aa_id (effective_parent parent s)) (abs_ctx s)"
    and "ctx_inv s'" and "can_post s'" and "user_queue s' = user_queue s @ [T_on_start a]"
    and "sys_queue s' = sys_queue s" and "next_actor_id s' = next_actor_id s + 1"
    and "next_obj s' = next_obj s" and "cx_lock s' = Unlocked" and "cx_xlock s' = cx_xlock s"
    and "usr_root s' = usr_root s" and "double_checks s' = double_checks s" and "cx_name s' = cx_name s"
    and "exchanges s' = exchanges s" and "stopping_begin s' = stopping_begin s"
proof (rule add_actor_under_run [OF vt ca, of a])
  fix st m' and s1 :: "'u ctx"
  let ?s' = "(registered (Id_t (next_actor_id s)) (new_desc parent nm a st s) (parent_desc parent s \<noteq> None) s1)
         \<lparr>cx_tm := Some m', next_result := Suc (next_result s)\<rparr>"
  assume q: "quiet_change (s\<lparr>next_actor_id := next_actor_id s + 1\<rparr>) s1"
    and run: "add_actor_under vt nm parent a s =
      (Inr (address_of (Id_t (next_actor_id s)) (path_under parent nm s)), ?s')"
    and uq: "user_queue (snd (add_actor_under vt nm parent a s)) = user_queue s @ [T_on_start a]"
    and sq: "sys_queue (snd (add_actor_under vt nm parent a s)) = sys_queue s"
    and cp: "can_post (snd (add_actor_under vt nm parent a s))"
  have "cx_lock s = Unlocked" using ca by (simp add: can_add_def)
  then show ?thesis
    using that [OF run] abs_add [OF assms, of a] ctx_inv_add [OF assms, of a] uq sq cp
      quiet_change_sel [OF q] by (simp add: run)
qed

text \<open>And for a class with the inherited \<^verbatim>\<open>on_init\<close>, where the objects and the boxes are known exactly.\<close>

lemma add_actor_under_plain:
  fixes s :: "'u ctx"
  assumes vt: "quiet_vtable vt" "plain_init vt" and inv: "ctx_inv s" and ca: "can_add parent nm s"
  obtains s' where "add_actor_under vt nm parent a s =
      (Inr (address_of (Id_t (next_actor_id s)) (path_under parent nm s)), s')"
    and "usr s' = usr s" and "mbs s' = (mbs s)(next_mb s := mailbox_new)" and "next_mb s' = Suc (next_mb s)"
    and "objs s' = (objs s)(a := linked (address_of (Id_t (next_actor_id s)) (path_under parent nm s))
      (usercontext_name (cx_name s) (Id_t (next_actor_id s))) (objs s a))"
    and "mboxes s' = AList.update (Id_t (next_actor_id s)) (next_mb s) (mboxes s)"
    and "id_by_name s' = AList.update (path_under parent nm s) (Id_t (next_actor_id s)) (id_by_name s)"
    and "root_addr s' = root_addr s" and "sys_root s' = sys_root s"
proof (rule add_actor_under_run [OF vt(1) ca, of a])
  fix st m' and s1 :: "'u ctx"
  let ?s' = "(registered (Id_t (next_actor_id s)) (new_desc parent nm a st s) (parent_desc parent s \<noteq> None) s1)
         \<lparr>cx_tm := Some m', next_result := Suc (next_result s)\<rparr>"
  assume run: "add_actor_under vt nm parent a s =
      (Inr (address_of (Id_t (next_actor_id s)) (path_under parent nm s)), ?s')"
    and s1: "plain_init vt \<Longrightarrow> s1 = s\<lparr>next_actor_id := next_actor_id s + 1,
      objs := (objs s)(a := linked (address_of (Id_t (next_actor_id s)) (path_under parent nm s))
        (usercontext_name (cx_name s) (Id_t (next_actor_id s))) (objs s a))\<rparr>"
  show ?thesis by (rule that [OF run]) (simp_all add: s1 [OF vt(2)])
qed

section \<open>A new context\<close>

lemma context_new_eq:
  assumes "context_new dc p nm c u = Inr (s, c')"
  shows "actors s = []" "mboxes s = []" "id_by_name s = []" "exchanges s = []" "next_mb s = 0"
    "mbs s = (\<lambda>_. mailbox_new)" "next_actor_id s = 1" "cx_lock s = Unlocked" "cx_xlock s = Unlocked"
    "usr_root s = address_default" "double_checks s = dc" "cx_name s = fst (context_name nm c)"
    "\<not> stopping_begin s" "can_post s" "user_queue s = []"
  using assms
  by (auto simp: context_new_def Let_def bindR_eq_Inr thread_manager_new_def context_pools_def
      threads_pool_new_def can_post_def user_queue_def tm_accepts_def tm_queue_def USER_def SYSTEM_def
      split: prod.splits)

lemma ctx_inv_empty:
  "actors s = [] \<Longrightarrow> mboxes s = [] \<Longrightarrow> id_by_name s = [] \<Longrightarrow> exchanges s = [] \<Longrightarrow>
   mbs s = (\<lambda>_. mailbox_new) \<Longrightarrow> ctx_inv s"
  by (simp add: ctx_inv_def inv_defs reg_tree_def mailbox_new_def)

lemma context_new_inv: "context_new dc p nm c u = Inr (s, c') \<Longrightarrow> ctx_inv s"
  by (rule ctx_inv_empty) (auto dest: context_new_eq)

text \<open>
  A context for the examples: empty as its constructor leaves it, then with an actor \<^verbatim>\<open>/a\<close>, then with a
  child \<^verbatim>\<open>/a/b\<close>. Its states are written out, and shown to be what the operations produce.
\<close>

definition demo_uc :: "64 word \<Rightarrow> string \<Rightarrow> user_context" where
  "demo_uc i path = \<lparr>uc_addr = address_of (Id_t i) path, uc_name = usercontext_name ''demo'' (Id_t i)\<rparr>"

definition demo_obj :: "64 word \<Rightarrow> string \<Rightarrow> base_actor" where
  "demo_obj i path = (base_actor_new User_actor)\<lparr>self_address := address_of (Id_t i) path,
     self_ctx := Some (demo_uc i path)\<rparr>"

definition demo_desc :: "actor_ptr \<Rightarrow> 64 word \<Rightarrow> string \<Rightarrow> id_t \<Rightarrow> id_t list \<Rightarrow> description" where
  "demo_desc a i path p cs = \<lparr>d_actor = a, d_address = address_of (Id_t i) path,
     d_settings = defsettings, d_usrcont = Some (demo_uc i path), d_name = path, d_parent = p,
     d_children = cs\<rparr>"

definition demo_tp :: "nat \<Rightarrow> thread_kind_t \<Rightarrow> ctx_task list \<Rightarrow> posted_task threads_pool" where
  "demo_tp n k ts = \<lparr>tp_params = \<lparr>pp_threads_count = n, pp_kind = k\<rparr>,
     in_queue = map (\<lambda>(r, t). wrap_task (t, SINGLE) r) (enumerate 0 ts), stop_flag = False,
     is_stoped = False, task_runned = 0, workers = replicate n W_loop, results = (\<lambda>_. True)\<rparr>"

definition demo_tm :: "ctx_task list \<Rightarrow> posted_task thread_manager" where
  "demo_tm ts = \<lparr>tm_stoping_begin = False, tm_stoped = False, tm_params = context_pools defparams,
     tm_pools = [(USER, demo_tp 1 USER ts), (SYSTEM, demo_tp 1 SYSTEM [])]\<rparr>"

definition demo_ctx :: "unit ctx" where
  "demo_ctx = \<lparr>objs = (\<lambda>_. base_actor_new User_actor), mbs = (\<lambda>_. mailbox_new), usr = (),
     double_checks = True, cx_params = defparams, cx_name = ''demo'', cx_tm = Some (demo_tm []),
     cx_lock = Unlocked, next_actor_id = 1, actors = [], id_by_name = [], mboxes = [],
     cx_xlock = Unlocked, exchanges = [], stopping_begin = False, root_addr = address_default,
     usr_root = address_default, sys_root = address_default, next_mb = 0, next_obj = 0,
     next_result = 0\<rparr>"

definition demo_parent :: "unit ctx" where
  "demo_parent = demo_ctx\<lparr>objs := (objs demo_ctx)(0 := demo_obj 1 ''/a''),
     cx_tm := Some (demo_tm [T_on_start 0]), next_actor_id := 2,
     actors := [(Id_t 1, demo_desc 0 1 ''/a'' id_default [])], id_by_name := [(''/a'', Id_t 1)],
     mboxes := [(Id_t 1, 0)], next_mb := 1, next_result := 1\<rparr>"

definition demo_family :: "unit ctx" where
  "demo_family = demo_parent\<lparr>objs := (objs demo_parent)(1 := demo_obj 2 ''/a/b''),
     cx_tm := Some (demo_tm [T_on_start 0, T_on_start 1]), next_actor_id := 3,
     actors := [(Id_t 1, demo_desc 0 1 ''/a'' id_default [Id_t 2]),
       (Id_t 2, demo_desc 1 2 ''/a/b'' (Id_t 1) [])],
     id_by_name := [(''/a'', Id_t 1), (''/a/b'', Id_t 2)],
     mboxes := [(Id_t 1, 0), (Id_t 2, 1)], next_mb := 2, next_result := 2\<rparr>"

lemmas demo_defs = demo_ctx_def demo_parent_def demo_family_def demo_tm_def demo_tp_def demo_desc_def
  demo_obj_def demo_uc_def defparams_def context_pools_def USER_def SYSTEM_def

lemma demo_ctx_new: "context_new True defparams ''demo'' 0 () = Inr (demo_ctx, 0)"
  by (simp add: demo_defs context_new_def context_name_def thread_manager_new_def threads_pool_new_def)

lemmas add_defs = add_actor_def add_actor_under_def fetch_next_id_def read_parent_def with_shared_def
  install_actor_def user_context_new_def ensure_def call_on_init_def vt_of_def base_vtable_def
  base_on_init_def library_class_def register_actor_run registered_def add_child_def Let_def
  user_post_def post_task_def tm_post_def pool_post_def push_task_def wrap_task_def base_actor_new_def
  set_context_def set_self_addr_def usercontext_name_def string_of_nat.simps null_pathname_def seqM_def

lemma demo_parent_run:
  "add_actor base_vtable ''a'' 0 demo_ctx = (Inr (address_of (Id_t 1) ''/a''), demo_parent)"
  by (simp add: demo_defs add_defs fun_eq_iff)

lemma demo_family_run:
  "add_actor_under base_vtable ''b'' (address_of (Id_t 1) ''/a'') 1 demo_parent =
     (Inr (address_of (Id_t 2) ''/a/b''), demo_family)"
  by (simp add: demo_defs add_defs fun_eq_iff)

lemma demo_ctx_can_add: "can_add address_default ''a'' demo_ctx"
  by code_simp

lemma demo_parent_can_add: "can_add (address_of (Id_t 1) ''/a'') ''b'' demo_parent"
  by code_simp

lemma demo_parent_inv: "ctx_inv demo_parent"
  using ctx_inv_add [OF base_vtable_quiet context_new_inv [OF demo_ctx_new] demo_ctx_can_add, of 0]
    demo_parent_run by (simp add: add_actor_def)

lemma demo_family_inv: "ctx_inv demo_family"
  using ctx_inv_add [OF base_vtable_quiet demo_parent_inv demo_parent_can_add, of 1]
    demo_family_run by simp

section \<open>Properties\<close>

text \<open>
  C2: \<^verbatim>\<open>add_actor\<close>, with any quiet \<^verbatim>\<open>on_init\<close>, on a context that satisfies its invariant: it returns the address
  made of the next identifier, which nobody had, and the parent's path extended by the actor's name; it
  refines the abstract insertion, so no other member and no inbox changes; the actor's \<^verbatim>\<open>on_start\<close> is posted
  last in the user queue; the invariant holds again.
\<close>

theorem add_actor_refines:
  assumes "quiet_vtable vt" and "ctx_inv s" and "can_add parent nm s"
  shows "\<exists>s'. add_actor_under vt nm parent a s =
      (Inr (address_of (Id_t (next_actor_id s)) (path_under parent nm s)), s') \<and>
    members (abs_ctx s) (Id_t (next_actor_id s)) = None \<and>
    abs_ctx s' = spec_add (Id_t (next_actor_id s)) a (path_under parent nm s)
      (if parent_desc parent s = None then id_default else aa_id (effective_parent parent s)) (abs_ctx s) \<and>
    user_queue s' = user_queue s @ [T_on_start a] \<and> ctx_inv s'"
proof (rule add_actor_under_run [OF assms(1,3), of a])
  fix st s1 m'
  assume run: "add_actor_under vt nm parent a s =
      (Inr (address_of (Id_t (next_actor_id s)) (path_under parent nm s)),
       (registered (Id_t (next_actor_id s)) (new_desc parent nm a st s) (parent_desc parent s \<noteq> None) s1)
         \<lparr>cx_tm := Some m', next_result := Suc (next_result s)\<rparr>)"
    and uq: "user_queue (snd (add_actor_under vt nm parent a s)) = user_queue s @ [T_on_start a]"
  have "members (abs_ctx s) (Id_t (next_actor_id s)) = None"
    using fresh_actor_None [OF new_desc_fresh [OF assms(2,3), of a st]] by simp
  with uq abs_add [OF assms, of a] ctx_inv_add [OF assms, of a] show ?thesis
    unfolding run by auto
qed

theorem add_actor_refines_witness:
  "\<exists>s'. add_actor_under base_vtable ''b'' (address_of (Id_t 1) ''/a'') 1 demo_parent =
      (Inr (address_of (Id_t 2) ''/a/b''), s') \<and>
    abs_ctx s' = spec_add (Id_t 2) 1 ''/a/b'' (Id_t 1) (abs_ctx demo_parent) \<and>
    user_queue s' = [T_on_start 0, T_on_start 1]"
proof -
  have v: "next_actor_id demo_parent = 2" "path_under (address_of (Id_t 1) ''/a'') ''b'' demo_parent = ''/a/b''"
    "parent_desc (address_of (Id_t 1) ''/a'') demo_parent \<noteq> None"
    "aa_id (effective_parent (address_of (Id_t 1) ''/a'') demo_parent) = Id_t 1"
    "user_queue demo_parent = [T_on_start 0]" by code_simp+
  from add_actor_refines [OF base_vtable_quiet demo_parent_inv demo_parent_can_add, of 1] show ?thesis
    unfolding v(1,2,4,5) using v(3) by auto
qed

text \<open>
  C14: a new actor can be found at once: by its path name, which yields the address \<^verbatim>\<open>add_actor\<close> returned, and
  by that address and by name, which yield the actor object. The lookups leave the context unchanged.
\<close>

theorem add_then_lookup:
  assumes "quiet_vtable vt" and "ctx_inv s" and "can_add parent nm s"
    and "add_actor_under vt nm parent a s = (Inr addr, s')"
  shows "get_address (path_under parent nm s) s' = (Inr addr, s') \<and>
    get_actor addr s' = (Inr (Some a), s') \<and>
    get_actor_by_name (path_under parent nm s) s' = (Inr (Some a), s')"
proof (rule add_actor_under_run [OF assms(1,3), of a])
  fix st s1 m'
  let ?d = "new_desc parent nm a st s" and ?i = "Id_t (next_actor_id s)"
  assume q: "quiet_change (s\<lparr>next_actor_id := next_actor_id s + 1\<rparr>) s1"
    and run: "add_actor_under vt nm parent a s =
      (Inr (address_of ?i (path_under parent nm s)), (registered ?i ?d (parent_desc parent s \<noteq> None) s1)
         \<lparr>cx_tm := Some m', next_result := Suc (next_result s)\<rparr>)"
  from run assms(4) have addr: "addr = d_address ?d" and s': "s' =
      (registered ?i ?d (parent_desc parent s \<noteq> None) s1)
         \<lparr>cx_tm := Some m', next_result := Suc (next_result s)\<rparr>" by auto
  have "cx_lock s' = Unlocked"
    using s' quiet_change_sel(10) [OF q] assms(3) by (simp add: can_add_def)
  moreover have "actor_at s' ?i = Some ?d" "map_of (id_by_name s') (path_under parent nm s) = Some ?i"
    by (simp_all add: s' actor_at_registered)
  ultimately show ?thesis
    using cx_lock_idem [of s' Unlocked]
    by (simp add: get_address_def get_actor_def get_actor_by_name_def with_shared_def addr)
qed

theorem add_then_lookup_witness:
  "get_address ''/a/b'' demo_family = (Inr (address_of (Id_t 2) ''/a/b''), demo_family) \<and>
   get_actor (address_of (Id_t 2) ''/a/b'') demo_family = (Inr (Some 1), demo_family) \<and>
   get_actor_by_name ''/a/b'' demo_family = (Inr (Some 1), demo_family)"
proof -
  from add_then_lookup [OF base_vtable_quiet demo_parent_inv demo_parent_can_add demo_family_run]
  have "get_address (path_under (address_of (Id_t 1) ''/a'') ''b'' demo_parent) demo_family =
      (Inr (address_of (Id_t 2) ''/a/b''), demo_family) \<and>
    get_actor (address_of (Id_t 2) ''/a/b'') demo_family = (Inr (Some 1), demo_family) \<and>
    get_actor_by_name (path_under (address_of (Id_t 1) ''/a'') ''b'' demo_parent) demo_family =
      (Inr (Some 1), demo_family)" .
  moreover have "path_under (address_of (Id_t 1) ''/a'') ''b'' demo_parent = ''/a/b''" by code_simp
  ultimately show ?thesis by simp
qed

text \<open>
  C3: both overloads of \<^verbatim>\<open>send_envelope\<close> refine the abstract send: the envelope is appended to the inbox of
  the addressee and to no other, or dropped without an error when the addressee is not registered.
\<close>

theorem send_refines:
  assumes "ctx_inv s" and "may_send target e s"
  shows "\<exists>s'. send_envelope target e s = (Inr (), s') \<and> send_envelope_rv target e s = (Inr (), s') \<and>
    abs_ctx s' = spec_send (aa_id target) e (abs_ctx s) \<and> ctx_inv s' \<and>
    (members (abs_ctx s) (aa_id target) = None \<longrightarrow> s' = s)"
proof -
  note run = send_envelope_run [OF assms(2)]
  have "mbox_at s (aa_id target) = None" if "actor_at s (aa_id target) = None"
    using ctx_invD(4) [OF assms(1)] that unfolding inv_boxes_def by (metis domIff)
  moreover have "ctx_inv (snd (send_envelope target e s))"
    using preserves_snd [OF preserves_send(1) assms(1)] .
  ultimately show ?thesis
    using abs_send [OF assms] by (auto simp: send_envelope_rv_eq run split: option.splits)
qed

theorem send_refines_witness:
  "\<exists>s'. send_envelope (address_of (Id_t 2) ''/a/b'') \<lparr>payload = payload_of (V_int 5), sender = address_default\<rparr>
      demo_family = (Inr (), s') \<and>
    inbox (abs_ctx s') (Id_t 2) = Some [\<lparr>payload = payload_of (V_int 5), sender = address_default\<rparr>]"
proof -
  let ?e = "\<lparr>payload = payload_of (V_int 5), sender = address_default\<rparr>"
  have "may_send (address_of (Id_t 2) ''/a/b'') ?e demo_family" by code_simp
  from send_refines [OF demo_family_inv this(1)] obtain s' where
    "send_envelope (address_of (Id_t 2) ''/a/b'') ?e demo_family = (Inr (), s')"
    and "abs_ctx s' = spec_send (Id_t 2) ?e (abs_ctx demo_family)" unfolding address_sel by blast
  moreover have "inbox (spec_send (Id_t 2) ?e (abs_ctx demo_family)) (Id_t 2) = Some [?e]" by code_simp
  ultimately show ?thesis by metis
qed

text \<open>
  C1: \<^verbatim>\<open>stop_actor\<close> terminates and refines the abstract removal: exactly the actor and its registered
  descendants leave the registry, with their mailboxes; every other member keeps its object, path, parent
  and inbox; the invariant holds again. Stopping an address that is not registered changes nothing.
\<close>

theorem stop_actor_refines:
  assumes "quiet_vtable vt" and "ctx_inv s" and "cx_lock s = Unlocked"
  shows "\<exists>s'. stop_actor vt addr s = (Inr (), s') \<and>
    abs_ctx s' = spec_stop (aa_id addr) (abs_ctx s) \<and> ctx_inv s'"
proof -
  from quiet_callbacks.stop_actor_impl_safety_stops
    [OF quiet_callbacks.intro [OF assms(1)] ctx_invD(2) [OF assms(2)] assms(3),
     of "address_of_id (aa_id addr)" MANUAL]
  obtain s' where "stop_actor vt addr s = (Inr (), s')" "stops (subtree (actor_at s) (aa_id addr)) s s'"
    unfolding stop_actor_def by auto
  then show ?thesis using abs_stops ctx_inv_stops [OF assms(2)] by blast
qed

theorem stop_actor_refines_witness:
  "\<exists>s'. stop_actor base_vtable (address_of (Id_t 1) ''/a'') demo_family = (Inr (), s') \<and>
    abs_ctx s' = spec_stop (Id_t 1) (abs_ctx demo_family) \<and> ctx_inv s' \<and>
    members (abs_ctx demo_family) (Id_t 2) = Some (1, ''/a/b'', Id_t 1) \<and> members (abs_ctx s') (Id_t 2) = None"
proof -
  have lock: "cx_lock demo_family = Unlocked" by code_simp
  have m: "members (abs_ctx demo_family) (Id_t 1) = Some (0, ''/a'', id_default)"
    "members (abs_ctx demo_family) (Id_t 2) = Some (1, ''/a/b'', Id_t 1)" by code_simp+
  then have "descends (members (abs_ctx demo_family)) (Id_t 1) (Id_t 2)"
    by (blast intro: descends.intros)
  then have "members (spec_stop (Id_t 1) (abs_ctx demo_family)) (Id_t 2) = None"
    by (simp add: spec_stop_def del: abs_ctx_sel)
  with stop_actor_refines [OF base_vtable_quiet demo_family_inv lock, of "address_of (Id_t 1) ''/a''"] m(2)
  show ?thesis unfolding address_sel by metis
qed

end
