(* ===== verification/Yaaf_Exchange.thy ===== *)
theory Yaaf_Exchange
  imports Yaaf_Registry
begin

text \<open>
  Exchanges, the named topics of a context (\<^verbatim>\<open>context.cpp\<close>, \<^verbatim>\<open>create_exchange\<close> to \<^verbatim>\<open>exchange_exists\<close>), and the
  first part of \<^verbatim>\<open>mailbox_worker\<close>, which moves published envelopes into the mailboxes of the subscribers.
\<close>

section \<open>Operations\<close>

definition create_exchange_unsafe :: "actor_address \<Rightarrow> string \<Rightarrow> ('u ctx, unit) cpp" where
  "create_exchange_unsafe owner name =
     bindM (getM (\<lambda>s. map_of (exchanges s) name)) (\<lambda>it. case it of
       Some _ \<Rightarrow> retM ()
     | None \<Rightarrow> bindM new_mailbox (\<lambda>m. modM (\<lambda>s. s\<lparr>exchanges := AList.update name
         \<lparr>ex_subscribes = [], ex_owner = owner, ex_pub = m\<rparr> (exchanges s)\<rparr>)))"

definition create_exchange :: "actor_address \<Rightarrow> string \<Rightarrow> ('u ctx, unit) cpp" where
  "create_exchange owner name = with_xexcl (create_exchange_unsafe owner name)"

text \<open>
  Subscribing takes both mutexes. An exchange that does not exist is created and owned by the subscriber;
  only a registered actor is entered, once more each time it subscribes.
\<close>

definition add_subscriber :: "string \<Rightarrow> id_t \<Rightarrow> 'u ctx \<Rightarrow> 'u ctx" where
  "add_subscriber name i s = (case map_of (exchanges s) name of
       None \<Rightarrow> s
     | Some x \<Rightarrow>
         s\<lparr>exchanges := AList.update name (x\<lparr>ex_subscribes := ex_subscribes x @ [i]\<rparr>) (exchanges s)\<rparr>)"

definition subscribe_to_exchange :: "actor_address \<Rightarrow> string \<Rightarrow> ('u ctx, unit) cpp" where
  "subscribe_to_exchange target name = with_xexcl (with_excl
     (bindM (getM (\<lambda>s. map_of (exchanges s) name)) (\<lambda>eit.
      seqM (whenM (eit = None) (create_exchange_unsafe target name))
      (bindM (getM (\<lambda>s. actor_at s (aa_id target))) (\<lambda>ait.
         whenM (ait \<noteq> None) (modM (add_subscriber name (aa_id target))))))))"

definition publish_to_exchange_rv :: "string \<Rightarrow> envelope \<Rightarrow> ('u ctx, unit) cpp" where
  "publish_to_exchange_rv exchange e = with_xshared
     (bindM (getM (\<lambda>s. map_of (exchanges s) exchange)) (\<lambda>eit. case eit of
        None \<Rightarrow> retM ()
      | Some x \<Rightarrow> mb_push (ex_pub x) e))"

definition publish_to_exchange :: "string \<Rightarrow> envelope \<Rightarrow> ('u ctx, unit) cpp" where
  "publish_to_exchange exchange e = publish_to_exchange_rv exchange e"

definition exchange_exists :: "string \<Rightarrow> ('u ctx, bool) cpp" where
  "exchange_exists name = with_xshared (getM (\<lambda>s. map_of (exchanges s) name \<noteq> None))"

text \<open>The two private overrides without an owner do nothing.\<close>

definition create_exchange_noop :: "string \<Rightarrow> ('u ctx, unit) cpp" where
  "create_exchange_noop name = retM ()"

definition subscribe_to_exchange_noop :: "string \<Rightarrow> ('u ctx, unit) cpp" where
  "subscribe_to_exchange_noop name = retM ()"

section \<open>Delivery\<close>

text \<open>
  One envelope goes to every subscriber that still has a mailbox; it is also copied into a local
  envelope that nobody reads. The loop over an exchange's envelopes is bounded by its first argument.
\<close>

definition deliver_to :: "envelope \<Rightarrow> id_t \<Rightarrow> ('u ctx, unit) cpp" where
  "deliver_to e i = bindM (getM (\<lambda>s. mbox_at s i)) (\<lambda>mb. case mb of
       None \<Rightarrow> retM ()
     | Some m \<Rightarrow>
         bindM (liftM (payload_assign payload_default (payload e))) (\<lambda>_. mb_push m e))"

fun deliver_loop :: "nat \<Rightarrow> exchange_t \<Rightarrow> ('u ctx, unit) cpp" where
  "deliver_loop 0 x = faultM Unbounded"
| "deliver_loop (Suc n) x = bindM (mb_try_pop (ex_pub x)) (\<lambda>r. case r of
     None \<Rightarrow> retM ()
   | Some e \<Rightarrow> seqM (forM (ex_subscribes x) (deliver_to e)) (deliver_loop n x))"

fun deliver_exchange :: "string \<times> exchange_t \<Rightarrow> ('u ctx, unit) cpp" where
  "deliver_exchange (name, x) = (\<lambda>s. deliver_loop (Suc (length (queue_at s (ex_pub x)))) x s)"

definition deliver_exchanges :: "('u ctx, unit) cpp" where
  "deliver_exchanges = bindM (getM exchanges) (\<lambda>xs. forM xs deliver_exchange)"

section \<open>Creating and subscribing\<close>

text \<open>The state after an exchange was created, if it did not exist.\<close>

definition with_exchange :: "actor_address \<Rightarrow> string \<Rightarrow> 'u ctx \<Rightarrow> 'u ctx" where
  "with_exchange owner name s = (case map_of (exchanges s) name of
       Some _ \<Rightarrow> s
     | None \<Rightarrow> s\<lparr>mbs := (mbs s)(next_mb s := mailbox_new), next_mb := Suc (next_mb s),
         exchanges := AList.update name
           \<lparr>ex_subscribes = [], ex_owner = owner, ex_pub = next_mb s\<rparr> (exchanges s)\<rparr>)"

lemma create_exchange_unsafe_app [simp]:
  "create_exchange_unsafe owner name s = (Inr (), with_exchange owner name s)"
  by (simp add: create_exchange_unsafe_def with_exchange_def new_mailbox_def bindM_def
      split: option.splits)

lemma with_exchange_sel [simp]:
  "actors (with_exchange o' n s) = actors s" "mboxes (with_exchange o' n s) = mboxes s"
  "id_by_name (with_exchange o' n s) = id_by_name s" "cx_lock (with_exchange o' n s) = cx_lock s"
  "cx_xlock (with_exchange o' n s) = cx_xlock s" "next_actor_id (with_exchange o' n s) = next_actor_id s"
  by (simp_all add: with_exchange_def split: option.splits)

lemma with_exchange_same: "map_of (exchanges s) n \<noteq> None \<Longrightarrow> with_exchange o' n s = s"
  by (auto simp: with_exchange_def)

lemma with_exchange_locks [simp]:
  "with_exchange o' n (s\<lparr>cx_lock := l\<rparr>) = (with_exchange o' n s)\<lparr>cx_lock := l\<rparr>"
  "with_exchange o' n (s\<lparr>cx_xlock := l\<rparr>) = (with_exchange o' n s)\<lparr>cx_xlock := l\<rparr>"
  by (simp_all add: with_exchange_def split: option.splits)

lemma add_subscriber_sel [simp]:
  "actors (add_subscriber n i s) = actors s" "mboxes (add_subscriber n i s) = mboxes s"
  "id_by_name (add_subscriber n i s) = id_by_name s" "cx_lock (add_subscriber n i s) = cx_lock s"
  "cx_xlock (add_subscriber n i s) = cx_xlock s" "next_actor_id (add_subscriber n i s) = next_actor_id s"
  "mbs (add_subscriber n i s) = mbs s" "next_mb (add_subscriber n i s) = next_mb s"
  "add_subscriber n i (s\<lparr>cx_lock := l\<rparr>) = (add_subscriber n i s)\<lparr>cx_lock := l\<rparr>"
  "add_subscriber n i (s\<lparr>cx_xlock := l\<rparr>) = (add_subscriber n i s)\<lparr>cx_xlock := l\<rparr>"
  by (simp_all add: add_subscriber_def split: option.splits)

lemma create_exchange_run:
  "cx_xlock s = Unlocked \<Longrightarrow> create_exchange owner name s = (Inr (), with_exchange owner name s)"
  using cx_xlock_idem [of "with_exchange owner name s" Unlocked]
  by (simp add: create_exchange_def with_xexcl_def)

lemma subscribe_run:
  assumes "unlocked s"
  shows "subscribe_to_exchange target name s = (Inr (),
    (if actor_at s (aa_id target) = None then with_exchange target name s
     else add_subscriber name (aa_id target) (with_exchange target name s)))"
proof -
  let ?w = "with_exchange target name s"
  let ?body = "bindM (getM (\<lambda>s. map_of (exchanges s) name)) (\<lambda>eit.
      seqM (whenM (eit = None) (create_exchange_unsafe target name))
      (bindM (getM (\<lambda>s. actor_at s (aa_id target))) (\<lambda>ait.
         whenM (ait \<noteq> None) (modM (add_subscriber name (aa_id target))))))"
  have same: "?w = s" if "map_of (exchanges s) name = Some x" for x
    using that by (simp add: with_exchange_def)
  have body: "?body (s\<lparr>cx_xlock := Exclusive, cx_lock := Exclusive\<rparr>) = (Inr (),
      (if actor_at s (aa_id target) = None then ?w else add_subscriber name (aa_id target) ?w)
        \<lparr>cx_xlock := Exclusive, cx_lock := Exclusive\<rparr>)"
    by (cases "map_of (exchanges s) name"; cases "actor_at s (aa_id target)") (simp_all add: same)
  have "t\<lparr>cx_xlock := Unlocked, cx_lock := Unlocked\<rparr> = t" if "unlocked t" for t :: "'a ctx"
    using that by simp
  then show ?thesis
    using assms body by (simp add: subscribe_to_exchange_def with_xexcl_def with_excl_def)
qed

section \<open>The invariant\<close>

lemma inv_boxesD:
  assumes "inv_boxes s"
  shows "keys_of (mboxes s) = keys_of (actors s)" "mbox_at s i = Some m \<Longrightarrow> m < next_mb s"
    "mbox_at s i = Some m \<Longrightarrow> mbox_at s j = Some m \<Longrightarrow> i = j"
    "map_of (exchanges s) n = Some x \<Longrightarrow> ex_pub x < next_mb s"
    "map_of (exchanges s) n = Some x \<Longrightarrow> mbox_at s i \<noteq> Some (ex_pub x)"
    "map_of (exchanges s) n = Some x \<Longrightarrow> map_of (exchanges s) n' = Some x' \<Longrightarrow> ex_pub x = ex_pub x' \<Longrightarrow> n = n'"
  using assms unfolding inv_boxes_def by blast+

lemma inv_boxesI:
  assumes "keys_of (mboxes s) = keys_of (actors s)" and "\<And>i m. mbox_at s i = Some m \<Longrightarrow> m < next_mb s"
    and "\<And>i j m. mbox_at s i = Some m \<Longrightarrow> mbox_at s j = Some m \<Longrightarrow> i = j"
    and "\<And>n x. map_of (exchanges s) n = Some x \<Longrightarrow> ex_pub x < next_mb s"
    and "\<And>n x i. map_of (exchanges s) n = Some x \<Longrightarrow> mbox_at s i \<noteq> Some (ex_pub x)"
    and "\<And>n x n' x'. map_of (exchanges s) n = Some x \<Longrightarrow> map_of (exchanges s) n' = Some x' \<Longrightarrow>
      ex_pub x = ex_pub x' \<Longrightarrow> n = n'"
  shows "inv_boxes s"
  using assms unfolding inv_boxes_def by blast

lemma ctx_inv_exchanges:
  assumes inv: "ctx_inv s" and same: "actors s' = actors s" "mboxes s' = mboxes s" "id_by_name s' = id_by_name s"
      "next_actor_id s' = next_actor_id s"
    and "wf_map (exchanges s')" and "inv_boxes s'" and "inv_queues s'"
  shows "ctx_inv s'"
  using assms(6,7,8) inv unfolding ctx_inv_def inv_maps_def inv_ids_def inv_names_def same by blast

lemma ctx_inv_with_exchange:
  assumes inv: "ctx_inv s"
  shows "ctx_inv (with_exchange owner name s)"
proof (cases "map_of (exchanges s) name")
  case (Some x)
  then show ?thesis using inv by (simp add: with_exchange_def)
next
  case None
  note I = ctx_invD [OF inv] and D = inv_boxesD [OF ctx_invD(4) [OF inv]]
  let ?s = "with_exchange owner name s"
  have ex: "exchanges ?s = AList.update name \<lparr>ex_subscribes = [], ex_owner = owner, ex_pub = next_mb s\<rparr> (exchanges s)"
    and mb: "mbs ?s = (mbs s)(next_mb s := mailbox_new)" "next_mb ?s = Suc (next_mb s)"
    using None by (simp_all add: with_exchange_def)
  have old: "map_of (exchanges s) n = Some x \<and> ex_pub x < next_mb s \<or> n = name \<and> ex_pub x = next_mb s"
    if "map_of (exchanges ?s) n = Some x" for n x
    using that D(4) [of n x] by (auto simp: ex split: if_splits)
  have "inv_boxes ?s"
  proof (rule inv_boxesI)
    show "n = n'" if "map_of (exchanges ?s) n = Some x" "map_of (exchanges ?s) n' = Some x'" "ex_pub x = ex_pub x'"
      for n x n' x'
      using old [OF that(1)] old [OF that(2)] that(3) D(6) [of n x n' x'] by auto
    show "mbox_at ?s i \<noteq> Some (ex_pub x)" if "map_of (exchanges ?s) n = Some x" for n x i
      using old [OF that] D(2) [of i] D(5) [of n x i] by auto
    show "ex_pub x < next_mb ?s" if "map_of (exchanges ?s) n = Some x" for n x
      using old [OF that] mb by auto
    show "m < next_mb ?s" if "mbox_at ?s i = Some m" for i m using D(2) [of i m] that mb by simp
  qed (use D in auto)
  moreover have "inv_queues ?s" using I(6) by (simp add: inv_queues_def mb mailbox_new_def)
  moreover have "wf_map (exchanges ?s)" using I(1) by (simp add: inv_maps_def ex)
  ultimately show ?thesis by (intro ctx_inv_exchanges [OF inv]) simp_all
qed

lemma ctx_inv_add_subscriber:
  assumes inv: "ctx_inv s"
  shows "ctx_inv (add_subscriber name i s)"
proof (cases "map_of (exchanges s) name")
  case None
  then show ?thesis using inv by (simp add: add_subscriber_def)
next
  case (Some x0)
  note I = ctx_invD [OF inv] and D = inv_boxesD [OF ctx_invD(4) [OF inv]]
  let ?s = "add_subscriber name i s"
  have ex: "exchanges ?s = AList.update name (x0\<lparr>ex_subscribes := ex_subscribes x0 @ [i]\<rparr>) (exchanges s)"
    using Some by (simp add: add_subscriber_def)
  have old: "\<exists>y. map_of (exchanges s) n = Some y \<and> ex_pub y = ex_pub x" if "map_of (exchanges ?s) n = Some x" for n x
    using that Some by (auto simp: ex split: if_splits)
  have "inv_boxes ?s"
  proof (rule inv_boxesI)
    show "n = n'" if x: "map_of (exchanges ?s) n = Some x" "map_of (exchanges ?s) n' = Some x'" "ex_pub x = ex_pub x'"
      for n x n' x'
      using old [OF x(1)] old [OF x(2)] x(3) D(6) by metis
    show "mbox_at ?s i \<noteq> Some (ex_pub x)" if "map_of (exchanges ?s) n = Some x" for n x i
      using old [OF that] D(5) [of n _ i] by auto
    show "ex_pub x < next_mb ?s" if "map_of (exchanges ?s) n = Some x" for n x
      using old [OF that] D(4) [of n] by auto
  qed (use D in auto)
  moreover have "inv_queues ?s" using I(6) by (simp add: inv_queues_def)
  moreover have "wf_map (exchanges ?s)" using I(1) by (simp add: inv_maps_def ex)
  ultimately show ?thesis by (intro ctx_inv_exchanges [OF inv]) simp_all
qed

lemma preserves_exchange_ops [triple_intro]:
  "preserves ctx_inv (create_exchange owner name)" "preserves ctx_inv (subscribe_to_exchange target name)"
  "preserves ctx_inv (publish_to_exchange name e)" "preserves ctx_inv (exchange_exists name)"
proof -
  have c: "preserves ctx_inv (create_exchange_unsafe owner name)" for owner
    by (rule preservesI) (simp add: ctx_inv_with_exchange)
  have a: "preserves ctx_inv (modM (add_subscriber name i))" for i
    by (rule preservesI) (simp add: ctx_inv_add_subscriber)
  show "preserves ctx_inv (create_exchange owner name)"
    unfolding create_exchange_def by (intro triple_intro c)
  show "preserves ctx_inv (subscribe_to_exchange target name)"
    unfolding subscribe_to_exchange_def by (intro triple_intro c a)
  show "preserves ctx_inv (publish_to_exchange name e)" "preserves ctx_inv (exchange_exists name)"
    unfolding publish_to_exchange_def publish_to_exchange_rv_def exchange_exists_def
    by (intro triple_intro; assumption)+
qed

section \<open>What delivery does\<close>

text \<open>
  The envelopes an actor receives from an exchange: each published envelope as often as the actor has
  subscribed, in the order of publication.
\<close>

definition fan_out :: "id_t \<Rightarrow> id_t list \<Rightarrow> envelope list \<Rightarrow> envelope list" where
  "fan_out i subs es = concat (map (\<lambda>e. replicate (count_list subs i) e) es)"

lemma fan_out_simps [simp]:
  "fan_out i subs [] = []"
  "fan_out i subs (e # es) = replicate (count_list subs i) e @ fan_out i subs es"
  by (simp_all add: fan_out_def)

text \<open>
  \<open>delivers s s' pubs got\<close>: from \<open>s\<close> to \<open>s'\<close> the queues \<open>pubs\<close> were emptied and each actor's mailbox grew by what
  \<open>got\<close> says; nothing else changed.
\<close>

definition delivers :: "'u ctx \<Rightarrow> 'u ctx \<Rightarrow> mbox_ptr set \<Rightarrow> (id_t \<Rightarrow> envelope list) \<Rightarrow> bool" where
  "delivers s s' pubs got \<longleftrightarrow> (\<exists>f. s' = s\<lparr>mbs := f\<rparr> \<and>
     (\<forall>i m. mbox_at s i = Some m \<longrightarrow> dqueue (f m) = queue_at s m @ got i) \<and>
     (\<forall>m \<in> pubs. dqueue (f m) = []) \<and>
     (\<forall>m. m \<notin> pubs \<and> (\<forall>i. mbox_at s i \<noteq> Some m) \<longrightarrow> f m = mbs s m))"

lemma deliversI:
  "s' = s\<lparr>mbs := f\<rparr> \<Longrightarrow> (\<And>i m. mbox_at s i = Some m \<Longrightarrow> dqueue (f m) = queue_at s m @ got i) \<Longrightarrow>
   (\<And>m. m \<in> pubs \<Longrightarrow> dqueue (f m) = []) \<Longrightarrow>
   (\<And>m. m \<notin> pubs \<Longrightarrow> (\<And>i. mbox_at s i \<noteq> Some m) \<Longrightarrow> f m = mbs s m) \<Longrightarrow> delivers s s' pubs got"
  unfolding delivers_def by blast

lemma delivers_refl: "delivers s s {} (\<lambda>_. [])"
  by (rule deliversI [where f = "mbs s"]) simp_all

lemma delivers_trans:
  assumes 1: "delivers s t P g" and 2: "delivers t u Q h" and dis: "\<And>i m. mbox_at s i = Some m \<Longrightarrow> m \<notin> P"
  shows "delivers s u (P \<union> Q) (\<lambda>i. g i @ h i)"
proof -
  from 1 obtain f where f: "t = s\<lparr>mbs := f\<rparr>" "\<And>i m. mbox_at s i = Some m \<Longrightarrow> dqueue (f m) = queue_at s m @ g i"
    "\<And>m. m \<in> P \<Longrightarrow> dqueue (f m) = []" "\<And>m. m \<notin> P \<Longrightarrow> (\<forall>i. mbox_at s i \<noteq> Some m) \<Longrightarrow> f m = mbs s m"
    unfolding delivers_def by blast
  from 2 obtain k where k: "u = t\<lparr>mbs := k\<rparr>" "\<And>i m. mbox_at t i = Some m \<Longrightarrow> dqueue (k m) = queue_at t m @ h i"
    "\<And>m. m \<in> Q \<Longrightarrow> dqueue (k m) = []" "\<And>m. m \<notin> Q \<Longrightarrow> (\<forall>i. mbox_at t i \<noteq> Some m) \<Longrightarrow> k m = mbs t m"
    unfolding delivers_def by blast
  show ?thesis
  proof (rule deliversI [where f = k])
    show "u = s\<lparr>mbs := k\<rparr>" using f(1) k(1) by simp
    show "dqueue (k m) = queue_at s m @ g i @ h i" if "mbox_at s i = Some m" for i m
      using f(1) f(2) [OF that] k(2) [of i m] that by simp
    show "dqueue (k m) = []" if m: "m \<in> P \<union> Q" for m
    proof (cases "m \<in> Q")
      case False
      then have "m \<in> P" "\<forall>i. mbox_at t i \<noteq> Some m" using m dis f(1) by auto
      then show ?thesis using k(4) [OF False] f(1,3) by simp
    qed (use k(3) in simp)
    show "k m = mbs s m" if "m \<notin> P \<union> Q" "\<And>i. mbox_at s i \<noteq> Some m" for m
      using f(1) f(4) [of m] k(4) [of m] that by simp
  qed
qed

lemma delivers_sel:
  assumes "delivers s t P g"
  shows "mboxes t = mboxes s" "exchanges t = exchanges s" "actors t = actors s" "next_mb t = next_mb s"
    "mbox_at s i = Some m \<Longrightarrow> queue_at t m = queue_at s m @ g i"
    "m \<in> P \<Longrightarrow> queue_at t m = []"
    "m \<notin> P \<Longrightarrow> (\<And>i. mbox_at s i \<noteq> Some m) \<Longrightarrow> mbs t m = mbs s m"
  using assms unfolding delivers_def by auto

text \<open>Mailboxes are not shared between actors.\<close>

definition own_boxes :: "'u ctx \<Rightarrow> bool" where
  "own_boxes s \<longleftrightarrow> (\<forall>i j m. mbox_at s i = Some m \<and> mbox_at s j = Some m \<longrightarrow> i = j)"

lemma own_boxes_delivers: "delivers s t P g \<Longrightarrow> own_boxes t = own_boxes s"
  by (simp add: own_boxes_def delivers_sel(1))

lemma deliver_to_delivers:
  assumes own: "own_boxes s" and e: "sendable e"
  shows "\<exists>s'. deliver_to e i s = (Inr (), s') \<and> delivers s s' {} (\<lambda>j. if j = i then [e] else [])"
proof (cases "mbox_at s i")
  case None
  have "delivers s s {} (\<lambda>j. if j = i then [e] else [])"
    by (rule deliversI [where f = "mbs s"]) (use None in auto)
  then show ?thesis using None by (simp add: deliver_to_def)
next
  case (Some m)
  let ?f = "(mbs s)(m := (mbs s m)\<lparr>dqueue := queue_at s m @ [e]\<rparr>)"
  obtain p where "payload_assign payload_default (payload e) = Inr p"
    using e by (cases "payload e") (auto simp: sendable_def payload_empty_def)
  then have "deliver_to e i s = (Inr (), s\<lparr>mbs := ?f\<rparr>)"
    using Some e by (simp add: deliver_to_def)
  moreover have "delivers s (s\<lparr>mbs := ?f\<rparr>) {} (\<lambda>j. if j = i then [e] else [])"
    by (rule deliversI [where f = ?f]) (use own Some in \<open>auto simp: own_boxes_def\<close>)
  ultimately show ?thesis by blast
qed

lemma delivers_cong:
  "delivers s s' P g \<Longrightarrow> P = Q \<Longrightarrow> (\<And>i. g i = h i) \<Longrightarrow> delivers s s' Q h"
  by (simp add: delivers_def)

lemma deliver_all_delivers:
  assumes e: "sendable e"
  shows "own_boxes s \<Longrightarrow> \<exists>s'. forM subs (deliver_to e) s = (Inr (), s') \<and>
    delivers s s' {} (\<lambda>i. replicate (count_list subs i) e)"
proof (induction subs arbitrary: s)
  case Nil
  then show ?case using delivers_refl by auto
next
  case (Cons i subs)
  from deliver_to_delivers [OF Cons.prems e] obtain s1 where
    s1: "deliver_to e i s = (Inr (), s1)" and d1: "delivers s s1 {} (\<lambda>j. if j = i then [e] else [])" by blast
  have "own_boxes s1" using own_boxes_delivers [OF d1] Cons.prems by simp
  from Cons.IH [OF this] obtain s2 where
    s2: "forM subs (deliver_to e) s1 = (Inr (), s2)"
    and d2: "delivers s1 s2 {} (\<lambda>i. replicate (count_list subs i) e)" by blast
  have "delivers s s2 {} (\<lambda>j. replicate (count_list (i # subs) j) e)"
    by (rule delivers_cong [OF delivers_trans [OF d1 d2]]) auto
  then show ?case using s1 s2 by auto
qed

lemma ctx_mbs_twice: "s1 = s\<lparr>mbs := g\<rparr> \<Longrightarrow> s1\<lparr>mbs := f\<rparr> = s\<lparr>mbs := f\<rparr>" for s1 s :: "'u ctx"
  by simp

lemma deliver_pop:
  assumes "queue_at s m = e # es" and "sendable e" and "\<And>i. mbox_at s i \<noteq> Some m"
  obtains s1 where "mb_try_pop m s = (Inr (Some e), s1)" and "queue_at s1 m = es"
    and "mboxes s1 = mboxes s" and "\<And>m'. m' \<noteq> m \<Longrightarrow> mbs s1 m' = mbs s m'"
    and "s1 = s\<lparr>mbs := mbs s1\<rparr>"
  using assms by (intro that [of "s\<lparr>mbs := (mbs s)(m := (mbs s m)\<lparr>dqueue := es\<rparr>)\<rparr>"]) simp_all

lemma deliver_loop_delivers:
  "own_boxes s \<Longrightarrow> (\<And>i. mbox_at s i \<noteq> Some (ex_pub x)) \<Longrightarrow> list_all sendable (queue_at s (ex_pub x)) \<Longrightarrow>
   length (queue_at s (ex_pub x)) < n \<Longrightarrow>
   \<exists>s'. deliver_loop n x s = (Inr (), s') \<and>
     delivers s s' {ex_pub x} (\<lambda>i. fan_out i (ex_subscribes x) (queue_at s (ex_pub x)))"
proof (induction n arbitrary: s)
  case (Suc n)
  let ?p = "ex_pub x"
  show ?case
  proof (cases "queue_at s ?p")
    case Nil
    have "delivers s s {?p} (\<lambda>i. [])" by (rule deliversI [where f = "mbs s"]) (use Nil in auto)
    then show ?thesis using Nil by simp
  next
    case (Cons e es)
    then have e: "sendable e" using Suc.prems(3) by simp
    obtain s1 where pop: "mb_try_pop ?p s = (Inr (Some e), s1)" and q1: "queue_at s1 ?p = es"
      and b1: "mboxes s1 = mboxes s" and m1: "\<And>m'. m' \<noteq> ?p \<Longrightarrow> mbs s1 m' = mbs s m'"
      and u1: "s1 = s\<lparr>mbs := mbs s1\<rparr>"
      by (rule deliver_pop [OF Cons e Suc.prems(2)]) blast+
    have own1: "own_boxes s1" using Suc.prems(1) b1 by (simp add: own_boxes_def)
    from deliver_all_delivers [OF e own1] obtain s2 where
      s2: "forM (ex_subscribes x) (deliver_to e) s1 = (Inr (), s2)"
      and d2: "delivers s1 s2 {} (\<lambda>i. replicate (count_list (ex_subscribes x) i) e)" by blast
    have p1: "mbox_at s1 i \<noteq> Some ?p" for i using Suc.prems(2) b1 by simp
    have q2: "queue_at s2 ?p = es" using delivers_sel(7) [OF d2, of ?p] p1 q1 by simp
    have "\<exists>s'. deliver_loop n x s2 = (Inr (), s') \<and>
       delivers s2 s' {?p} (\<lambda>i. fan_out i (ex_subscribes x) (queue_at s2 ?p))"
      using Suc.prems own1 own_boxes_delivers [OF d2] delivers_sel(1) [OF d2] b1 Cons
      by (intro Suc.IH) (simp_all add: q2)
    then obtain s3 where s3: "deliver_loop n x s2 = (Inr (), s3)"
      and d3: "delivers s2 s3 {?p} (\<lambda>i. fan_out i (ex_subscribes x) es)" by (auto simp: q2)
    have d13: "delivers s1 s3 {?p} (\<lambda>i. fan_out i (ex_subscribes x) (e # es))"
      by (rule delivers_cong [OF delivers_trans [OF d2 d3]]) auto
    then obtain f where f: "s3 = s1\<lparr>mbs := f\<rparr>"
      "\<And>i m. mbox_at s1 i = Some m \<Longrightarrow> dqueue (f m) = queue_at s1 m @ fan_out i (ex_subscribes x) (e # es)"
      "dqueue (f ?p) = []" "\<And>m. m \<noteq> ?p \<Longrightarrow> (\<forall>i. mbox_at s1 i \<noteq> Some m) \<Longrightarrow> f m = mbs s1 m"
      unfolding delivers_def by auto
    have "delivers s s3 {?p} (\<lambda>i. fan_out i (ex_subscribes x) (e # es))"
    proof (rule deliversI [where f = f])
      show "s3 = s\<lparr>mbs := f\<rparr>" using f(1) u1 by (metis ctx_mbs_twice)
      show "dqueue (f m) = queue_at s m @ fan_out i (ex_subscribes x) (e # es)" if "mbox_at s i = Some m" for i m
        using f(2) [of i m] that b1 m1 [of m] Suc.prems(2) [of i] by auto
      show "f m = mbs s m" if "m \<notin> {?p}" "\<And>i. mbox_at s i \<noteq> Some m" for m
        using f(4) [of m] that b1 m1 [of m] by auto
    qed (use f(3) in simp)
    then show ?thesis using pop s2 s3 Cons by auto
  qed
qed simp

text \<open>What an actor receives from all exchanges, in the order in which they are visited.\<close>

definition fan_out_all :: "id_t \<Rightarrow> (string \<times> exchange_t) list \<Rightarrow> 'u ctx \<Rightarrow> envelope list" where
  "fan_out_all i xs s = concat (map (\<lambda>(n, x). fan_out i (ex_subscribes x) (queue_at s (ex_pub x))) xs)"

abbreviation pubs_of :: "(string \<times> exchange_t) list \<Rightarrow> mbox_ptr list" where
  "pubs_of xs \<equiv> map (ex_pub \<circ> snd) xs"

lemma fan_out_all_cong:
  "(\<And>m. m \<in> set (pubs_of xs) \<Longrightarrow> queue_at t m = queue_at s m) \<Longrightarrow> fan_out_all i xs t = fan_out_all i xs s"
  by (induction xs) (auto simp: fan_out_all_def)

lemma deliver_forM_delivers:
  "own_boxes s \<Longrightarrow> distinct (pubs_of xs) \<Longrightarrow>
   (\<And>m i. m \<in> set (pubs_of xs) \<Longrightarrow> mbox_at s i \<noteq> Some m \<and> list_all sendable (queue_at s m)) \<Longrightarrow>
   \<exists>s'. forM xs deliver_exchange s = (Inr (), s') \<and>
     delivers s s' (set (pubs_of xs)) (\<lambda>i. fan_out_all i xs s)"
proof (induction xs arbitrary: s)
  case Nil
  then show ?case using delivers_refl by (auto simp: fan_out_all_def)
next
  case (Cons nx xs)
  obtain n x where nx: "nx = (n, x)" by (cases nx)
  from deliver_loop_delivers [of s x "Suc (length (queue_at s (ex_pub x)))"] Cons.prems(1,3) obtain s1 where
    s1: "deliver_exchange nx s = (Inr (), s1)"
    and d1: "delivers s s1 {ex_pub x} (\<lambda>i. fan_out i (ex_subscribes x) (queue_at s (ex_pub x)))"
    by (auto simp: nx simp del: deliver_loop.simps)
  have same: "queue_at s1 m = queue_at s m" if "m \<in> set (pubs_of xs)" for m
  proof -
    have "m \<noteq> ex_pub x" using Cons.prems(2) that by (simp add: nx) blast
    then show ?thesis using delivers_sel(7) [OF d1, of m] Cons.prems(3) that by simp
  qed
  have "\<exists>s'. forM xs deliver_exchange s1 = (Inr (), s') \<and>
     delivers s1 s' (set (pubs_of xs)) (\<lambda>i. fan_out_all i xs s1)"
    using Cons.prems own_boxes_delivers [OF d1] delivers_sel(1) [OF d1] same
    by (intro Cons.IH) (simp_all add: nx)
  then obtain s2 where s2: "forM xs deliver_exchange s1 = (Inr (), s2)"
    and d2: "delivers s1 s2 (set (pubs_of xs)) (\<lambda>i. fan_out_all i xs s1)" by blast
  have "delivers s s2 ({ex_pub x} \<union> set (pubs_of xs))
      (\<lambda>i. fan_out i (ex_subscribes x) (queue_at s (ex_pub x)) @ fan_out_all i xs s1)"
    by (rule delivers_trans [OF d1 d2]) (use Cons.prems(3) in \<open>auto simp: nx\<close>)
  then have "delivers s s2 (set (pubs_of (nx # xs))) (\<lambda>i. fan_out_all i (nx # xs) s)"
  proof (rule delivers_cong)
    show "fan_out i (ex_subscribes x) (queue_at s (ex_pub x)) @ fan_out_all i xs s1 = fan_out_all i (nx # xs) s" for i
      using fan_out_all_cong [OF same, where i = i] by (simp add: nx fan_out_all_def)
  qed (simp add: nx)
  then show ?case using s1 s2 by auto
qed

lemma ctx_inv_pubs:
  assumes inv: "ctx_inv s"
  shows "own_boxes s" and "distinct (pubs_of (exchanges s))"
    and "m \<in> set (pubs_of (exchanges s)) \<Longrightarrow> mbox_at s i \<noteq> Some m \<and> list_all sendable (queue_at s m)"
proof -
  note D = inv_boxesD [OF ctx_invD(4) [OF inv]]
  have wf: "wf_map (exchanges s)" using ctx_invD(1) [OF inv] by (simp add: inv_maps_def)
  show "own_boxes s" using D(3) unfolding own_boxes_def by blast
  show "distinct (pubs_of (exchanges s))"
    unfolding distinct_map
  proof (intro conjI inj_onI)
    show "distinct (exchanges s)" using wf by (simp add: distinct_map)
    fix a b assume ab: "a \<in> set (exchanges s)" "b \<in> set (exchanges s)" "(ex_pub \<circ> snd) a = (ex_pub \<circ> snd) b"
    then have "map_of (exchanges s) (fst a) = Some (snd a)" "map_of (exchanges s) (fst b) = Some (snd b)"
      using wf by simp_all
    with D(6) ab(3) show "a = b" by (metis comp_apply option.inject prod_eqI)
  qed
  show "mbox_at s i \<noteq> Some m \<and> list_all sendable (queue_at s m)" if "m \<in> set (pubs_of (exchanges s))"
    using that wf D(5) ctx_invD(6) [OF inv] by (auto simp: inv_queues_def)
qed

lemma deliver_exchanges_delivers:
  assumes "ctx_inv s"
  shows "\<exists>s'. deliver_exchanges s = (Inr (), s') \<and>
    delivers s s' (set (pubs_of (exchanges s))) (\<lambda>i. fan_out_all i (exchanges s) s)"
  unfolding deliver_exchanges_def bindM_prims
  by (rule deliver_forM_delivers [OF ctx_inv_pubs [OF assms]])

lemma sendable_fan_out_all:
  assumes "\<And>m. list_all sendable (queue_at s m)"
  shows "list_all sendable (fan_out_all i xs s)"
  using assms by (auto simp: fan_out_all_def fan_out_def list_all_iff)

lemma ctx_inv_delivers:
  assumes inv: "ctx_inv s" and d: "delivers s s' P g" and g: "\<And>i. list_all sendable (g i)"
  shows "ctx_inv s'"
proof -
  from d obtain f where f: "s' = s\<lparr>mbs := f\<rparr>" unfolding delivers_def by blast
  have "list_all sendable (dqueue (f m))" for m
  proof (cases "\<exists>i. mbox_at s i = Some m")
    case True
    then obtain i where "mbox_at s i = Some m" by blast
    then show ?thesis using delivers_sel(5) [OF d, of i m] ctx_invD(6) [OF inv] g f by (simp add: inv_queues_def)
  next
    case False
    then show ?thesis
      using delivers_sel(6,7) [OF d, of m] ctx_invD(6) [OF inv] f by (cases "m \<in> P") (auto simp: inv_queues_def)
  qed
  then show ?thesis unfolding f by (rule ctx_inv_mbs [OF inv])
qed

section \<open>Properties\<close>

text \<open>
  C6: publishing and delivering: the worker's pass over the exchanges returns, empties every exchange, and
  appends to the mailbox of each registered actor exactly what was published to the exchanges it has
  subscribed to, in the order of publication and once per subscription; the registry, the exchanges and all
  other queues are unchanged and the invariant holds again.
\<close>

theorem exchange_delivery:
  assumes "ctx_inv s"
  shows "\<exists>s'. deliver_exchanges s = (Inr (), s') \<and> ctx_inv s' \<and>
    delivers s s' (set (pubs_of (exchanges s))) (\<lambda>i. fan_out_all i (exchanges s) s)"
proof -
  from deliver_exchanges_delivers [OF assms] obtain s' where s': "deliver_exchanges s = (Inr (), s')"
    and d: "delivers s s' (set (pubs_of (exchanges s))) (\<lambda>i. fan_out_all i (exchanges s) s)" by blast
  have "ctx_inv s'"
    using ctx_invD(6) [OF assms] by (intro ctx_inv_delivers [OF assms d] sendable_fan_out_all) (simp add: inv_queues_def)
  with s' d show ?thesis by blast
qed

text \<open>An example: \<^verbatim>\<open>/a/b\<close> subscribes twice to a new exchange, then one envelope is published.\<close>

definition demo_sub :: "unit ctx" where
  "demo_sub = demo_family\<lparr>next_mb := 3, exchanges := [(''t'', \<lparr>ex_subscribes = [Id_t 2, Id_t 2],
     ex_owner = address_of (Id_t 2) ''/a/b'', ex_pub = 2\<rparr>)]\<rparr>"

definition demo_msg :: envelope where
  "demo_msg = \<lparr>payload = payload_of (V_int 7), sender = address_default\<rparr>"

definition demo_pub :: "unit ctx" where
  "demo_pub = demo_sub\<lparr>mbs := (mbs demo_sub)(2 := \<lparr>dqueue = [demo_msg]\<rparr>)\<rparr>"

lemma demo_family_sel:
  "unlocked demo_family" "exchanges demo_family = []" "next_mb demo_family = 2" "mbs demo_family = (\<lambda>_. mailbox_new)"
  "actor_at demo_family (Id_t 2) = Some (demo_desc 1 2 ''/a/b'' (Id_t 1) [])" "mboxes demo_family = [(Id_t 1, 0), (Id_t 2, 1)]"
  by (simp_all add: demo_family_def demo_parent_def demo_ctx_def)

lemma demo_sub_run:
  "seqM (subscribe_to_exchange (address_of (Id_t 2) ''/a/b'') ''t'')
     (subscribe_to_exchange (address_of (Id_t 2) ''/a/b'') ''t'') demo_family = (Inr (), demo_sub)"
proof -
  let ?s1 = "demo_family\<lparr>next_mb := 3, exchanges := [(''t'', \<lparr>ex_subscribes = [Id_t 2],
     ex_owner = address_of (Id_t 2) ''/a/b'', ex_pub = 2\<rparr>)]\<rparr>"
  have "(mbs demo_family)(2 := mailbox_new) = mbs demo_family" by (simp add: demo_family_sel fun_eq_iff)
  then have "subscribe_to_exchange (address_of (Id_t 2) ''/a/b'') ''t'' demo_family = (Inr (), ?s1)"
    by (simp add: subscribe_run demo_family_sel with_exchange_def add_subscriber_def)
  moreover have "subscribe_to_exchange (address_of (Id_t 2) ''/a/b'') ''t'' ?s1 = (Inr (), demo_sub)"
    by (simp add: subscribe_run demo_family_sel with_exchange_def add_subscriber_def demo_sub_def)
  ultimately show ?thesis by simp
qed

lemma demo_sub_inv: "ctx_inv demo_sub"
proof -
  have "preserves ctx_inv (seqM (subscribe_to_exchange (address_of (Id_t 2) ''/a/b'') ''t'')
     (subscribe_to_exchange (address_of (Id_t 2) ''/a/b'') ''t''))" by (intro triple_intro)
  from preserves_snd [OF this demo_family_inv] show ?thesis by (simp add: demo_sub_run)
qed

lemma demo_pub_run: "publish_to_exchange ''t'' demo_msg demo_sub = (Inr (), demo_pub)"
  by (simp add: publish_to_exchange_def publish_to_exchange_rv_def with_xshared_def demo_pub_def demo_sub_def
      demo_family_sel demo_msg_def mailbox_new_def cx_xlock_idem)

lemma demo_pub_inv: "ctx_inv demo_pub"
  using preserves_snd [OF preserves_exchange_ops(3) demo_sub_inv, of "''t''" demo_msg] demo_pub_run by simp

theorem exchange_delivery_witness:
  "\<exists>s'. deliver_exchanges demo_pub = (Inr (), s') \<and> queue_at s' 1 = [demo_msg, demo_msg] \<and> queue_at s' 2 = []"
proof -
  from exchange_delivery [OF demo_pub_inv] obtain s' where s': "deliver_exchanges demo_pub = (Inr (), s')"
    and d: "delivers demo_pub s' (set (pubs_of (exchanges demo_pub))) (\<lambda>i. fan_out_all i (exchanges demo_pub) demo_pub)"
    by blast
  have "mbox_at demo_pub (Id_t 2) = Some 1" "2 \<in> set (pubs_of (exchanges demo_pub))"
    "queue_at demo_pub 1 @ fan_out_all (Id_t 2) (exchanges demo_pub) demo_pub = [demo_msg, demo_msg]"
    by (simp_all add: demo_pub_def demo_sub_def demo_family_sel mailbox_new_def fan_out_all_def)
  then show ?thesis using s' delivers_sel(5,6) [OF d] by metis
qed

text \<open>
  Subscribing creates a missing exchange, owned by the subscriber, and enters a registered subscriber at
  the end of the list; an actor that is not registered leaves at most the empty exchange behind. Creating
  an exchange that exists changes nothing. Both keep the invariant and return with the mutexes free.
\<close>

theorem subscribe_spec:
  assumes "ctx_inv s" and "unlocked s"
  shows "\<exists>s'. subscribe_to_exchange target name s = (Inr (), s') \<and> ctx_inv s' \<and> unlocked s' \<and>
    abs_ctx s' = abs_ctx s \<and>
    map_option (\<lambda>x. (ex_subscribes x, ex_owner x)) (map_of (exchanges s') name) =
      Some (case map_of (exchanges s) name of
          None \<Rightarrow> (if actor_at s (aa_id target) = None then [] else [aa_id target], target)
        | Some x \<Rightarrow> (if actor_at s (aa_id target) = None then ex_subscribes x
            else ex_subscribes x @ [aa_id target], ex_owner x)) \<and>
    create_exchange owner name s' = (Inr (), s')"
proof -
  note run = subscribe_run [OF assms(2), of target name]
  let ?w = "with_exchange target name s"
  let ?s' = "if actor_at s (aa_id target) = None then ?w else add_subscriber name (aa_id target) ?w"
  have "abs_ctx ?w = abs_ctx s"
  proof (cases "map_of (exchanges s) name")
    case None
    have "mbox_at s i \<noteq> Some (next_mb s)" for i
      using inv_boxesD(2) [OF ctx_invD(4) [OF assms(1)]] by blast
    then have "map_option (queue_at ?w) (mbox_at ?w i) = map_option (queue_at s) (mbox_at s i)" for i
      using None by (cases "mbox_at s i") (auto simp: with_exchange_def)
    then show ?thesis by (simp add: abs_ctx_def)
  qed (simp add: with_exchange_def)
  then have "abs_ctx ?s' = abs_ctx s" by (simp add: abs_ctx_def)
  moreover have "ctx_inv ?s'"
    using ctx_inv_with_exchange [OF assms(1), of target name]
      ctx_inv_add_subscriber [OF ctx_inv_with_exchange [OF assms(1), of target name]] by simp
  moreover have ex: "map_of (exchanges ?s') name \<noteq> None"
    by (auto simp: with_exchange_def add_subscriber_def split: option.splits)
  then have "create_exchange owner name ?s' = (Inr (), ?s')"
    using create_exchange_run [of ?s' owner name] with_exchange_same [of ?s' name owner] assms(2) by auto
  moreover have "unlocked ?s'" using assms(2) by simp
  moreover have "map_option (\<lambda>x. (ex_subscribes x, ex_owner x)) (map_of (exchanges ?s') name) =
      Some (case map_of (exchanges s) name of
          None \<Rightarrow> (if actor_at s (aa_id target) = None then [] else [aa_id target], target)
        | Some x \<Rightarrow> (if actor_at s (aa_id target) = None then ex_subscribes x
            else ex_subscribes x @ [aa_id target], ex_owner x))"
    by (auto simp: with_exchange_def add_subscriber_def split: option.splits)
  ultimately show ?thesis
    unfolding run by blast
qed

theorem subscribe_spec_witness:
  "\<exists>s'. subscribe_to_exchange (address_of (Id_t 2) ''/a/b'') ''t'' demo_family = (Inr (), s') \<and> ctx_inv s' \<and>
    map_option (\<lambda>x. (ex_subscribes x, ex_owner x)) (map_of (exchanges s') ''t'') =
      Some ([Id_t 2], address_of (Id_t 2) ''/a/b'')"
  using subscribe_spec [OF demo_family_inv demo_family_sel(1), of "address_of (Id_t 2) ''/a/b''" "''t''" address_default]
  by (auto simp: demo_family_sel simp del: abs_ctx_sel)

end
