(* ===== verification/Yaaf_Worker.thy ===== *)
theory Yaaf_Worker
  imports Yaaf_Exchange
begin

text \<open>
  The mailbox worker of a context (\<^verbatim>\<open>context.cpp\<close>, \<^verbatim>\<open>mailbox_worker\<close>), the task that repeats for ever in the system
  pool: it delivers what was published, posts an apply task for every idle actor with a filled mailbox,
  and drops exchanges nobody needs. The lemmas say exactly which tasks a pass posts.
\<close>

section \<open>The worker\<close>

text \<open>
  Whether each \<^verbatim>\<open>try_lock\<close> of a pass succeeds depends on the other threads; a pass takes the five outcomes
  as an argument, in the order of the code.
\<close>

record try_outcomes =
  o_xshared :: bool
  o_excl :: bool
  o_shared :: bool
  o_xexcl :: bool
  o_remove :: bool

text \<open>
  One mailbox: the result says whether the entry has no actor and is to be removed. \<^verbatim>\<open>_actors[parent]\<close> is
  dereferenced without a test.
\<close>

definition parent_actor :: "description \<Rightarrow> ('u ctx, actor_ptr option) cpp" where
  "parent_actor d =
     (if id_empty (d_parent d) then retM None
      else bindM (getM (\<lambda>s. actor_at s (d_parent d))) (\<lambda>pd. case pd of
        None \<Rightarrow> faultM NullDeref
      | Some p \<Rightarrow> retM (Some (d_actor p))))"

fun dispatch_one :: "id_t \<times> mbox_ptr \<Rightarrow> ('u ctx, bool) cpp" where
  "dispatch_one (i, m) = bindM (mb_is_empty m) (\<lambda>e.
     if e then retM False
     else bindM (getM (\<lambda>s. actor_at s i)) (\<lambda>it. case it of
       None \<Rightarrow> retM True
     | Some d \<Rightarrow> bindM (obj_try_lock (d_actor d)) (\<lambda>ok.
         if \<not> ok then retM False
         else bindM (mb_is_empty m) (\<lambda>e2.
           if e2 then seqM (upd_obj (d_actor d) reset_busy) (retM False)
           else bindM (parent_actor d) (\<lambda>parent.
             seqM (user_post (T_apply d parent m) SINGLE) (retM False))))))"

fun dispatch_all :: "(id_t \<times> mbox_ptr) list \<Rightarrow> ('u ctx, id_t list) cpp" where
  "dispatch_all [] = retM []"
| "dispatch_all (kv # kvs) = bindM (dispatch_one kv) (\<lambda>rm.
     bindM (dispatch_all kvs) (\<lambda>to_remove.
       retM (if rm then List.insert (fst kv) to_remove else to_remove)))"

text \<open>An exchange is dropped when neither its owner nor any subscriber is registered.\<close>

definition exchange_dead :: "'u ctx \<Rightarrow> exchange_t \<Rightarrow> bool" where
  "exchange_dead s x \<longleftrightarrow> \<not> actor_at s (aa_id (ex_owner x)) \<noteq> None \<and>
     \<not> list_ex (\<lambda>i. actor_at s i \<noteq> None) (ex_subscribes x)"

definition clean_exchanges :: "('u ctx, unit) cpp" where
  "clean_exchanges =
     bindM (getM (\<lambda>s. map fst (filter (\<lambda>(n, x). exchange_dead s x) (exchanges s)))) (\<lambda>ex_to_remove.
       forM ex_to_remove (\<lambda>n. modM (\<lambda>s. s\<lparr>exchanges := AList.delete n (exchanges s)\<rparr>)))"

definition remove_boxes :: "id_t list \<Rightarrow> ('u ctx, unit) cpp" where
  "remove_boxes to_remove = forM to_remove (\<lambda>i. modM (\<lambda>s. s\<lparr>mboxes := AList.delete i (mboxes s)\<rparr>))"

definition mailbox_worker :: "try_outcomes \<Rightarrow> ('u ctx, unit) cpp" where
  "mailbox_worker oc =
     seqM (whenM (o_xshared oc) (with_xshared (whenM (o_excl oc) (with_excl deliver_exchanges))))
     (if \<not> o_shared oc then retM ()
      else bindM (with_shared
          (bindM (getM mboxes) (\<lambda>kvs. bindM (dispatch_all kvs) (\<lambda>to_remove.
             seqM (whenM (o_xexcl oc) (with_xexcl clean_exchanges)) (retM to_remove)))))
        (\<lambda>to_remove. whenM (to_remove \<noteq> [] \<and> o_remove oc) (with_excl (remove_boxes to_remove))))"

section \<open>Which tasks a pass posts\<close>

text \<open>No two registered actors are the same object.\<close>

definition own_objects :: "'u ctx \<Rightarrow> bool" where
  "own_objects s \<longleftrightarrow> (\<forall>i j d e. actor_at s i = Some d \<and> actor_at s j = Some e \<and> d_actor d = d_actor e \<longrightarrow> i = j)"

definition parent_ptr :: "'u ctx \<Rightarrow> description \<Rightarrow> actor_ptr option" where
  "parent_ptr s d = (if d_parent d = id_default then None else map_option d_actor (actor_at s (d_parent d)))"

text \<open>The tasks due for a list of mailboxes: one for each filled mailbox of an actor that is not busy.\<close>

fun due :: "'u ctx \<Rightarrow> (id_t \<times> mbox_ptr) list \<Rightarrow> ctx_task list" where
  "due s [] = []"
| "due s ((i, m) # kvs) = (case actor_at s i of
       None \<Rightarrow> due s kvs
     | Some d \<Rightarrow> if queue_at s m \<noteq> [] \<and> \<not> busy (objs s (d_actor d))
         then T_apply d (parent_ptr s d) m # due s kvs else due s kvs)"

fun apply_actor :: "ctx_task \<Rightarrow> actor_ptr option" where
  "apply_actor (T_apply d p m) = Some (d_actor d)"
| "apply_actor _ = None"

definition due_actors :: "ctx_task list \<Rightarrow> actor_ptr set" where
  "due_actors ts = {p. Some p \<in> apply_actor ` set ts}"

text \<open>Marking actors as busy.\<close>

definition mark_busy :: "actor_ptr set \<Rightarrow> (actor_ptr \<Rightarrow> base_actor) \<Rightarrow> actor_ptr \<Rightarrow> base_actor" where
  "mark_busy P f p = (if p \<in> P then (f p)\<lparr>busy := True\<rparr> else f p)"

lemma obj_try_lock_app [simp]:
  "obj_try_lock p s = (Inr (\<not> busy (objs s p)), s\<lparr>objs := (objs s)(p := (objs s p)\<lparr>busy := True\<rparr>)\<rparr>)"
  by (simp add: obj_try_lock_def try_lock_eq)

lemma mb_is_empty_app [simp]: "mb_is_empty m s = (Inr (queue_at s m = []), s)"
  by (simp add: mb_is_empty_def mailbox_empty_def)

lemma parent_actor_run:
  assumes "reg_tree (actor_at s)" and "actor_at s i = Some d"
  shows "parent_actor d s = (Inr (parent_ptr s d), s)"
proof (cases "d_parent d = id_default")
  case False
  from reg_tree_parent [OF assms False] obtain pd where "actor_at s (d_parent d) = Some pd" by blast
  with False show ?thesis by (simp add: parent_actor_def parent_ptr_def)
qed (simp add: parent_actor_def parent_ptr_def)

lemma due_cong:
  assumes "actors s' = actors s" and "mbs s' = mbs s"
  shows "(\<forall>i \<in> fst ` set kvs. \<forall>d. actor_at s i = Some d \<longrightarrow>
      busy (objs s' (d_actor d)) = busy (objs s (d_actor d))) \<Longrightarrow> due s' kvs = due s kvs"
proof (induction kvs)
  case (Cons kv kvs)
  obtain i m where kv: "kv = (i, m)" by (cases kv)
  have IH: "due s' kvs = due s kvs" using Cons by simp
  show ?case
    using Cons.prems IH assms by (cases "actor_at s i") (auto simp: kv parent_ptr_def)
qed simp

lemma due_actors_simps [simp]:
  "due_actors [] = {}" "due_actors (T_apply d p m # ts) = insert (d_actor d) (due_actors ts)"
  by (auto simp: due_actors_def)

lemma due_actors_due: "p \<in> due_actors (due s kvs) \<Longrightarrow>
   \<not> busy (objs s p) \<and> (\<exists>(i, m) \<in> set kvs. \<exists>d. actor_at s i = Some d \<and> d_actor d = p)"
  by (induction kvs) (auto split: option.splits if_splits)

text \<open>The pass over a list of mailboxes, on a context that can post.\<close>

definition dispatched :: "'u ctx \<Rightarrow> 'u ctx \<Rightarrow> ctx_task list \<Rightarrow> bool" where
  "dispatched s s' ts \<longleftrightarrow> (\<exists>t n. s' = s\<lparr>objs := mark_busy (due_actors ts) (objs s), cx_tm := t, next_result := n\<rparr>) \<and>
     user_queue s' = user_queue s @ ts \<and> sys_queue s' = sys_queue s \<and> can_post s'"

lemma mark_busy_simps [simp]: "mark_busy {} f = f" "mark_busy P (mark_busy Q f) = mark_busy (P \<union> Q) f"
  by (auto simp: mark_busy_def fun_eq_iff)

lemma dispatched_refl: "can_post s \<Longrightarrow> dispatched s s []"
  unfolding dispatched_def by (auto intro!: exI [of _ "cx_tm s"] exI [of _ "next_result s"])

lemma due_actors_append: "due_actors (ts @ us) = due_actors us \<union> due_actors ts"
  by (auto simp: due_actors_def)

lemma dispatched_trans:
  assumes "dispatched s t ts" and "dispatched t u us"
  shows "dispatched s u (ts @ us)"
proof -
  from assms obtain tm n tm' n' where
    t: "t = s\<lparr>objs := mark_busy (due_actors ts) (objs s), cx_tm := tm, next_result := n\<rparr>"
    and u: "u = t\<lparr>objs := mark_busy (due_actors us) (objs t), cx_tm := tm', next_result := n'\<rparr>"
    unfolding dispatched_def by blast
  then have "u = s\<lparr>objs := mark_busy (due_actors (ts @ us)) (objs s), cx_tm := tm', next_result := n'\<rparr>"
    by (simp add: due_actors_append)
  then show ?thesis using assms unfolding dispatched_def by auto
qed

lemma dispatched_sel:
  assumes "dispatched s s' ts"
  shows "actors s' = actors s" "mboxes s' = mboxes s" "mbs s' = mbs s" "exchanges s' = exchanges s"
    "cx_lock s' = cx_lock s" "cx_xlock s' = cx_xlock s" "objs s' = mark_busy (due_actors ts) (objs s)"
    "id_by_name s' = id_by_name s" "next_actor_id s' = next_actor_id s" "next_mb s' = next_mb s"
    "user_queue s' = user_queue s @ ts" "sys_queue s' = sys_queue s" "can_post s'"
  using assms unfolding dispatched_def by auto

lemma dispatch_one_run:
  assumes tree: "reg_tree (actor_at s)" and cp: "can_post s" and i: "actor_at s i = Some d"
  shows "\<exists>s'. dispatch_one (i, m) s = (Inr False, s') \<and> dispatched s s' (due s [(i, m)])"
proof (cases "queue_at s m = [] \<or> busy (objs s (d_actor d))")
  case True
  have "(objs s)(d_actor d := (objs s (d_actor d))\<lparr>busy := True\<rparr>) = objs s" if "busy (objs s (d_actor d))"
    using that by (auto simp: fun_eq_iff)
  then have "dispatch_one (i, m) s = (Inr False, s)" using True i by auto
  then show ?thesis using True i dispatched_refl [OF cp] by auto
next
  case False
  let ?s1 = "s\<lparr>objs := (objs s)(d_actor d := (objs s (d_actor d))\<lparr>busy := True\<rparr>)\<rparr>"
  let ?t = "T_apply d (parent_ptr s d) m"
  have cp1: "can_post ?s1" using cp by (simp add: can_post_def)
  have pp: "parent_actor d ?s1 = (Inr (parent_ptr s d), ?s1)"
    using parent_actor_run [of ?s1 i d] tree i by (simp add: parent_ptr_def)
  from user_post_app [OF cp1, of ?t SINGLE] obtain r m' where
    post: "user_post ?t SINGLE ?s1 = (Inr r, ?s1\<lparr>cx_tm := Some m', next_result := Suc (next_result s)\<rparr>)"
    and q: "user_queue (?s1\<lparr>cx_tm := Some m', next_result := Suc (next_result s)\<rparr>) = user_queue ?s1 @ [?t]"
      "sys_queue (?s1\<lparr>cx_tm := Some m', next_result := Suc (next_result s)\<rparr>) = sys_queue ?s1"
      "can_post (?s1\<lparr>cx_tm := Some m', next_result := Suc (next_result s)\<rparr>)" by auto
  have mark: "(objs s)(d_actor d := (objs s (d_actor d))\<lparr>busy := True\<rparr>) = mark_busy (due_actors [?t]) (objs s)"
    by (auto simp: mark_busy_def)
  have uq: "user_queue ?s1 = user_queue s" "sys_queue ?s1 = sys_queue s"
    by (simp_all add: user_queue_def sys_queue_def)
  have "dispatch_one (i, m) s = (Inr False, ?s1\<lparr>cx_tm := Some m', next_result := Suc (next_result s)\<rparr>)"
    using False i pp post by (simp add: seqM_def bindM_def)
  moreover have "dispatched s (?s1\<lparr>cx_tm := Some m', next_result := Suc (next_result s)\<rparr>) [?t]"
    unfolding dispatched_def mark [symmetric] using q uq by auto
  ultimately show ?thesis using False i by auto
qed

lemma due_append: "due s (kvs @ kvs') = due s kvs @ due s kvs'"
  by (induction kvs) (auto split: option.splits)

lemma dispatch_all_run:
  "reg_tree (actor_at s) \<Longrightarrow> own_objects s \<Longrightarrow> can_post s \<Longrightarrow> wf_map kvs \<Longrightarrow>
   fst ` set kvs \<subseteq> keys_of (actors s) \<Longrightarrow>
   \<exists>s'. dispatch_all kvs s = (Inr [], s') \<and> dispatched s s' (due s kvs)"
proof (induction kvs arbitrary: s)
  case Nil
  then show ?case using dispatched_refl by auto
next
  case (Cons kv kvs)
  obtain i m where kv: "kv = (i, m)" by (cases kv)
  from Cons.prems(5) obtain d where i: "actor_at s i = Some d" by (auto simp: kv)
  from dispatch_one_run [OF Cons.prems(1,3) i, of m] obtain s1 where
    s1: "dispatch_one (i, m) s = (Inr False, s1)" and d1: "dispatched s s1 (due s [(i, m)])" by blast
  note sel = dispatched_sel [OF d1]
  have "busy (objs s1 (d_actor e)) = busy (objs s (d_actor e))"
    if "j \<in> fst ` set kvs" "actor_at s j = Some e" for j e
  proof -
    have "j \<noteq> i" using that(1) Cons.prems(4) by (auto simp: kv)
    then have "d_actor e \<noteq> d_actor d" using Cons.prems(2) that(2) i unfolding own_objects_def by blast
    then have "d_actor e \<notin> due_actors (due s [(i, m)])" using i by (auto split: if_splits)
    then show ?thesis by (simp add: sel(7) mark_busy_def)
  qed
  then have same: "due s1 kvs = due s kvs" by (intro due_cong) (auto simp: sel)
  have "\<exists>s'. dispatch_all kvs s1 = (Inr [], s') \<and> dispatched s1 s' (due s1 kvs)"
    using Cons.prems sel by (intro Cons.IH) (auto simp: own_objects_def kv)
  then obtain s2 where s2: "dispatch_all kvs s1 = (Inr [], s2)" and d2: "dispatched s1 s2 (due s kvs)"
    by (auto simp: same)
  have "due s [(i, m)] @ due s kvs = due s (kv # kvs)" using due_append [of s "[(i, m)]" kvs] by (simp add: kv)
  with dispatched_trans [OF d1 d2] s1 s2 show ?case
    by (auto simp: kv bindM_def simp del: dispatch_one.simps due.simps)
qed

section \<open>Dropping exchanges\<close>

definition live_exchanges :: "'u ctx \<Rightarrow> (string, exchange_t) unordered_map" where
  "live_exchanges s = filter (\<lambda>(n, x). \<not> exchange_dead s x) (exchanges s)"

lemma forM_delete_exchanges:
  "forM ns (\<lambda>n. modM (\<lambda>s. s\<lparr>exchanges := AList.delete n (exchanges s)\<rparr>)) s =
     (Inr (), s\<lparr>exchanges := filter (\<lambda>(k, x). k \<notin> set ns) (exchanges s)\<rparr>)"
proof (induction ns arbitrary: s)
  case (Cons n ns)
  have "filter (\<lambda>(k, x). k \<notin> set ns) (AList.delete n xs) = filter (\<lambda>(k, x). k \<notin> set (n # ns)) xs"
    for xs :: "(string \<times> exchange_t) list"
    by (auto simp: AList.delete_eq intro!: filter_cong)
  then show ?case using Cons.IH by simp
qed simp

lemma clean_exchanges_run:
  assumes "wf_map (exchanges s)"
  shows "clean_exchanges s = (Inr (), s\<lparr>exchanges := live_exchanges s\<rparr>)"
proof -
  have "k \<in> set (map fst (filter (\<lambda>(n, x). exchange_dead s x) (exchanges s))) \<longleftrightarrow> exchange_dead s x"
    if "(k, x) \<in> set (exchanges s)" for k x
    using that assms by (force dest: eq_key_imp_eq_value)
  then have "filter (\<lambda>(k, x). k \<notin> set (map fst (filter (\<lambda>(n, x). exchange_dead s x) (exchanges s)))) (exchanges s) =
      live_exchanges s"
    unfolding live_exchanges_def by (intro filter_cong) auto
  then show ?thesis by (simp add: clean_exchanges_def forM_delete_exchanges)
qed

lemma ctx_inv_live_exchanges:
  assumes inv: "ctx_inv s"
  shows "ctx_inv (s\<lparr>exchanges := live_exchanges s\<rparr>)"
proof -
  let ?s = "s\<lparr>exchanges := live_exchanges s\<rparr>"
  have wf: "wf_map (exchanges s)" using ctx_invD(1) [OF inv] by (simp add: inv_maps_def)
  note D = inv_boxesD [OF ctx_invD(4) [OF inv]]
  have wf': "wf_map (live_exchanges s)"
    using wf unfolding live_exchanges_def by (rule distinct_map_filter)
  have sub: "map_of (exchanges s) n = Some x" if "map_of (exchanges ?s) n = Some x" for n x
    using that wf wf' by (auto simp: live_exchanges_def)
  have "inv_boxes ?s"
  proof (rule inv_boxesI)
    show "n = n'" if "map_of (exchanges ?s) n = Some x" "map_of (exchanges ?s) n' = Some x'" "ex_pub x = ex_pub x'"
      for n x n' x' using D(6) sub that by blast
    show "ex_pub x < next_mb ?s" if "map_of (exchanges ?s) n = Some x" for n x using D(4) [OF sub [OF that]] by simp
    show "mbox_at ?s i \<noteq> Some (ex_pub x)" if "map_of (exchanges ?s) n = Some x" for n x i
      using D(5) [OF sub [OF that]] by simp
  qed (use D in auto)
  then show ?thesis
    using wf' ctx_invD(6) [OF inv] by (intro ctx_inv_exchanges [OF inv]) (simp_all add: inv_queues_def)
qed

section \<open>A whole pass\<close>

lemma delivers_unlock:
  assumes "delivers (s\<lparr>cx_xlock := b, cx_lock := a\<rparr>) t P g" and "unlocked s"
  shows "delivers s (t\<lparr>cx_lock := Unlocked, cx_xlock := Unlocked\<rparr>) P g"
proof -
  from assms(1) obtain f where f: "t = s\<lparr>cx_xlock := b, cx_lock := a, mbs := f\<rparr>"
    "\<And>i m. mbox_at s i = Some m \<Longrightarrow> dqueue (f m) = queue_at s m @ g i" "\<And>m. m \<in> P \<Longrightarrow> dqueue (f m) = []"
    "\<And>m. m \<notin> P \<Longrightarrow> (\<forall>i. mbox_at s i \<noteq> Some m) \<Longrightarrow> f m = mbs s m"
    unfolding delivers_def by auto
  have "t\<lparr>cx_lock := Unlocked, cx_xlock := Unlocked\<rparr> = s\<lparr>mbs := f\<rparr>" using f(1) assms(2) by simp
  then show ?thesis by (rule deliversI) (use f in auto)
qed

lemma deliver_part_run:
  assumes inv: "ctx_inv s" and u: "unlocked s"
  shows "\<exists>s1. whenM b (with_xshared (whenM c (with_excl deliver_exchanges))) s = (Inr (), s1) \<and> ctx_inv s1 \<and>
    unlocked s1 \<and> (if b \<and> c then delivers s s1 (set (pubs_of (exchanges s))) (\<lambda>i. fan_out_all i (exchanges s) s)
      else s1 = s)"
proof (cases "b \<and> c")
  case True
  let ?l = "s\<lparr>cx_xlock := Shared, cx_lock := Exclusive\<rparr>"
  have "ctx_inv ?l" using inv by simp
  from deliver_exchanges_delivers [OF this] obtain t where t: "deliver_exchanges ?l = (Inr (), t)"
    and d: "delivers ?l t (set (pubs_of (exchanges s))) (\<lambda>i. fan_out_all i (exchanges s) s)"
    by (auto simp: fan_out_all_def)
  let ?s1 = "t\<lparr>cx_lock := Unlocked, cx_xlock := Unlocked\<rparr>"
  have d1: "delivers s ?s1 (set (pubs_of (exchanges s))) (\<lambda>i. fan_out_all i (exchanges s) s)"
    using d u by (rule delivers_unlock)
  have "ctx_inv ?s1"
    using ctx_invD(6) [OF inv] by (intro ctx_inv_delivers [OF inv d1] sendable_fan_out_all) (simp add: inv_queues_def)
  then show ?thesis
    using True u t d1 by (intro exI [of _ ?s1]) (simp add: with_xshared_def with_excl_def)
next
  case False
  then show ?thesis
    using inv u cx_xlock_idem [of s Unlocked]
    by (intro exI [of _ s]) (auto simp: whenM_def with_xshared_def)
qed

lemma dispatched_shared:
  assumes "dispatched (s\<lparr>cx_lock := Shared\<rparr>) t ts" and "cx_lock s = Unlocked"
  shows "dispatched s (t\<lparr>cx_lock := Unlocked\<rparr>) ts"
proof -
  from assms(1) obtain tm n where
    t: "t = s\<lparr>cx_lock := Shared, objs := mark_busy (due_actors ts) (objs s), cx_tm := tm, next_result := n\<rparr>"
    unfolding dispatched_def by auto
  then have "t\<lparr>cx_lock := Unlocked\<rparr> = s\<lparr>objs := mark_busy (due_actors ts) (objs s), cx_tm := tm, next_result := n\<rparr>"
    using assms(2) by simp
  moreover have "cx_tm (t\<lparr>cx_lock := Unlocked\<rparr>) = cx_tm t" "cx_tm (s\<lparr>cx_lock := Shared\<rparr>) = cx_tm s" by simp_all
  note this [THEN user_queue_cong] this [THEN sys_queue_cong] this [THEN can_post_cong]
  moreover note dispatched_sel(11-13) [OF assms(1)]
  ultimately show ?thesis unfolding dispatched_def by (intro conjI exI) simp_all
qed

lemma ctx_inv_dispatched: "ctx_inv s \<Longrightarrow> dispatched s s' ts \<Longrightarrow> ctx_inv s'"
  by (erule ctx_inv_frame) (simp_all add: dispatched_sel)

lemma due_lock [simp]: "due (s\<lparr>cx_lock := l\<rparr>) kvs = due s kvs"
  by (rule due_cong) simp_all

lemma dispatch_part_run:
  assumes inv: "ctx_inv s" and u: "unlocked s" and cp: "can_post s" and own: "own_objects s"
  shows "\<exists>t. dispatched s t (due s (mboxes s)) \<and>
    with_shared (bindM (getM mboxes) (\<lambda>kvs. bindM (dispatch_all kvs) (\<lambda>to_remove.
       seqM (whenM b (with_xexcl clean_exchanges)) (retM to_remove)))) s =
      (Inr [], if b then t\<lparr>exchanges := live_exchanges t\<rparr> else t)"
proof -
  let ?l = "s\<lparr>cx_lock := Shared\<rparr>"
  have keys: "fst ` set (mboxes s) \<subseteq> keys_of (actors s)"
    using inv_boxesD(1) [OF ctx_invD(4) [OF inv]] by (simp add: dom_map_of_conv_image_fst)
  have wf: "wf_map (mboxes s)" "wf_map (exchanges s)" using ctx_invD(1) [OF inv] by (simp_all add: inv_maps_def)
  have "\<exists>t. dispatch_all (mboxes s) ?l = (Inr [], t) \<and> dispatched ?l t (due ?l (mboxes s))"
    using ctx_invD(2) [OF inv] own cp keys wf
    by (intro dispatch_all_run) (simp_all add: own_objects_def can_post_def)
  then obtain t where t: "dispatch_all (mboxes s) ?l = (Inr [], t)" and d: "dispatched ?l t (due s (mboxes s))" by auto
  note sel = dispatched_sel [OF d]
  let ?t = "t\<lparr>cx_lock := Unlocked\<rparr>"
  have disp: "dispatched s ?t (due s (mboxes s))" using d u by (intro dispatched_shared) simp_all
  have "clean_exchanges (t\<lparr>cx_xlock := Exclusive\<rparr>) =
      (Inr (), t\<lparr>cx_xlock := Exclusive, exchanges := live_exchanges t\<rparr>)"
    using clean_exchanges_run [of "t\<lparr>cx_xlock := Exclusive\<rparr>"] wf(2) sel(4)
    by (simp add: live_exchanges_def exchange_dead_def)
  then have "whenM b (with_xexcl clean_exchanges) t = (Inr (), if b then t\<lparr>exchanges := live_exchanges t\<rparr> else t)"
    using sel(6) u cx_xlock_idem [of "t\<lparr>exchanges := live_exchanges t\<rparr>" Unlocked]
    by (simp add: with_xexcl_def)
  moreover have "live_exchanges ?t = live_exchanges t" by (simp add: live_exchanges_def exchange_dead_def)
  ultimately show ?thesis
    using disp t u by (intro exI [of _ ?t]) (simp add: with_shared_def bindM_def seqM_def)
qed

text \<open>The state a pass reaches, from the one in which published envelopes have been delivered.\<close>

definition after_dispatch :: "try_outcomes \<Rightarrow> 'u ctx \<Rightarrow> 'u ctx \<Rightarrow> bool" where
  "after_dispatch oc s1 s' \<longleftrightarrow> (if o_shared oc
     then \<exists>t. dispatched s1 t (due s1 (mboxes s1)) \<and>
       s' = (if o_xexcl oc then t\<lparr>exchanges := live_exchanges t\<rparr> else t)
     else s' = s1)"

lemma mailbox_worker_run:
  assumes inv: "ctx_inv s" and u: "unlocked s" and cp: "can_post s" and own: "own_objects s"
  shows "\<exists>s1 s'. mailbox_worker oc s = (Inr (), s') \<and> ctx_inv s' \<and> unlocked s' \<and>
    (if o_xshared oc \<and> o_excl oc
     then delivers s s1 (set (pubs_of (exchanges s))) (\<lambda>i. fan_out_all i (exchanges s) s) else s1 = s) \<and>
    after_dispatch oc s1 s'"
proof -
  from deliver_part_run [OF inv u, of "o_xshared oc" "o_excl oc"] obtain s1 where
    p1: "whenM (o_xshared oc) (with_xshared (whenM (o_excl oc) (with_excl deliver_exchanges))) s = (Inr (), s1)"
    and i1: "ctx_inv s1" "unlocked s1"
    and d1: "if o_xshared oc \<and> o_excl oc
      then delivers s s1 (set (pubs_of (exchanges s))) (\<lambda>i. fan_out_all i (exchanges s) s) else s1 = s" by blast
  have "\<exists>f. s1 = s\<lparr>mbs := f\<rparr>"
  proof (cases "o_xshared oc \<and> o_excl oc")
    case True
    then show ?thesis using d1 unfolding delivers_def by auto
  next
    case False
    then have "s1 = s\<lparr>mbs := mbs s\<rparr>" using d1 by simp
    then show ?thesis by (rule exI [of _ "mbs s"])
  qed
  then obtain f where f: "s1 = s\<lparr>mbs := f\<rparr>" ..
  have c1: "can_post s1" "own_objects s1" using cp own by (simp_all add: f can_post_def own_objects_def)
  show ?thesis
  proof (cases "o_shared oc")
    case False
    then have "mailbox_worker oc s = (Inr (), s1)" using p1 by (simp add: mailbox_worker_def)
    with False i1 d1 show ?thesis by (auto simp: after_dispatch_def)
  next
    case True
    from dispatch_part_run [OF i1 c1, of "o_xexcl oc"] obtain t where
      d: "dispatched s1 t (due s1 (mboxes s1))"
      and p2: "with_shared (bindM (getM mboxes) (\<lambda>kvs. bindM (dispatch_all kvs) (\<lambda>to_remove.
         seqM (whenM (o_xexcl oc) (with_xexcl clean_exchanges)) (retM to_remove)))) s1 =
        (Inr [], if o_xexcl oc then t\<lparr>exchanges := live_exchanges t\<rparr> else t)" by blast
    let ?s' = "if o_xexcl oc then t\<lparr>exchanges := live_exchanges t\<rparr> else t"
    have t: "ctx_inv t" "unlocked t"
      using ctx_inv_dispatched [OF i1(1) d] dispatched_sel [OF d] i1(2) by simp_all
    have "mailbox_worker oc s = (Inr (), ?s')"
      using True p1 p2 by (simp add: mailbox_worker_def bindM_def)
    moreover have "ctx_inv ?s'" "unlocked ?s'" using t ctx_inv_live_exchanges [OF t(1)] by auto
    moreover have "after_dispatch oc s1 ?s'" using True d by (auto simp: after_dispatch_def)
    ultimately show ?thesis using d1 by blast
  qed
qed

section \<open>Properties\<close>


text \<open>In the example above, a pass with all locks puts the two envelopes in the mailbox of \<^verbatim>\<open>/a/b\<close> and posts it.\<close>

definition all_locks :: try_outcomes where
  "all_locks = \<lparr>o_xshared = True, o_excl = True, o_shared = True, o_xexcl = True, o_remove = True\<rparr>"

lemma demo_pub_sel:
  "unlocked demo_pub" "can_post demo_pub" "user_queue demo_pub = [T_on_start 0, T_on_start 1]"
  "mboxes demo_pub = [(Id_t 1, 0), (Id_t 2, 1)]" "busy (objs demo_pub 0) = False" "busy (objs demo_pub 1) = False"
  "actors demo_pub = [(Id_t 1, demo_desc 0 1 ''/a'' id_default [Id_t 2]), (Id_t 2, demo_desc 1 2 ''/a/b'' (Id_t 1) [])]"
  by code_simp+

lemma demo_pub_own: "own_objects demo_pub"
  by (auto simp: own_objects_def demo_pub_sel demo_desc_def split: if_splits)


end
