(* ===== verification/Yaaf_Lifecycle.thy ===== *)
theory Yaaf_Lifecycle
  imports Yaaf_Registry
begin

text \<open>
  The life of a context: \<^verbatim>\<open>make_context\<close> leaves exactly the three root actors with their start tasks queued and
  the mailbox worker posted; \<^verbatim>\<open>stop\<close> tells every actor, empties the registry and releases the threads, and
  is not safe to call twice.
\<close>

section \<open>Starting\<close>

lemma ctx_updates_frame [simp]:
  "abs_ctx (s\<lparr>root_addr := r\<rparr>) = abs_ctx s" "abs_ctx (s\<lparr>usr_root := r\<rparr>) = abs_ctx s"
  "abs_ctx (s\<lparr>sys_root := r\<rparr>) = abs_ctx s" "abs_ctx (s\<lparr>objs := f, next_obj := n\<rparr>) = abs_ctx s"
  "abs_ctx (s\<lparr>cx_tm := t, next_result := n\<rparr>) = abs_ctx s"
  "user_queue (s\<lparr>root_addr := r\<rparr>) = user_queue s" "user_queue (s\<lparr>usr_root := r\<rparr>) = user_queue s"
  "user_queue (s\<lparr>sys_root := r\<rparr>) = user_queue s"
  "user_queue (s\<lparr>objs := f, next_obj := n\<rparr>) = user_queue s"
  "sys_queue (s\<lparr>root_addr := r\<rparr>) = sys_queue s" "sys_queue (s\<lparr>usr_root := r\<rparr>) = sys_queue s"
  "sys_queue (s\<lparr>sys_root := r\<rparr>) = sys_queue s"
  "sys_queue (s\<lparr>objs := f, next_obj := n\<rparr>) = sys_queue s"
  "can_post (s\<lparr>root_addr := r\<rparr>) = can_post s" "can_post (s\<lparr>usr_root := r\<rparr>) = can_post s"
  "can_post (s\<lparr>sys_root := r\<rparr>) = can_post s" "can_post (s\<lparr>objs := f, next_obj := n\<rparr>) = can_post s"
  by (simp_all add: abs_ctx_def user_queue_def sys_queue_def can_post_def)

lemma ucname_long: "length p < 15 \<Longrightarrow> p \<noteq> usercontext_name c i"
  by (auto simp: usercontext_name_def)

text \<open>
  A state in which the next actor can be added under a given parent, described by what the abstract
  registry shows.
\<close>

definition ready :: "'u ctx \<Rightarrow> bool" where
  "ready s \<longleftrightarrow> ctx_inv s \<and> can_post s \<and> cx_lock s = Unlocked \<and> cx_xlock s = Unlocked \<and>
     \<not> stopping_begin s"

lemma parent_desc_abs:
  assumes "\<not> address_empty parent" and "members (abs_ctx s) (aa_id parent) = Some (a, pn, pp)"
  shows "\<exists>d. parent_desc parent s = Some d \<and> d_name d = pn"
    and "path_under parent nm s = pn @ ''/'' @ nm" and "effective_parent parent s = parent"
  using assms by (auto simp: parent_desc_def effective_parent_def path_under_def)

lemma can_add_abs:
  assumes "ready s" and "next_actor_id s \<noteq> 0" "next_actor_id s \<noteq> - 1" and "\<not> address_empty parent"
    and "members (abs_ctx s) (aa_id parent) = Some (a, pn, pp)" and "length (pn @ ''/'' @ nm) < 15"
  shows "can_add parent nm s"
  using assms(1,2,3,6) parent_desc_abs [OF assms(4,5)] ucname_long [of "pn @ ''/'' @ nm"]
  by (auto simp: can_add_def ready_def)

lemma add_under_ready:
  fixes s :: "'u ctx"
  assumes vt: "quiet_vtable vt" and r: "ready s" and n: "next_actor_id s \<noteq> 0" "next_actor_id s \<noteq> - 1"
    and p: "\<not> address_empty parent" "members (abs_ctx s) (aa_id parent) = Some (pa, pn, pp)"
    and len: "length (pn @ ''/'' @ nm) < 15"
  obtains s' where "add_actor_under vt nm parent a s =
      (Inr (address_of (Id_t (next_actor_id s)) (pn @ ''/'' @ nm)), s')"
    and "abs_ctx s' = spec_add (Id_t (next_actor_id s)) a (pn @ ''/'' @ nm) (aa_id parent) (abs_ctx s)"
    and "ready s'" and "user_queue s' = user_queue s @ [T_on_start a]" and "sys_queue s' = sys_queue s"
    and "next_actor_id s' = next_actor_id s + 1" and "next_obj s' = next_obj s"
    and "usr_root s' = usr_root s"
proof -
  have inv: "ctx_inv s" using r by (simp add: ready_def)
  note pd = parent_desc_abs [OF p]
  obtain d where d: "parent_desc parent s = Some d" using pd(1) by blast
  from r have xl: "cx_xlock s = Unlocked" "\<not> stopping_begin s" by (simp_all add: ready_def)
  show ?thesis
    apply (rule add_actor_under_effect [OF vt inv can_add_abs [OF r n p len], of a])
    subgoal for s' by (rule that [of s']) (simp_all add: pd(2,3) d ready_def xl)
    done
qed

lemma add_first_root:
  fixes s :: "'u ctx"
  assumes vt: "quiet_vtable vt" and r: "ready s" and n: "next_actor_id s \<noteq> 0" "next_actor_id s \<noteq> - 1"
    and u: "usr_root s = address_default" and len: "length nm < 14"
  obtains s' where "add_actor vt nm a s = (Inr (address_of (Id_t (next_actor_id s)) (''/'' @ nm)), s')"
    and "abs_ctx s' = spec_add (Id_t (next_actor_id s)) a (''/'' @ nm) id_default (abs_ctx s)"
    and "ready s'" and "user_queue s' = user_queue s @ [T_on_start a]" and "sys_queue s' = sys_queue s"
    and "next_actor_id s' = next_actor_id s + 1" and "next_obj s' = next_obj s"
proof -
  have inv: "ctx_inv s" using r by (simp add: ready_def)
  have pd: "parent_desc address_default s = None" "path_under address_default nm s = ''/'' @ nm"
    using u by (simp_all add: parent_desc_def effective_parent_def path_under_def)
  have "can_add address_default nm s"
    using r n u len pd ucname_long [of "''/'' @ nm"]
    by (auto simp: can_add_def ready_def effective_parent_def)
  moreover from r have xl: "cx_xlock s = Unlocked" "\<not> stopping_begin s" by (simp_all add: ready_def)
  ultimately show ?thesis
    apply -
    apply (rule add_actor_under_effect [OF vt inv, of address_default nm a], assumption)
    subgoal for s' by (rule that [of s']) (simp_all add: pd ready_def xl add_actor_def)
    done
qed

lemma sys_post_run:
  assumes "context_new dc p nm c u = Inr (s, c')"
  obtains r m' where "sys_post T_mailbox_worker REPEAT s =
      (Inr r, s\<lparr>cx_tm := Some m', next_result := Suc (next_result s)\<rparr>)"
    and "user_queue (s\<lparr>cx_tm := Some m', next_result := Suc (next_result s)\<rparr>) = []"
    and "sys_queue (s\<lparr>cx_tm := Some m', next_result := Suc (next_result s)\<rparr>) = [T_mailbox_worker]"
    and "can_post (s\<lparr>cx_tm := Some m', next_result := Suc (next_result s)\<rparr>)"
proof -
  from assms obtain m where m: "cx_tm s = Some m" "tm_accepts m SYSTEM" "tm_accepts m USER"
    "tm_queue m SYSTEM = []" "tm_queue m USER = []"
    by (auto simp: context_new_def Let_def bindR_eq_Inr thread_manager_new_def context_pools_def
        threads_pool_new_def tm_accepts_def tm_queue_def USER_def SYSTEM_def split: prod.splits)
  let ?t = "wrap_task (T_mailbox_worker, REPEAT) (next_result s)"
  from tm.post_accepted [OF m(2), of ?t] obtain r m' where p: "tm_post SYSTEM ?t m = Inr (r, m')"
    and q: "tm_queue m' = (tm_queue m)(SYSTEM := tm_queue m SYSTEM @ [?t])"
    and a: "tm_accepts m' = tm_accepts m" by blast
  have "USER \<noteq> SYSTEM" by (simp add: USER_def SYSTEM_def)
  then show ?thesis
    using m p q a
    by (intro that [of r m'])
      (simp_all add: sys_post_def post_task_def user_queue_def sys_queue_def can_post_def wrap_task_def)
qed

text \<open>The members of a context that has just been made.\<close>

definition root_members :: "id_t \<rightharpoonup> actor_ptr \<times> string \<times> id_t" where
  "root_members = [Id_t 1 \<mapsto> (0, ''/root'', id_default), Id_t 2 \<mapsto> (1, ''/root/usr'', Id_t 1),
     Id_t 3 \<mapsto> (2, ''/root/sys'', Id_t 1)]"

lemma new_actor_app [simp]:
  "new_actor k s = (Inr (next_obj s),
     s\<lparr>objs := (objs s)(next_obj s := base_actor_new k), next_obj := Suc (next_obj s)\<rparr>)"
  by (simp add: new_actor_def)

lemma ready_updates [simp]:
  "ready (s\<lparr>root_addr := r\<rparr>) = ready s" "ready (s\<lparr>usr_root := r\<rparr>) = ready s"
  "ready (s\<lparr>sys_root := r\<rparr>) = ready s" "ready (s\<lparr>objs := f, next_obj := n\<rparr>) = ready s"
  by (simp_all add: ready_def)

lemma context_start_run:
  fixes s :: "'u ctx"
  assumes vt: "quiet_vtable vt" and new: "context_new dc p nm c u = Inr (s, c')"
  obtains s' where "context_start vt s = (Inr (), s')" and "ready s'"
    and "members (abs_ctx s') = root_members"
    and "inbox (abs_ctx s') = [Id_t 1 \<mapsto> [], Id_t 2 \<mapsto> [], Id_t 3 \<mapsto> []]"
    and "usr_root s' = address_of (Id_t 2) ''/root/usr''"
    and "user_queue s' = [T_on_start 0, T_on_start 1, T_on_start 2]" and "sys_queue s' = [T_mailbox_worker]"
    and "next_actor_id s' = 4"
proof -
  note sel = context_new_eq [OF new]
  obtain r m where post: "sys_post T_mailbox_worker REPEAT s =
      (Inr r, s\<lparr>cx_tm := Some m, next_result := Suc (next_result s)\<rparr>)"
    and q: "user_queue (s\<lparr>cx_tm := Some m, next_result := Suc (next_result s)\<rparr>) = []"
      "sys_queue (s\<lparr>cx_tm := Some m, next_result := Suc (next_result s)\<rparr>) = [T_mailbox_worker]"
      "can_post (s\<lparr>cx_tm := Some m, next_result := Suc (next_result s)\<rparr>)"
    by (rule sys_post_run [OF new])
  have no: "next_obj s = 0"
    using new by (auto simp: context_new_def Let_def bindR_eq_Inr split: prod.splits)
  define s1 where "s1 = s\<lparr>cx_tm := Some m, next_result := Suc (next_result s)\<rparr>"
  define s2 where "s2 = s1\<lparr>objs := (objs s1)(0 := base_actor_new Root_actor), next_obj := 1\<rparr>"
  have r2: "ready s2" and n2: "next_actor_id s2 = 1" "usr_root s2 = address_default" "next_obj s2 = 1"
      "user_queue s2 = []" "sys_queue s2 = [T_mailbox_worker]"
    and a2: "members (abs_ctx s2) = Map.empty" "inbox (abs_ctx s2) = Map.empty"
    using context_new_inv [OF new] sel q by (simp_all add: s2_def s1_def ready_def abs_ctx_def)
  obtain s3 where s3: "add_actor vt ''root'' 0 s2 = (Inr (address_of (Id_t 1) ''/root''), s3)"
    and a3: "abs_ctx s3 = spec_add (Id_t 1) 0 ''/root'' id_default (abs_ctx s2)"
    and r3: "ready s3" "user_queue s3 = [T_on_start 0]" "sys_queue s3 = [T_mailbox_worker]"
      "next_actor_id s3 = 2" "next_obj s3 = 1"
    by (rule add_first_root [OF vt r2, of "''root''" 0]) (use n2 in auto)
  define s4 where "s4 = s3\<lparr>root_addr := address_of (Id_t 1) ''/root'',
     objs := (objs s3)(1 := base_actor_new Usr_actor), next_obj := 2\<rparr>"
  have abs4: "abs_ctx s4 = abs_ctx s3" and r4: "ready s4" "user_queue s4 = [T_on_start 0]"
      "sys_queue s4 = [T_mailbox_worker]" "next_actor_id s4 = 2" "next_obj s4 = 2"
    using r3 by (simp_all add: s4_def)
  have p4: "members (abs_ctx s4) (Id_t 1) = Some (0, ''/root'', id_default)"
    by (simp add: abs4 a3 spec_add_def del: abs_ctx_sel)
  obtain s5 where s5: "add_actor_under vt ''usr'' (address_of (Id_t 1) ''/root'') 1 s4 =
      (Inr (address_of (Id_t 2) ''/root/usr''), s5)"
    and a5: "abs_ctx s5 = spec_add (Id_t 2) 1 ''/root/usr'' (Id_t 1) (abs_ctx s4)"
    and r5: "ready s5" "user_queue s5 = [T_on_start 0, T_on_start 1]" "sys_queue s5 = [T_mailbox_worker]"
      "next_actor_id s5 = 3" "next_obj s5 = 2"
    by (rule add_under_ready [OF vt r4(1), of "address_of (Id_t 1) ''/root''" 0 "''/root''" id_default "''usr''" 1])
      (use r4 p4 in auto)
  define s6 where "s6 = s5\<lparr>usr_root := address_of (Id_t 2) ''/root/usr'',
     objs := (objs s5)(2 := base_actor_new Sys_actor), next_obj := 3\<rparr>"
  have abs6: "abs_ctx s6 = abs_ctx s5" and r6: "ready s6" "user_queue s6 = [T_on_start 0, T_on_start 1]"
      "sys_queue s6 = [T_mailbox_worker]" "next_actor_id s6 = 3" "usr_root s6 = address_of (Id_t 2) ''/root/usr''"
    using r5 by (simp_all add: s6_def)
  have p6: "members (abs_ctx s6) (Id_t 1) = Some (0, ''/root'', id_default)"
    by (simp add: abs6 a5 abs4 a3 spec_add_def del: abs_ctx_sel)
  obtain s7 where s7: "add_actor_under vt ''sys'' (address_of (Id_t 1) ''/root'') 2 s6 =
      (Inr (address_of (Id_t 3) ''/root/sys''), s7)"
    and a7: "abs_ctx s7 = spec_add (Id_t 3) 2 ''/root/sys'' (Id_t 1) (abs_ctx s6)"
    and r7: "ready s7" "user_queue s7 = [T_on_start 0, T_on_start 1, T_on_start 2]"
      "sys_queue s7 = [T_mailbox_worker]" "next_actor_id s7 = 4" "usr_root s7 = usr_root s6"
    by (rule add_under_ready [OF vt r6(1), of "address_of (Id_t 1) ''/root''" 0 "''/root''" id_default "''sys''" 2])
      (use r6 p6 in auto)
  let ?s8 = "s7\<lparr>sys_root := address_of (Id_t 3) ''/root/sys''\<rparr>"
  have "bindM (new_actor Root_actor) (add_actor vt ''root'') s1 = add_actor vt ''root'' 0 s2"
    using no by (simp add: bindM_def s1_def s2_def)
  then have root: "make_actor vt Root_actor ''root'' s1 = (Inr (address_of (Id_t 1) ''/root''), s3)"
    by (simp add: make_actor_def s3)
  have usr: "new_actor Usr_actor (s3\<lparr>root_addr := address_of (Id_t 1) ''/root''\<rparr>) = (Inr 1, s4)"
    using r3(5) by (simp add: s4_def)
  have sys: "new_actor Sys_actor (s5\<lparr>usr_root := address_of (Id_t 2) ''/root/usr''\<rparr>) = (Inr 2, s6)"
    using r5(5) by (simp add: s6_def)
  have "context_start vt s = (Inr (), ?s8)"
    using post root usr s5 sys s7
    by (simp add: context_start_def s1_def [symmetric] network_init_def del: new_actor_app)
  moreover have "members (abs_ctx ?s8) = root_members"
    "inbox (abs_ctx ?s8) = [Id_t 1 \<mapsto> [], Id_t 2 \<mapsto> [], Id_t 3 \<mapsto> []]"
    by (simp_all add: a7 abs6 a5 abs4 a3 a2 spec_add_def root_members_def del: abs_ctx_sel)
  ultimately show ?thesis using r7 r6(5) by (intro that [of ?s8]) simp_all
qed

section \<open>Stopping\<close>

lemma drop_usrcont_sel [simp]:
  "cx_lock (drop_usrcont i s) = cx_lock s" "cx_tm (drop_usrcont i s) = cx_tm s"
  "exchanges (drop_usrcont i s) = exchanges s" "stopping_begin (drop_usrcont i s) = stopping_begin s"
  "objs (drop_usrcont i s) = objs s" "mbs (drop_usrcont i s) = mbs s" "cx_xlock (drop_usrcont i s) = cx_xlock s"
  by (simp_all add: drop_usrcont_def split: option.splits)

text \<open>The members that telling the actors leaves alone.\<close>

definition stop_frame :: "'u ctx \<Rightarrow> 'u ctx \<Rightarrow> bool" where
  "stop_frame s s' \<longleftrightarrow> cx_lock s' = cx_lock s \<and> cx_xlock s' = cx_xlock s \<and> cx_tm s' = cx_tm s \<and>
     exchanges s' = exchanges s \<and> stopping_begin s' = stopping_begin s \<and> mbs s' = mbs s"

lemma stop_frame_trans: "stop_frame s t \<Longrightarrow> stop_frame t u \<Longrightarrow> stop_frame s u"
  by (simp add: stop_frame_def)

lemma stop_all_run:
  assumes vt: "quiet_vtable vt"
  shows "\<exists>s'. forM as (stop_one vt) s = (Inr (), s') \<and>
    stop_frame s s'"
proof (induction as arbitrary: s)
  case Nil
  then show ?case by (simp add: stop_frame_def)
next
  case (Cons x as)
  obtain i d where x: "x = (i, d)" by (cases x)
  from quiet_calls(2) [OF vt] obtain s1 where
    s1: "call_on_stop vt (d_actor d) s = (Inr (), s1)" and q: "quiet_change s s1"
    unfolding quiet_op_def by fastforce
  have f: "stop_frame s (drop_usrcont i s1)" using quiet_change_sel [OF q] by (simp add: stop_frame_def)
  from Cons.IH [of "drop_usrcont i s1"] obtain s' where
    "forM as (stop_one vt) (drop_usrcont i s1) =
      (Inr (), s')" and "stop_frame (drop_usrcont i s1) s'" by blast
  with stop_frame_trans [OF f] s1 show ?case by (auto simp: x)
qed

lemma base_on_stop_call: "call_on_stop base_vtable p s =
    (Inr (), s\<lparr>objs := (objs s)(p := update_status STOPED (objs s p))\<rparr>)"
  by (simp add: call_on_stop_def vt_of_def base_vtable_def base_on_stop_def)

lemma stop_all_base:
  "p \<in> d_actor ` snd ` set as \<or> status_kind (objs s p) = STOPED \<Longrightarrow>
   status_kind (objs (snd (forM as (stop_one base_vtable) s)) p) = STOPED"
proof (induction as arbitrary: s)
  case (Cons x as)
  obtain i d where x: "x = (i, d)" by (cases x)
  show ?case
    using Cons.prems Cons.IH
    by (auto simp: x base_on_stop_call)
qed simp

text \<open>The state in which \<^verbatim>\<open>stop\<close> returns, in terms of the one in which it has told every actor.\<close>

lemma context_stop_run:
  assumes "cx_tm s = Some m" and "cx_lock s = Unlocked"
    and "forM (actors s) (stop_one vt)
       (s\<lparr>stopping_begin := True, cx_tm := None, cx_lock := Exclusive\<rparr>) = (Inr (), t)"
  shows "context_stop vt s = (Inr (), t\<lparr>actors := [], mboxes := [], id_by_name := [], cx_lock := Unlocked\<rparr>)"
  using assms by (simp add: context_stop_def with_excl_def)

section \<open>Properties\<close>

text \<open>
  C12: \<^verbatim>\<open>make_context\<close> succeeds for all positive thread counts and every quiet \<^verbatim>\<open>on_init\<close>: it leaves exactly the
  actors \<^verbatim>\<open>/root\<close>, \<^verbatim>\<open>/root/usr\<close> and \<^verbatim>\<open>/root/sys\<close> with empty mailboxes, \<^verbatim>\<open>/root/usr\<close> as the default parent, their
  three start tasks in the user queue in that order, and the mailbox worker in the system queue; the
  context satisfies its invariant and holds no lock.
\<close>

theorem make_context_roots:
  assumes "quiet_vtable vt" and "0 < user_threads p" and "0 < sys_threads p"
  shows "\<exists>s c'. make_context vt dc p nm c u = Inr (s, c') \<and> ctx_inv s \<and> unlocked s \<and>
    members (abs_ctx s) = root_members \<and>
    inbox (abs_ctx s) = [Id_t 1 \<mapsto> [], Id_t 2 \<mapsto> [], Id_t 3 \<mapsto> []] \<and>
    usr_root s = address_of (Id_t 2) ''/root/usr'' \<and>
    user_queue s = [T_on_start 0, T_on_start 1, T_on_start 2] \<and> sys_queue s = [T_mailbox_worker]"
proof -
  obtain s0 c' where new: "context_new dc p nm c u = Inr (s0, c')"
    using assms(2,3)
    by (cases "context_name nm c") (auto simp: context_new_def context_pools_def thread_manager_new_def threads_pool_new_def
        ensure_def USER_def SYSTEM_def Let_def split: prod.splits)
  show ?thesis
    apply (rule context_start_run [OF assms(1) new])
    subgoal for s'
      by (intro exI [of _ s'] exI [of _ c']) (auto simp: make_context_def new ready_def simp del: abs_ctx_sel)
    done
qed

theorem make_context_roots_witness:
  "\<exists>s c'. make_context base_vtable True defparams [] 0 () = Inr (s, c') \<and>
    members (abs_ctx s) = root_members \<and> sys_queue s = [T_mailbox_worker]"
  using make_context_roots [OF base_vtable_quiet, of defparams True "[]" 0 "()"]
  by (auto simp: defparams_def)

text \<open>
  C13: \<^verbatim>\<open>context::stop\<close> on a context whose threads have not been released: it returns with no actor, no mailbox
  and no name registered and the thread manager gone; every actor that was registered and keeps the default
  \<^verbatim>\<open>on_stop\<close> has the status \<^verbatim>\<open>STOPED\<close>. Exchanges are kept. A second call dereferences the null manager.
\<close>

theorem context_stop_spec:
  assumes "quiet_vtable vt" and "cx_tm s = Some m" and "cx_lock s = Unlocked"
  shows "\<exists>s'. context_stop vt s = (Inr (), s') \<and> actors s' = [] \<and> mboxes s' = [] \<and> id_by_name s' = [] \<and>
    cx_tm s' = None \<and> stopping_begin s' \<and> cx_lock s' = Unlocked \<and> exchanges s' = exchanges s \<and>
    context_stop vt s' = (Inl NullDeref, s') \<and>
    (vt = base_vtable \<longrightarrow>
      (\<forall>(i, d) \<in> set (actors s). status_kind (objs s' (d_actor d)) = STOPED))"
proof -
  let ?s0 = "s\<lparr>stopping_begin := True, cx_tm := None, cx_lock := Exclusive\<rparr>"
  from stop_all_run [OF assms(1)] obtain t where
    t: "forM (actors s) (stop_one vt) ?s0 = (Inr (), t)"
    and f: "stop_frame ?s0 t" by blast
  note run = context_stop_run [OF assms(2,3) t]
  have "status_kind (objs t (d_actor d)) = STOPED" if "vt = base_vtable" "(i, d) \<in> set (actors s)" for i d
    using stop_all_base [of "d_actor d" "actors s" ?s0] t that by (force simp: image_iff)
  moreover have "context_stop vt s' = (Inl NullDeref, s')" if "cx_tm s' = None" "stopping_begin s'" for s'
  proof -
    have "s'\<lparr>stopping_begin := True\<rparr> = s'" using that(2) by simp
    then show ?thesis using that(1) by (simp add: context_stop_def)
  qed
  ultimately show ?thesis
    using f by (auto simp: run stop_frame_def)
qed

theorem context_stop_spec_witness:
  "\<exists>s'. context_stop base_vtable demo_family = (Inr (), s') \<and> actors s' = [] \<and>
    context_stop base_vtable s' = (Inl NullDeref, s') \<and> status_kind (objs s' 1) = STOPED"
proof -
  have tm: "cx_tm demo_family = Some (demo_tm [T_on_start 0, T_on_start 1])"
    and lock: "cx_lock demo_family = Unlocked"
    and as: "(Id_t 2, demo_desc 1 2 ''/a/b'' (Id_t 1) []) \<in> set (actors demo_family)"
    and d: "d_actor (demo_desc 1 2 ''/a/b'' (Id_t 1) []) = 1"
    by (simp_all add: demo_family_def demo_parent_def demo_ctx_def demo_desc_def)
  from context_stop_spec [OF base_vtable_quiet tm lock] as d show ?thesis by fastforce
qed

end
