(* ===== verification/Yaaf_Failure.thy ===== *)
theory Yaaf_Failure
  imports Yaaf_Lifecycle
begin

text \<open>
  What happens when a handler throws: who decides, that the decision is always reached when the tree is
  rooted in the library's own root actor, and what each decision does to the registry.
\<close>

section \<open>Supervisors that decide and do nothing else\<close>

text \<open>
  The functions a failure calls, all of them returning and none of them touching the registry;
  \<^verbatim>\<open>on_child_error\<close> answers by the function \<open>dec\<close>.
\<close>

definition supervised :: "'u vtable \<Rightarrow> (actor_ptr \<Rightarrow> actor_address \<Rightarrow> actor_action_when_error) \<Rightarrow> bool" where
  "supervised vt dec \<longleftrightarrow> quiet_vtable vt \<and> v_on_child_error vt = (\<lambda>p a. retM (dec p a)) \<and>
     (\<forall>p a k. quiet_op (v_on_start vt p) \<and> quiet_op (v_on_child_status vt p a k))"

definition answer ::
    "(actor_ptr \<Rightarrow> actor_address \<Rightarrow> actor_action_when_error) \<Rightarrow> 'u ctx \<Rightarrow> actor_ptr \<Rightarrow> actor_address \<Rightarrow>
     actor_action_when_error" where
  "answer dec s p a = (if library_class (class_of (objs s p)) then RESUME else dec p a)"

lemma call_child_error:
  "supervised vt dec \<Longrightarrow> call_on_child_error vt p a s = (Inr (answer dec s p a), s)"
  by (simp add: supervised_def call_on_child_error_def vt_of_def answer_def base_vtable_def
      base_on_child_error_def)

lemma supervised_calls:
  assumes "supervised vt dec"
  shows "quiet_op (call_on_start vt p)" and "quiet_op (call_on_child_status vt p a k)"
proof -
  have "quiet_op (v_on_start base_vtable p)" "quiet_op (v_on_child_status base_vtable p a k)"
    by (simp_all add: base_vtable_def base_on_start_def base_on_child_status_def quiet_retM)
  then show "quiet_op (call_on_start vt p)" and "quiet_op (call_on_child_status vt p a k)"
    using assms quiet_dispatch [of "\<lambda>v. v_on_start v p" vt]
      quiet_dispatch [of "\<lambda>v. v_on_child_status v p a k" vt]
    unfolding call_defs supervised_def by blast+
qed

section \<open>Escalation\<close>

text \<open>
  The verdict on a description: the answer of its nearest ancestor that does not escalate. A context is
  rooted when the actors without a parent are the library's.
\<close>

inductive verdict ::
    "'u ctx \<Rightarrow> (actor_ptr \<Rightarrow> actor_address \<Rightarrow> actor_action_when_error) \<Rightarrow> description \<Rightarrow>
     actor_action_when_error \<Rightarrow> bool" for s dec where
  verdict_here: "actor_at s (d_parent d) = Some pd \<Longrightarrow> answer dec s (d_actor pd) (d_address d) = act \<Longrightarrow>
    act \<noteq> ESCALATE \<Longrightarrow> verdict s dec d act"
| verdict_above: "actor_at s (d_parent d) = Some pd \<Longrightarrow>
    answer dec s (d_actor pd) (d_address d) = ESCALATE \<Longrightarrow> verdict s dec pd act \<Longrightarrow> verdict s dec d act"

definition rooted :: "'u ctx \<Rightarrow> bool" where
  "rooted s \<longleftrightarrow> list_all (\<lambda>(i, d). d_parent d = id_default \<longrightarrow> library_class (class_of (objs s (d_actor d))))
     (actors s)"

lemma verdict_not_escalate: "verdict s dec d act \<Longrightarrow> act \<noteq> ESCALATE"
  by (induction rule: verdict.induct) auto

lemma rootedD:
  "rooted s \<Longrightarrow> actor_at s i = Some d \<Longrightarrow> d_parent d = id_default \<Longrightarrow>
   library_class (class_of (objs s (d_actor d)))"
  unfolding rooted_def list_all_iff by (fastforce dest: map_of_SomeD)

lemma ids_below_less:
  assumes "actor_at s p = Some pd" and "p < i"
  shows "card {j \<in> keys_of (actors s). j < p} < card {j \<in> keys_of (actors s). j < i}"
proof (rule psubset_card_mono)
  show "finite {j \<in> keys_of (actors s). j < i}" by (simp add: finite_dom_map_of)
  show "{j \<in> keys_of (actors s). j < p} \<subset> {j \<in> keys_of (actors s). j < i}" using assms by force
qed

lemma escalate_loop_verdict:
  assumes sup: "supervised vt dec" and tree: "reg_tree (actor_at s)" and root: "rooted s"
  shows "actor_at s i = Some d \<Longrightarrow> d_parent d \<noteq> id_default \<Longrightarrow>
    Suc (card {j \<in> keys_of (actors s). j < i}) < n \<Longrightarrow>
    \<exists>act. escalate_loop vt n ESCALATE d s = (Inr act, s) \<and> verdict s dec d act"
proof (induction n arbitrary: i d)
  case (Suc n)
  from reg_tree_parent [OF tree Suc.prems(1,2)] obtain pd where
    pd: "actor_at s (d_parent d) = Some pd" and less: "d_parent d < i" by blast
  have m: "Suc (card {j \<in> keys_of (actors s). j < d_parent d}) < n"
    using ids_below_less [OF pd less] Suc.prems(3) by simp
  let ?a = "answer dec s (d_actor pd) (d_address d)"
  note step = pd call_child_error [OF sup]
  show ?case
  proof (cases "?a = ESCALATE")
    case True
    then have "\<not> library_class (class_of (objs s (d_actor pd)))" by (auto simp: answer_def)
    then have "d_parent pd \<noteq> id_default" using rootedD [OF root pd] by blast
    from Suc.IH [OF pd this m] obtain act where
      "escalate_loop vt n ESCALATE pd s = (Inr act, s)" "verdict s dec pd act" by blast
    with True show ?thesis by (auto simp: step intro: verdict.verdict_above [OF pd])
  next
    case False
    moreover obtain k where "n = Suc k" using m by (cases n) auto
    ultimately show ?thesis by (auto simp: step intro: verdict.verdict_here [OF pd])
  qed
qed simp

lemma escalate_verdict:
  assumes "supervised vt dec" and "reg_tree (actor_at s)" and "rooted s" and "cx_lock s = Unlocked"
    and "actor_at s i = Some d" and "d_parent d \<noteq> id_default"
  shows "\<exists>act. escalate vt d s = (Inr act, s) \<and> verdict s dec d act"
proof -
  let ?s = "s\<lparr>cx_lock := Shared\<rparr>"
  have "card {j \<in> keys_of (actors s). j < i} < Suc (length (actors s))"
  proof -
    have "card {j \<in> keys_of (actors s). j < i} \<le> card (keys_of (actors s))"
      by (rule card_mono) (auto simp: finite_dom_map_of)
    also have "\<dots> \<le> length (actors s)"
      using card_length [of "map fst (actors s)"] by (simp add: dom_map_of_conv_image_fst)
    finally show ?thesis by simp
  qed
  then have "\<exists>act. escalate_loop vt (Suc (Suc (length (actors ?s)))) ESCALATE d ?s = (Inr act, ?s) \<and>
      verdict ?s dec d act"
    using assms by (intro escalate_loop_verdict [of _ _ _ i]) (auto simp: rooted_def)
  moreover have "verdict s dec d act" if "verdict ?s dec d act" for act
    using that by (induction rule: verdict.induct) (auto simp: answer_def intro: verdict.intros)
  ultimately show ?thesis
    using assms(4) cx_lock_idem [of s Unlocked]
    by (auto simp: escalate_def with_shared_def simp del: escalate_loop.simps)
qed

section \<open>The effect of a decision\<close>

definition decided ::
    "'u ctx \<Rightarrow> (actor_ptr \<Rightarrow> actor_address \<Rightarrow> actor_action_when_error) \<Rightarrow> description \<Rightarrow> actor_ptr \<Rightarrow>
     actor_action_when_error \<Rightarrow> bool" where
  "decided s dec target p act \<longleftrightarrow> (let first = answer dec s p (d_address target)
     in if first = ESCALATE then verdict s dec target act else act = first)"

lemma decided_not_escalate: "decided s dec d p act \<Longrightarrow> act \<noteq> ESCALATE"
  using verdict_not_escalate by (fastforce simp: decided_def Let_def split: if_splits)

lemma abs_quiet: "quiet_change s s' \<Longrightarrow> abs_ctx s' = abs_ctx s"
  by (rule abs_ctx_cong) (simp_all add: quiet_change_sel)

lemma stop_impl_effect:
  assumes "supervised vt dec" and "ctx_inv s" and "cx_lock s = Unlocked"
  shows "\<exists>s'. stop_actor_impl_safety vt addr reason s = (Inr (), s') \<and> ctx_inv s' \<and>
    abs_ctx s' = spec_stop (aa_id addr) (abs_ctx s)"
proof -
  have vt: "quiet_callbacks vt" using assms(1) by (simp add: supervised_def quiet_callbacks.intro)
  from quiet_callbacks.stop_actor_impl_safety_stops [OF vt ctx_invD(2) [OF assms(2)] assms(3)]
  obtain s' where "stop_actor_impl_safety vt addr reason s = (Inr (), s')"
    "stops (subtree (actor_at s) (aa_id addr)) s s'" by blast
  then show ?thesis using abs_stops ctx_inv_stops [OF assms(2)] by blast
qed

lemma on_actor_error_effect:
  assumes sup: "supervised vt dec" and inv: "ctx_inv s" and lock: "cx_lock s = Unlocked"
    and act: "act \<noteq> ESCALATE"
  shows "\<exists>s'. on_actor_error vt act target p s = (Inr (), s') \<and> ctx_inv s' \<and>
    abs_ctx s' = (if act = RESUME then abs_ctx s
      else spec_stop (aa_id (d_address target)) (abs_ctx s))"
proof -
  from stop_impl_effect [OF sup inv lock, of "d_address target" EXCEPT] obtain s1 where
    s1: "stop_actor_impl_safety vt (d_address target) EXCEPT s = (Inr (), s1)" "ctx_inv s1"
      "abs_ctx s1 = spec_stop (aa_id (d_address target)) (abs_ctx s)" by blast
  from supervised_calls(1) [OF sup] obtain s2 where
    s2: "call_on_start vt (d_actor target) s1 = (Inr (), s2)" "quiet_change s1 s2"
    unfolding quiet_op_def by fastforce
  from supervised_calls(2) [OF sup] obtain s3 where
    s3: "call_on_child_status vt p (d_address target) WITH_ERROR s = (Inr (), s3)" "quiet_change s s3"
    unfolding quiet_op_def by fastforce
  show ?thesis
    using act s1 s2 s3 ctx_inv_quiet [OF s1(2) s2(2)] ctx_inv_quiet [OF inv s3(2)]
      abs_quiet [OF s2(2)] abs_quiet [OF s3(2)]
    by (cases act) auto
qed

lemma handle_failure_effect:
  assumes sup: "supervised vt dec" and inv: "ctx_inv s" and root: "rooted s" and lock: "cx_lock s = Unlocked"
    and t: "actor_at s (aa_id (d_address target)) = Some target" "d_parent target \<noteq> id_default"
  shows "\<exists>act s'. decided s dec target p act \<and> handle_failure vt target (Some p) s = (Inr (), s') \<and>
    ctx_inv s' \<and> abs_ctx s' = (if act = RESUME then abs_ctx s
      else spec_stop (aa_id (d_address target)) (abs_ctx s))"
proof -
  let ?first = "answer dec s p (d_address target)"
  have "\<exists>act. decided s dec target p act \<and>
      (if ?first = ESCALATE then escalate vt target else retM ?first) s = (Inr act, s)"
    using escalate_verdict [OF sup ctx_invD(2) [OF inv] root lock t] by (auto simp: decided_def)
  then obtain act where d: "decided s dec target p act"
    and a: "(if ?first = ESCALATE then escalate vt target else retM ?first) s = (Inr act, s)" by blast
  from on_actor_error_effect [OF sup inv lock decided_not_escalate [OF d]] obtain s' where
    "on_actor_error vt act target p s = (Inr (), s')" "ctx_inv s'"
    "abs_ctx s' = (if act = RESUME then abs_ctx s
      else spec_stop (aa_id (d_address target)) (abs_ctx s))" by blast
  then show ?thesis
    using d a by (intro exI [of _ act] exI [of _ s'])
      (simp add: handle_failure_def call_child_error [OF sup] bindM_def)
qed

section \<open>Examples\<close>

text \<open>
  The actor \<^verbatim>\<open>/a/b/c\<close> below \<^verbatim>\<open>/a/b\<close> below a root \<^verbatim>\<open>/a\<close> of the library's class, holding one envelope; its
  handler throws and its supervisor answers \<^verbatim>\<open>STOP\<close> or \<^verbatim>\<open>ESCALATE\<close>.
\<close>

definition demo_three :: "unit ctx" where
  "demo_three = demo_family\<lparr>
     objs := (objs demo_family)(0 := (demo_obj 1 ''/a'')\<lparr>class_of := Root_actor\<rparr>, 2 := demo_obj 3 ''/a/b/c''),
     cx_tm := Some (demo_tm [T_on_start 0, T_on_start 1, T_on_start 2]), next_actor_id := 4,
     actors := [(Id_t 1, demo_desc 0 1 ''/a'' id_default [Id_t 2]),
       (Id_t 2, demo_desc 1 2 ''/a/b'' (Id_t 1) [Id_t 3]), (Id_t 3, demo_desc 2 3 ''/a/b/c'' (Id_t 2) [])],
     id_by_name := [(''/a'', Id_t 1), (''/a/b'', Id_t 2), (''/a/b/c'', Id_t 3)],
     mboxes := [(Id_t 1, 0), (Id_t 2, 1), (Id_t 3, 2)], next_mb := 3, next_result := 3\<rparr>"

lemma demo_three_run:
  "add_actor_under base_vtable ''c'' (address_of (Id_t 2) ''/a/b'') 2 demo_family =
     (Inr (address_of (Id_t 3) ''/a/b/c''), demo_three\<lparr>objs :=
        (objs demo_family)(2 := demo_obj 3 ''/a/b/c'')\<rparr>)"
  by (simp add: demo_three_def demo_defs add_defs fun_eq_iff)

lemma demo_three_inv: "ctx_inv demo_three"
proof -
  have "can_add (address_of (Id_t 2) ''/a/b'') ''c'' demo_family" by code_simp
  from ctx_inv_add [OF base_vtable_quiet demo_family_inv this, of 2] demo_three_run show ?thesis by simp
qed

definition demo_vt :: "actor_action_when_error \<Rightarrow> unit vtable" where
  "demo_vt act = base_vtable\<lparr>v_action_handle := (\<lambda>p e. faultM (Throw ''boom'')),
     v_on_child_error := (\<lambda>p a. retM act)\<rparr>"

lemma demo_vt_supervised: "supervised (demo_vt act) (\<lambda>p a. act)"
  using base_vtable_quiet
  by (simp add: supervised_def demo_vt_def quiet_vtable_def base_vtable_def base_on_start_def
      base_on_child_status_def quiet_retM)

definition demo_e :: envelope where
  "demo_e = \<lparr>payload = payload_of (V_int 5), sender = address_default\<rparr>"

definition demo_waiting :: "unit ctx" where
  "demo_waiting = demo_three\<lparr>mbs := (mbs demo_three)(2 := \<lparr>dqueue = [demo_e]\<rparr>),
     objs := (objs demo_three)(2 := (objs demo_three 2)\<lparr>busy := True\<rparr>)\<rparr>"

definition demo_failed :: "unit ctx" where
  "demo_failed = demo_waiting\<lparr>mbs := (mbs demo_three)(2 := \<lparr>dqueue = []\<rparr>),
     objs := (objs demo_three)(2 := (objs demo_three 2)\<lparr>status_kind := WITH_ERROR, status_msg := ''boom''\<rparr>)\<rparr>"

lemma demo_failed_run:
  "actor_apply 2 True (call_action_handle (demo_vt act) 2) 2 2 demo_waiting =
     (Inl (Throw ''boom''), demo_failed)"
proof -
  let ?h = "call_action_handle (demo_vt act) 2"
  let ?s1 = "demo_waiting\<lparr>mbs := (mbs demo_three)(2 := \<lparr>dqueue = []\<rparr>)\<rparr>"
  have q: "mbs demo_waiting 2 = \<lparr>dqueue = [demo_e]\<rparr>" and e: "sendable demo_e"
    by (simp add: demo_waiting_def) code_simp
  have "\<not> library_class (class_of (objs ?s1 2))" by code_simp
  then have h: "?h demo_e ?s1 = (Inl (Throw ''boom''), ?s1)"
    by (simp add: call_action_handle_def vt_of_def demo_vt_def)
  have "mb_try_pop 2 demo_waiting = (Inr (Some demo_e), ?s1)"
    using mb_try_pop_Cons [of demo_waiting 2 demo_e "[]"] q e by (simp add: demo_waiting_def)
  then have loop: "apply_loop 2 ?h 2 demo_waiting = (Inl (Throw ''boom''), ?s1)"
    using h by (simp add: numeral_2_eq_2)
  have "busy (objs demo_waiting 2)" "\<not> mailbox_empty (mbs demo_waiting 2)"
    using q by (simp_all add: demo_waiting_def mailbox_empty_def)
  from actor_apply_nonempty [OF this(2) _ loop, of True 2] this(1)
  have "actor_apply 2 True ?h 2 2 demo_waiting =
      (Inl (Throw ''boom''), set_obj 2 (reset_busy \<circ> update_status_msg WITH_ERROR ''boom'') ?s1)" by simp
  moreover have "set_obj 2 (reset_busy \<circ> update_status_msg WITH_ERROR ''boom'') ?s1 = demo_failed"
    by (simp add: set_obj_def demo_failed_def demo_waiting_def reset_busy_def update_status_msg_def
        demo_three_def demo_obj_def base_actor_new_def)
  ultimately show ?thesis by simp
qed

lemma demo_failed_inv: "ctx_inv demo_failed"
proof -
  have "ctx_inv (demo_three\<lparr>mbs := (mbs demo_three)(2 := \<lparr>dqueue = []\<rparr>)\<rparr>)"
    by (intro ctx_inv_mbs demo_three_inv)
      (simp add: demo_three_def demo_defs mailbox_new_def)
  then show ?thesis by (simp add: demo_failed_def demo_waiting_def)
qed

lemma demo_failed_facts:
  "rooted demo_failed" "cx_lock demo_failed = Unlocked"
  "actor_at demo_failed (Id_t 3) = Some (demo_desc 2 3 ''/a/b/c'' (Id_t 2) [])"
  by code_simp+

lemma demo_desc_sel [simp]:
  "d_address (demo_desc a i path p cs) = address_of (Id_t i) path" "d_parent (demo_desc a i path p cs) = p"
  "d_actor (demo_desc a i path p cs) = a"
  by (simp_all add: demo_desc_def)

section \<open>Properties\<close>

text \<open>
  C9: escalation always ends with a decision: in a context that satisfies its invariant and whose
  parentless actors are the library's root actors, an actor with a parent gets the answer of its nearest
  ancestor that does not itself escalate. The loop neither runs past its bound nor dereferences the end of
  the registry, and the context is unchanged.
\<close>

theorem escalation_decides:
  assumes "supervised vt dec" and "ctx_inv s" and "rooted s" and "cx_lock s = Unlocked"
    and "actor_at s i = Some d" and "d_parent d \<noteq> id_default"
  shows "\<exists>act. escalate vt d s = (Inr act, s) \<and> verdict s dec d act \<and> act \<noteq> ESCALATE"
  using escalate_verdict [OF assms(1) ctx_invD(2) [OF assms(2)] assms(3-)] verdict_not_escalate by blast

theorem escalation_decides_witness:
  "\<exists>act. escalate (demo_vt ESCALATE) (demo_desc 2 3 ''/a/b/c'' (Id_t 2) []) demo_failed = (Inr act, demo_failed) \<and>
    verdict demo_failed (\<lambda>p a. ESCALATE) (demo_desc 2 3 ''/a/b/c'' (Id_t 2) []) act \<and> act \<noteq> ESCALATE"
  by (rule escalation_decides [OF demo_vt_supervised demo_failed_inv demo_failed_facts])
    (simp add: id_default_def)



text \<open>
  C8: what a throwing handler leads to, when the supervisors only decide: \<^verbatim>\<open>apply_actor_to_mailbox\<close> catches the
  exception and returns; the parent's answer, or after \<^verbatim>\<open>ESCALATE\<close> the verdict of its ancestors, decides;
  \<^verbatim>\<open>RESUME\<close> leaves registry and inboxes as the handler left them, and both \<^verbatim>\<open>STOP\<close> and \<^verbatim>\<open>REINIT\<close> remove the actor
  with its descendants: after \<^verbatim>\<open>REINIT\<close> the actor is not registered any more.
\<close>

theorem failure_outcome:
  assumes "supervised vt dec" and "ctx_inv s1" and "rooted s1" and "cx_lock s1 = Unlocked"
    and "actor_at s1 (aa_id (d_address target)) = Some target" and "d_parent target \<noteq> id_default"
    and "actor_apply fuel (double_checks s) (call_action_handle vt (d_actor target)) (d_actor target) m s =
      (Inl (Throw msg), s1)"
  shows "\<exists>act s'. decided s1 dec target p act \<and> act \<noteq> ESCALATE \<and>
    apply_actor_to_mailbox vt fuel target (Some p) m s = (Inr (), s') \<and> ctx_inv s' \<and>
    abs_ctx s' = (if act = RESUME then abs_ctx s1 else spec_stop (aa_id (d_address target)) (abs_ctx s1))"
proof -
  from handle_failure_effect [OF assms(1-6)] obtain act s' where
    d: "decided s1 dec target p act" and h: "handle_failure vt target (Some p) s1 = (Inr (), s')"
    and r: "ctx_inv s'" "abs_ctx s' = (if act = RESUME then abs_ctx s1
      else spec_stop (aa_id (d_address target)) (abs_ctx s1))" by blast
  have "apply_actor_to_mailbox vt fuel target (Some p) m s = (Inr (), s')"
    using assms(7) h by (simp add: apply_actor_to_mailbox_def tryM_def)
  with d r decided_not_escalate [OF d] show ?thesis by blast
qed

theorem failure_outcome_witness:
  "\<exists>act s'. decided demo_failed (\<lambda>p a. STOP) (demo_desc 2 3 ''/a/b/c'' (Id_t 2) []) 1 act \<and>
    apply_actor_to_mailbox (demo_vt STOP) 2 (demo_desc 2 3 ''/a/b/c'' (Id_t 2) []) (Some 1) 2 demo_waiting =
      (Inr (), s') \<and>
    abs_ctx s' = (if act = RESUME then abs_ctx demo_failed else spec_stop (Id_t 3) (abs_ctx demo_failed))"
proof -
  have dc: "double_checks demo_waiting = True"
    by (simp add: demo_waiting_def demo_three_def demo_family_def demo_parent_def demo_ctx_def)
  let ?t = "demo_desc 2 3 ''/a/b/c'' (Id_t 2) []"
  have t: "actor_at demo_failed (aa_id (d_address ?t)) = Some ?t" "d_parent ?t \<noteq> id_default"
    using demo_failed_facts(3) by (simp_all add: id_default_def)
  have run: "actor_apply 2 (double_checks demo_waiting) (call_action_handle (demo_vt STOP) (d_actor ?t))
      (d_actor ?t) 2 demo_waiting = (Inl (Throw ''boom''), demo_failed)"
    using demo_failed_run [of STOP] by (simp only: dc demo_desc_sel)
  from failure_outcome [OF demo_vt_supervised demo_failed_inv demo_failed_facts(1,2) t run, of 1]
  show ?thesis unfolding demo_desc_sel address_sel by blast
qed

end
