(* ===== verification/Yaaf_User_Context.thy ===== *)
theory Yaaf_User_Context
  imports Yaaf_Worker Yaaf_Failure
begin

text \<open>
  The facade \<^verbatim>\<open>user_context\<close> (\<^verbatim>\<open>context.cpp\<close>), through which an actor reaches its context, and the templates of
  \<^verbatim>\<open>abstract_context\<close> on top of it. It holds a weak pointer: the first argument of each operation says whether
  the context is still alive. The facade stamps the sender of what it sends, parents what it adds, and most
  of it goes quiet once the context is stopping.
\<close>

section \<open>Operations\<close>

text \<open>
  \<^verbatim>\<open>get_context\<close> locks a weak pointer to the actor's facade; the first argument says whether a description
  still owns it.
\<close>

definition get_context :: "bool \<Rightarrow> actor_ptr \<Rightarrow> ('u ctx, user_context option) cpp" where
  "get_context live p = getM (\<lambda>s. if live then self_ctx (objs s p) else None)"

definition uc_guard :: "bool \<Rightarrow> 'a \<Rightarrow> ('u ctx, 'a) cpp \<Rightarrow> ('u ctx, 'a) cpp" where
  "uc_guard alive dflt m =
     (if alive then bindM (getM stopping_begin) (\<lambda>b. if \<not> b then m else retM dflt) else retM dflt)"

definition uc_if_alive :: "bool \<Rightarrow> 'a \<Rightarrow> ('u ctx, 'a) cpp \<Rightarrow> ('u ctx, 'a) cpp" where
  "uc_if_alive alive dflt m = (if alive then m else retM dflt)"

definition stamped :: "user_context \<Rightarrow> envelope \<Rightarrow> fault + envelope" where
  "stamped uc e = bindR (payload_copy (payload e)) (\<lambda>p. Inr \<lparr>payload = p, sender = uc_addr uc\<rparr>)"

definition uc_add_actor ::
    "'u vtable \<Rightarrow> bool \<Rightarrow> user_context \<Rightarrow> string \<Rightarrow> actor_ptr \<Rightarrow> ('u ctx, actor_address) cpp" where
  "uc_add_actor vt alive uc actor_name a =
     uc_guard alive address_default (add_actor_under vt actor_name (uc_addr uc) a)"

definition uc_send_envelope ::
    "bool \<Rightarrow> user_context \<Rightarrow> actor_address \<Rightarrow> envelope \<Rightarrow> ('u ctx, unit) cpp" where
  "uc_send_envelope alive uc target e =
     uc_guard alive () (bindM (liftM (stamped uc e)) (\<lambda>cp. send_envelope_rv target cp))"

definition uc_send_envelope_rv ::
    "bool \<Rightarrow> user_context \<Rightarrow> actor_address \<Rightarrow> envelope \<Rightarrow> ('u ctx, unit) cpp" where
  "uc_send_envelope_rv alive uc target e =
     uc_guard alive () (bindM (liftM (stamped uc e)) (\<lambda>cp. send_envelope_rv target cp))"

definition uc_stop_actor :: "'u vtable \<Rightarrow> bool \<Rightarrow> actor_address \<Rightarrow> ('u ctx, unit) cpp" where
  "uc_stop_actor vt alive addr = uc_guard alive () (stop_actor vt addr)"

definition uc_get_actor :: "bool \<Rightarrow> actor_address \<Rightarrow> ('u ctx, actor_ptr option) cpp" where
  "uc_get_actor alive addr = uc_guard alive None (get_actor addr)"

definition uc_get_actor_by_name :: "bool \<Rightarrow> string \<Rightarrow> ('u ctx, actor_ptr option) cpp" where
  "uc_get_actor_by_name alive name = uc_guard alive None (get_actor_by_name name)"

definition uc_get_address :: "bool \<Rightarrow> string \<Rightarrow> ('u ctx, actor_address) cpp" where
  "uc_get_address alive name = uc_if_alive alive address_default (get_address name)"

definition uc_get_name :: "user_context \<Rightarrow> string" where
  "uc_get_name uc = uc_name uc"

definition uc_create_exchange :: "bool \<Rightarrow> user_context \<Rightarrow> string \<Rightarrow> ('u ctx, unit) cpp" where
  "uc_create_exchange alive uc name = uc_if_alive alive () (create_exchange (uc_addr uc) name)"

definition uc_subscribe_to_exchange :: "bool \<Rightarrow> user_context \<Rightarrow> string \<Rightarrow> ('u ctx, unit) cpp" where
  "uc_subscribe_to_exchange alive uc name = uc_if_alive alive () (subscribe_to_exchange (uc_addr uc) name)"

definition uc_publish_to_exchange ::
    "bool \<Rightarrow> user_context \<Rightarrow> string \<Rightarrow> envelope \<Rightarrow> ('u ctx, unit) cpp" where
  "uc_publish_to_exchange alive uc exchange e = uc_if_alive alive ()
     (bindM (liftM (stamped uc e)) (\<lambda>cp. publish_to_exchange_rv exchange cp))"

definition uc_publish_to_exchange_rv ::
    "bool \<Rightarrow> user_context \<Rightarrow> string \<Rightarrow> envelope \<Rightarrow> ('u ctx, unit) cpp" where
  "uc_publish_to_exchange_rv alive uc exchange e = uc_if_alive alive ()
     (bindM (liftM (stamped uc e)) (\<lambda>cp. publish_to_exchange_rv exchange cp))"

definition uc_exchange_exists :: "bool \<Rightarrow> string \<Rightarrow> ('u ctx, bool) cpp" where
  "uc_exchange_exists alive name = uc_if_alive alive False (exchange_exists name)"

text \<open>The templates of \<^verbatim>\<open>abstract_context\<close>, called on a facade or on the context.\<close>

definition uc_send :: "bool \<Rightarrow> user_context \<Rightarrow> actor_address \<Rightarrow> cpp_value \<Rightarrow> ('u ctx, unit) cpp" where
  "uc_send alive uc target t =
     bindM (liftM (payload_assign payload_default (payload_of t))) (\<lambda>p.
       uc_send_envelope alive uc target (envelope_default\<lparr>payload := p\<rparr>))"

definition uc_publish :: "bool \<Rightarrow> user_context \<Rightarrow> string \<Rightarrow> cpp_value \<Rightarrow> ('u ctx, unit) cpp" where
  "uc_publish alive uc exchange t =
     bindM (liftM (payload_assign payload_default (payload_of t))) (\<lambda>p.
       uc_publish_to_exchange alive uc exchange (envelope_default\<lparr>payload := p\<rparr>))"

definition ctx_publish :: "string \<Rightarrow> cpp_value \<Rightarrow> ('u ctx, unit) cpp" where
  "ctx_publish exchange t =
     bindM (liftM (payload_assign payload_default (payload_of t))) (\<lambda>p.
       publish_to_exchange exchange (envelope_default\<lparr>payload := p\<rparr>))"

text \<open>
  \<^verbatim>\<open>actor_cast\<close>: the lookup, then \<^verbatim>\<open>std::dynamic_pointer_cast\<close>; \<open>is_T\<close> tells the classes that are or derive from
  the requested one.
\<close>

definition dynamic_cast :: "(actor_class \<Rightarrow> bool) \<Rightarrow> actor_ptr option \<Rightarrow> ('u ctx, actor_ptr option) cpp" where
  "dynamic_cast is_T p = (case p of
       None \<Rightarrow> retM None
     | Some q \<Rightarrow> getM (\<lambda>s. if is_T (class_of (objs s q)) then Some q else None))"

definition actor_cast_name :: "(actor_class \<Rightarrow> bool) \<Rightarrow> string \<Rightarrow> ('u ctx, actor_ptr option) cpp" where
  "actor_cast_name is_T name = bindM (get_actor_by_name name) (dynamic_cast is_T)"

definition actor_cast_addr :: "(actor_class \<Rightarrow> bool) \<Rightarrow> actor_address \<Rightarrow> ('u ctx, actor_ptr option) cpp" where
  "actor_cast_addr is_T addr = bindM (get_actor addr) (dynamic_cast is_T)"

section \<open>What the facade adds\<close>

lemma uc_guard_simps [simp]:
  "uc_guard False dflt m s = (Inr dflt, s)"
  "stopping_begin s \<Longrightarrow> uc_guard alive dflt m s = (Inr dflt, s)"
  "\<not> stopping_begin s \<Longrightarrow> uc_guard True dflt m s = m s"
  by (simp_all add: uc_guard_def)

lemma stamped_eq: "stamped uc e = (if sendable e then Inr \<lparr>payload = payload e, sender = uc_addr uc\<rparr> else Inl NullDeref)"
  by (cases "payload e") (auto simp: stamped_def sendable_def payload_empty_def)

lemma preserves_uc_guard [triple_intro]: "preserves I m \<Longrightarrow> preserves I (uc_guard alive dflt m)"
  unfolding uc_guard_def by (intro triple_intro; assumption)

lemma preserves_uc_if_alive [triple_intro]: "preserves I m \<Longrightarrow> preserves I (uc_if_alive alive dflt m)"
  unfolding uc_if_alive_def by (intro triple_intro; assumption)

lemma uc_send_run:
  assumes "\<not> stopping_begin s" and "sendable e"
  shows "uc_send_envelope True uc target e s = send_envelope target \<lparr>payload = payload e, sender = uc_addr uc\<rparr> s"
    and "uc_send_envelope_rv True uc target e s = send_envelope target \<lparr>payload = payload e, sender = uc_addr uc\<rparr> s"
  using assms by (simp_all add: uc_send_envelope_def uc_send_envelope_rv_def stamped_eq send_envelope_rv_eq)

lemma sendable_restamp [simp]: "sendable \<lparr>payload = payload e, sender = a\<rparr> = sendable e"
  by (simp add: sendable_def)

text \<open>Sending a value to a registered actor of a context that is running.\<close>

lemma uc_send_value:
  assumes "\<not> stopping_begin s" and "cx_lock s = Unlocked" and "aa_pathname target \<noteq> null_pathname"
    and "aa_pathname (uc_addr uc) \<noteq> null_pathname" and "mbox_at s (aa_id target) = Some m"
  shows "uc_send True uc target v s = (Inr (), s\<lparr>mbs := (mbs s)(m := (mbs s m)\<lparr>dqueue :=
    queue_at s m @ [\<lparr>payload = payload_of v, sender = uc_addr uc\<rparr>]\<rparr>)\<rparr>)"
proof -
  let ?e = "\<lparr>payload = payload_of v, sender = uc_addr uc\<rparr>"
  have "may_send target ?e s" using assms by (simp add: may_send_def sendable_def payload_empty_def payload_of_def)
  from send_envelope_run [OF this] show ?thesis
    using uc_send_run(1) [OF assms(1), of "envelope_default\<lparr>payload := payload_of v\<rparr>" uc target] assms(5)
    by (simp add: uc_send_def payload_copy_def sendable_def payload_empty_def payload_of_def)
qed

section \<open>Properties\<close>

text \<open>
  C22: an actor cannot send in another's name: both overloads of the facade's \<^verbatim>\<open>send_envelope\<close> put in the
  addressee's inbox the payload they were given, with the facade's own address as the sender, whatever sender
  the envelope carried; nothing else in the registry changes.
\<close>

theorem facade_stamps_sender:
  assumes "ctx_inv s" and "\<not> stopping_begin s" and "cx_lock s = Unlocked" and "sendable e"
    and "aa_pathname target \<noteq> null_pathname" and "aa_pathname (uc_addr uc) \<noteq> null_pathname"
  shows "\<exists>s'. uc_send_envelope True uc target e s = (Inr (), s') \<and>
    uc_send_envelope_rv True uc target e s = (Inr (), s') \<and> ctx_inv s' \<and>
    abs_ctx s' = spec_send (aa_id target) \<lparr>payload = payload e, sender = uc_addr uc\<rparr> (abs_ctx s)"
proof -
  let ?e = "\<lparr>payload = payload e, sender = uc_addr uc\<rparr>"
  have may: "may_send target ?e s" using assms by (simp add: may_send_def)
  have "ctx_inv (snd (send_envelope target ?e s))" using preserves_snd [OF preserves_send(1) assms(1)] .
  then show ?thesis
    using send_envelope_run [OF may] abs_send [OF assms(1) may] uc_send_run [OF assms(2,4)] by simp
qed

theorem facade_stamps_sender_witness:
  "\<exists>s'. uc_send_envelope True (demo_uc 1 ''/a'') (address_of (Id_t 2) ''/a/b'')
      \<lparr>payload = payload_of (V_int 5), sender = address_of (Id_t 2) ''/a/b''\<rparr> demo_family = (Inr (), s') \<and>
    inbox (abs_ctx s') (Id_t 2) = Some [\<lparr>payload = payload_of (V_int 5), sender = address_of (Id_t 1) ''/a''\<rparr>]"
proof -
  let ?e = "\<lparr>payload = payload_of (V_int 5), sender = address_of (Id_t 2) ''/a/b''\<rparr>"
  let ?e' = "\<lparr>payload = payload ?e, sender = uc_addr (demo_uc 1 ''/a'')\<rparr>"
  have "\<not> stopping_begin demo_family" "cx_lock demo_family = Unlocked" "sendable ?e"
    "aa_pathname (address_of (Id_t 2) ''/a/b'') \<noteq> null_pathname" "aa_pathname (uc_addr (demo_uc 1 ''/a'')) \<noteq> null_pathname"
    by code_simp+
  from facade_stamps_sender [OF demo_family_inv this] obtain s' where
    r: "uc_send_envelope True (demo_uc 1 ''/a'') (address_of (Id_t 2) ''/a/b'') ?e demo_family = (Inr (), s')"
    and a: "abs_ctx s' = spec_send (Id_t 2) ?e' (abs_ctx demo_family)" unfolding address_sel by blast
  have "inbox (spec_send (Id_t 2) ?e' (abs_ctx demo_family)) (Id_t 2) =
      Some [\<lparr>payload = payload_of (V_int 5), sender = address_of (Id_t 1) ''/a''\<rparr>]" by code_simp
  with r a show ?thesis by metis
qed

text \<open>
  Through a facade whose context is gone, and on a context that has begun to stop, adding, sending,
  stopping and looking up actors do nothing: they return an empty result and change no state.
\<close>

theorem facade_quiet_after_stop:
  assumes "\<not> alive \<or> stopping_begin s"
  shows "uc_add_actor vt alive uc nm a s = (Inr address_default, s) \<and>
    uc_send_envelope alive uc target e s = (Inr (), s) \<and> uc_send_envelope_rv alive uc target e s = (Inr (), s) \<and>
    uc_stop_actor vt alive addr s = (Inr (), s) \<and> uc_get_actor alive addr s = (Inr None, s) \<and>
    uc_get_actor_by_name alive nm s = (Inr None, s)"
  using assms
  by (cases alive) (simp_all add: uc_add_actor_def uc_send_envelope_def uc_send_envelope_rv_def uc_stop_actor_def
      uc_get_actor_def uc_get_actor_by_name_def)

theorem facade_quiet_after_stop_witness:
  "uc_add_actor base_vtable False (demo_uc 1 ''/a'') ''c'' 7 demo_family = (Inr address_default, demo_family)"
  using facade_quiet_after_stop [of False demo_family base_vtable "demo_uc 1 ''/a''" "''c''" 7] by simp

end
