(* ===== verification/Yaaf_System.thy ===== *)
theory Yaaf_System
  imports Yaaf_User_Context
begin

text \<open>
  The threads of a context at work: what a pool thread does with a posted task, and the interleaving of the
  mailbox worker, the user pool's threads, running handlers and client calls. The main result is mutual
  exclusion: at any time at most one thread is inside an actor's handler loop, and the actor is then busy.
\<close>

section \<open>Running a task\<close>

text \<open>
  The closures of \<^verbatim>\<open>user_post\<close> and \<^verbatim>\<open>sys_post\<close>: the check of the thread's kind, the body, the strategy.
\<close>

fun expected_kind :: "ctx_task \<Rightarrow> thread_kind_t" where
  "expected_kind T_mailbox_worker = SYSTEM"
| "expected_kind _ = USER"

fun run_body :: "'u vtable \<Rightarrow> nat \<Rightarrow> try_outcomes \<Rightarrow> ctx_task \<Rightarrow> ('u ctx, unit) cpp" where
  "run_body vt fuel oc (T_on_start p) = call_on_start vt p"
| "run_body vt fuel oc (T_apply d parent m) = apply_actor_to_mailbox vt fuel d parent m"
| "run_body vt fuel oc T_mailbox_worker = mailbox_worker oc"

fun run_task ::
    "'u vtable \<Rightarrow> nat \<Rightarrow> try_outcomes \<Rightarrow> thread_kind_t \<Rightarrow> posted_task \<Rightarrow> ('u ctx, continuation_strategy) cpp" where
  "run_task vt fuel oc kind (f, strategy) = bindM (getM double_checks) (\<lambda>dc.
     seqM (liftM (tkind_check dc kind (expected_kind f)))
     (seqM (run_body vt fuel oc f) (retM strategy)))"

text \<open>An exception that leaves the function of a pool thread ends the process.\<close>

definition thread_run ::
    "'u vtable \<Rightarrow> nat \<Rightarrow> try_outcomes \<Rightarrow> thread_kind_t \<Rightarrow> posted_task \<Rightarrow> ('u ctx, continuation_strategy) cpp" where
  "thread_run vt fuel oc kind t = (\<lambda>s. case run_task vt fuel oc kind t s of
       (Inl (Throw _), s') \<Rightarrow> (Inl Terminate, s')
     | r \<Rightarrow> r)"

section \<open>Claims on an actor\<close>

text \<open>The actors for which an apply task is queued, with multiplicity.\<close>

definition apply_claims :: "'u ctx \<Rightarrow> actor_ptr multiset" where
  "apply_claims s = mset (List.map_filter apply_actor (user_queue s))"

text \<open>
  Every actor has at most one claim on it, queued or inside its handler, and it is busy exactly when there
  is one.
\<close>

definition exclusive :: "'u ctx \<Rightarrow> actor_ptr multiset \<Rightarrow> bool" where
  "exclusive s inside \<longleftrightarrow> (\<forall>p. count (apply_claims s + inside) p = (if busy (objs s p) then 1 else 0))"

text \<open>Allocation: registered and busy actors are objects that exist.\<close>

definition alloc_inv :: "'u ctx \<Rightarrow> bool" where
  "alloc_inv s \<longleftrightarrow> (\<forall>i d. actor_at s i = Some d \<longrightarrow> d_actor d < next_obj s) \<and>
     (\<forall>p. busy (objs s p) \<longrightarrow> p < next_obj s)"

definition sys_inv :: "'u ctx \<Rightarrow> actor_ptr multiset \<Rightarrow> bool" where
  "sys_inv s inside \<longleftrightarrow> ctx_inv s \<and> unlocked s \<and> own_objects s \<and> alloc_inv s \<and> exclusive s inside"

section \<open>The steps\<close>

text \<open>
  Calls into the context, by a client thread or by a running handler through its facade; handlers also take
  envelopes from their mailbox, and a failed one has its actor stopped. An actor object is added once.
\<close>

inductive client_op :: "'u vtable \<Rightarrow> 'u ctx \<Rightarrow> 'u ctx \<Rightarrow> bool" for vt where
  op_send: "send_envelope target e s = (r, s') \<Longrightarrow> client_op vt s s'"
| op_publish: "publish_to_exchange nm e s = (r, s') \<Longrightarrow> client_op vt s s'"
| op_subscribe: "subscribe_to_exchange target nm s = (r, s') \<Longrightarrow> client_op vt s s'"
| op_create: "create_exchange owner nm s = (r, s') \<Longrightarrow> client_op vt s s'"
| op_pop: "mb_try_pop m s = (r, s') \<Longrightarrow> client_op vt s s'"
| op_new: "new_actor k s = (r, s') \<Longrightarrow> client_op vt s s'"
| op_add: "can_add parent nm s \<Longrightarrow> a < next_obj s \<Longrightarrow> (\<And>i d. actor_at s i = Some d \<Longrightarrow> d_actor d \<noteq> a) \<Longrightarrow>
    add_actor_under vt nm parent a s = (r, s') \<Longrightarrow> client_op vt s s'"
| op_stop: "stop_actor_impl_safety vt addr reason s = (r, s') \<Longrightarrow> client_op vt s s'"
| op_roots: "client_op vt s (s\<lparr>root_addr := ra, usr_root := ua, sys_root := sa\<rparr>)"

text \<open>
  The interleaving: a pass of the mailbox worker; a thread of the user pool takes the task its search
  finds, as in \<open>Yaaf_Async\<close>, and enters the handler loop if it is an apply task; it goes back for more; a
  call; a handler loop ends, with either status, and releases the actor. The relation allows more than the
  code: it does not ask that a thread leaves its handler loop before it goes back for more.
\<close>

definition with_user_pool :: "posted_task threads_pool \<Rightarrow> posted_task thread_manager \<Rightarrow> 'u ctx \<Rightarrow> 'u ctx" where
  "with_user_pool p m s = s\<lparr>cx_tm := Some (m\<lparr>tm_pools := AList.update USER p (tm_pools m)\<rparr>)\<rparr>"

definition entered :: "ctx_task \<Rightarrow> actor_ptr multiset" where
  "entered t = (case apply_actor t of None \<Rightarrow> {#} | Some p \<Rightarrow> {#p#})"

inductive sys_step ::
    "'u vtable \<Rightarrow> 'u ctx \<times> actor_ptr multiset \<Rightarrow> 'u ctx \<times> actor_ptr multiset \<Rightarrow> bool" for vt where
  worker_pass: "can_post s \<Longrightarrow> mailbox_worker oc s = (r, s') \<Longrightarrow> sys_step vt (s, ins) (s', ins)"
| take_task: "cx_tm s = Some m \<Longrightarrow> map_of (tm_pools m) USER = Some p \<Longrightarrow>
    i < length (workers p) \<Longrightarrow> workers p ! i = W_loop \<Longrightarrow> \<not> stop_flag p \<Longrightarrow>
    select_task (in_queue p) = Some t \<Longrightarrow>
    sys_step vt (s, ins) (with_user_pool (set_worker i (W_running t)
        (p\<lparr>in_queue := remove1 t (in_queue p), task_runned := task_runned p + 1\<rparr>)) m s,
      entered (fst (tw_task t)) + ins)"
| task_done: "cx_tm s = Some m \<Longrightarrow> map_of (tm_pools m) USER = Some p \<Longrightarrow>
    i < length (workers p) \<Longrightarrow> workers p ! i = W_running t \<Longrightarrow>
    sys_step vt (s, ins) (with_user_pool (set_worker i W_loop (p\<lparr>task_runned := task_runned p - 1\<rparr>)) m s, ins)"
| client: "client_op vt s s' \<Longrightarrow> sys_step vt (s, ins) (s', ins)"
| handler_ends: "p \<in># ins \<Longrightarrow>
    sys_step vt (s, ins) (set_obj p (reset_busy \<circ> update_status_msg k msg) s, ins - {#p#})"

inductive sys_run ::
    "'u vtable \<Rightarrow> 'u ctx \<times> actor_ptr multiset \<Rightarrow> 'u ctx \<times> actor_ptr multiset \<Rightarrow> bool" for vt c where
  sys_run_refl: "sys_run vt c c"
| sys_run_step: "sys_run vt c c1 \<Longrightarrow> sys_step vt c1 c2 \<Longrightarrow> sys_run vt c c2"

section \<open>Every step keeps the invariant\<close>

lemma mset_map_filter: "mset (List.map_filter f xs) = image_mset the (filter_mset (\<lambda>y. y \<noteq> None) (image_mset f (mset xs)))"
  by (induction xs) (auto simp: List.map_filter_def)

lemma apply_claims_append: "user_queue s' = user_queue s @ ts \<Longrightarrow>
   apply_claims s' = apply_claims s + mset (List.map_filter apply_actor ts)"
  by (simp add: apply_claims_def List.map_filter_def)

lemma apply_claims_due:
  "own_objects s \<Longrightarrow> wf_map kvs \<Longrightarrow>
   count (mset (List.map_filter apply_actor (due s kvs))) p = (if p \<in> due_actors (due s kvs) then 1 else 0)"
proof (induction kvs)
  case (Cons kv kvs)
  obtain i m where kv: "kv = (i, m)" by (cases kv)
  have IH: "count (mset (List.map_filter apply_actor (due s kvs))) p = (if p \<in> due_actors (due s kvs) then 1 else 0)"
    using Cons by simp
  have fresh: "d_actor d \<notin> due_actors (due s kvs)" if d: "actor_at s i = Some d" for d
  proof
    assume "d_actor d \<in> due_actors (due s kvs)"
    from due_actors_due [OF this] obtain j m' e where "(j, m') \<in> set kvs" "actor_at s j = Some e" "d_actor e = d_actor d"
      by blast
    moreover from this d have "j = i" using Cons.prems(1) unfolding own_objects_def by blast
    ultimately show False using Cons.prems(2) by (force simp: kv)
  qed
  show ?case
    using IH fresh by (auto simp: kv List.map_filter_simps split: option.splits)
qed (simp add: List.map_filter_simps)

lemma exclusive_dispatched:
  assumes own: "own_objects s" and wf: "wf_map (mboxes s)" and d: "dispatched s s' (due s (mboxes s))"
    and ex: "exclusive s ins"
  shows "exclusive s' ins"
  unfolding exclusive_def
proof
  fix p
  let ?ts = "due s (mboxes s)"
  note sel = dispatched_sel [OF d]
  have "count (apply_claims s' + ins) p =
      count (apply_claims s + ins) p + (if p \<in> due_actors ?ts then 1 else 0)"
    using apply_claims_append [OF sel(11)] apply_claims_due [OF own wf, of p] by simp
  moreover have "\<not> busy (objs s p)" if "p \<in> due_actors ?ts" using due_actors_due [OF that] by blast
  ultimately show "count (apply_claims s' + ins) p = (if busy (objs s' p) then 1 else 0)"
    using ex [unfolded exclusive_def, rule_format, of p]
    by (cases "p \<in> due_actors ?ts") (auto simp: sel(7) mark_busy_def split: if_splits)
qed

lemma exclusive_cong:
  "objs s' = objs s \<Longrightarrow> cx_tm s' = cx_tm s \<Longrightarrow> exclusive s' ins = exclusive s ins"
  by (simp add: exclusive_def apply_claims_def user_queue_def)

lemma own_objects_cong: "actors s' = actors s \<Longrightarrow> own_objects s' = own_objects s"
  by (simp add: own_objects_def)

lemma alloc_inv_cong:
  "actors s' = actors s \<Longrightarrow> objs s' = objs s \<Longrightarrow> next_obj s' = next_obj s \<Longrightarrow> alloc_inv s' = alloc_inv s"
  by (simp add: alloc_inv_def)

lemma alloc_inv_dispatched:
  assumes "alloc_inv s" and d: "dispatched s s' (due s kvs)"
  shows "alloc_inv s'"
proof -
  have "next_obj s' = next_obj s" using d by (auto simp: dispatched_def)
  moreover have "p < next_obj s" if "p \<in> due_actors (due s kvs)" for p
    using due_actors_due [OF that] assms(1) by (auto simp: alloc_inv_def)
  ultimately show ?thesis
    using assms(1) by (auto simp: alloc_inv_def dispatched_sel [OF d] mark_busy_def split: if_splits)
qed

lemma worker_pass_inv:
  assumes inv: "sys_inv s ins" and cp: "can_post s" and run: "mailbox_worker oc s = (r, s')"
  shows "sys_inv s' ins"
proof -
  from inv have i: "ctx_inv s" "unlocked s" "own_objects s" "alloc_inv s" "exclusive s ins"
    by (simp_all add: sys_inv_def)
  from mailbox_worker_run [OF i(1,2) cp i(3), of oc] run obtain s1 where
    r: "ctx_inv s'" "unlocked s'"
    and d1: "if o_xshared oc \<and> o_excl oc
      then delivers s s1 (set (pubs_of (exchanges s))) (\<lambda>i. fan_out_all i (exchanges s) s) else s1 = s"
    and a: "after_dispatch oc s1 s'" by auto
  have s1: "objs s1 = objs s" "cx_tm s1 = cx_tm s" "actors s1 = actors s" "mboxes s1 = mboxes s"
    "next_obj s1 = next_obj s"
    using d1 by (auto simp: delivers_def split: if_splits)
  have own1: "own_objects s1" and ex1: "exclusive s1 ins" and al1: "alloc_inv s1"
    using own_objects_cong [of s1 s] exclusive_cong [of s1 s] alloc_inv_cong [of s1 s] s1 i by auto
  have wf: "wf_map (mboxes s1)" using ctx_invD(1) [OF i(1)] s1 by (simp add: inv_maps_def)
  have "own_objects s' \<and> alloc_inv s' \<and> exclusive s' ins"
  proof (cases "o_shared oc")
    case True
    with a obtain t where t: "dispatched s1 t (due s1 (mboxes s1))"
      and s': "s' = (if o_xexcl oc then t\<lparr>exchanges := live_exchanges t\<rparr> else t)" by (auto simp: after_dispatch_def)
    have "exclusive t ins" by (rule exclusive_dispatched [OF own1 wf t ex1])
    moreover have "own_objects t" using own_objects_cong [of t s1] dispatched_sel(1) [OF t] own1 by simp
    moreover have "alloc_inv t" by (rule alloc_inv_dispatched [OF al1 t])
    ultimately show ?thesis
      using exclusive_cong [of s' t] own_objects_cong [of s' t] alloc_inv_cong [of s' t] s' by simp
  next
    case False
    with a own1 ex1 al1 show ?thesis by (simp add: after_dispatch_def)
  qed
  with r show ?thesis by (simp add: sys_inv_def)
qed

lemma mset_remove1_map_filter:
  "t \<in> set q \<Longrightarrow> mset (List.map_filter f (map g q)) =
     (case f (g t) of None \<Rightarrow> {#} | Some y \<Rightarrow> {#y#}) + mset (List.map_filter f (map g (remove1 t q)))"
  by (induction q) (auto simp: List.map_filter_simps split: option.splits)

lemma take_task_inv:
  assumes inv: "sys_inv s ins" and m: "cx_tm s = Some m" and p: "map_of (tm_pools m) USER = Some p"
    and t: "select_task (in_queue p) = Some t"
    and p': "in_queue p' = remove1 t (in_queue p)"
  shows "sys_inv (with_user_pool p' m s) (entered (fst (tw_task t)) + ins)"
proof -
  let ?s = "with_user_pool p' m s"
  have uq: "user_queue s = map (fst \<circ> tw_task) (in_queue p)"
    "user_queue ?s = map (fst \<circ> tw_task) (remove1 t (in_queue p))"
    using m p p' by (simp_all add: user_queue_def with_user_pool_def tm_queue_def)
  have "apply_claims s = entered (fst (tw_task t)) + apply_claims ?s"
    unfolding apply_claims_def uq entered_def
    using mset_remove1_map_filter [OF select_task_in [OF t], of apply_actor "fst \<circ> tw_task"] by simp
  then have "apply_claims ?s + (entered (fst (tw_task t)) + ins) = apply_claims s + ins" by (simp add: ac_simps)
  moreover have "objs ?s = objs s" by (simp add: with_user_pool_def)
  ultimately have "exclusive ?s (entered (fst (tw_task t)) + ins)"
    using inv unfolding exclusive_def sys_inv_def by metis
  then show ?thesis
    using inv by (simp add: sys_inv_def) (simp add: with_user_pool_def own_objects_def alloc_inv_def)
qed

lemma task_done_inv:
  assumes inv: "sys_inv s ins" and m: "cx_tm s = Some m" and p: "map_of (tm_pools m) USER = Some p"
    and p': "in_queue p' = in_queue p"
  shows "sys_inv (with_user_pool p' m s) ins"
proof -
  let ?s = "with_user_pool p' m s"
  have "user_queue ?s = user_queue s" using m p p' by (simp add: user_queue_def with_user_pool_def tm_queue_def)
  then have "exclusive ?s ins"
    using inv by (simp add: sys_inv_def exclusive_def apply_claims_def) (simp add: with_user_pool_def)
  then show ?thesis
    using inv by (simp add: sys_inv_def) (simp add: with_user_pool_def own_objects_def alloc_inv_def)
qed

lemma handler_ends_inv:
  assumes inv: "sys_inv s ins" and p: "p \<in># ins"
  shows "sys_inv (set_obj p (reset_busy \<circ> update_status_msg k msg) s) (ins - {#p#})"
proof -
  let ?s = "set_obj p (reset_busy \<circ> update_status_msg k msg) s"
  have ex: "count (apply_claims s + ins) q = (if busy (objs s q) then 1 else 0)" for q
    using inv by (simp add: sys_inv_def exclusive_def)
  have c: "apply_claims ?s = apply_claims s" by (simp add: apply_claims_def user_queue_def set_obj_def)
  have "count (apply_claims s) p + count ins p \<le> 1" using ex [of p] by (simp split: if_splits)
  moreover have "0 < count ins p" using p by (simp only: count_greater_zero_iff)
  ultimately have one: "count (apply_claims s) p = 0" "count ins p = 1" by linarith+
  have "exclusive ?s (ins - {#p#})"
    unfolding exclusive_def c
  proof
    fix q
    show "count (apply_claims s + (ins - {#p#})) q = (if busy (objs ?s q) then 1 else 0)"
      using ex [of q] one by (cases "q = p") (simp_all add: set_obj_def)
  qed
  then show ?thesis
    using inv by (auto simp: sys_inv_def set_obj_def own_objects_def alloc_inv_def split: if_splits)
qed

text \<open>
  A call is safe when it leaves queued apply tasks and busy flags alone and keeps the other parts of the
  invariant.
\<close>

definition client_change :: "'u ctx \<Rightarrow> 'u ctx \<Rightarrow> bool" where
  "client_change s s' \<longleftrightarrow> ctx_inv s' \<and> unlocked s' \<and> own_objects s' \<and> alloc_inv s' \<and>
     apply_claims s' = apply_claims s \<and> (\<forall>p. busy (objs s' p) = busy (objs s p))"

lemma client_change_inv: "sys_inv s ins \<Longrightarrow> client_change s s' \<Longrightarrow> sys_inv s' ins"
  by (simp add: sys_inv_def client_change_def exclusive_def)

text \<open>The operations that touch neither the registry nor actor objects.\<close>

definition same_core :: "'u ctx \<Rightarrow> rw_lock \<Rightarrow> rw_lock \<Rightarrow> 'u ctx \<Rightarrow> bool" where
  "same_core t l x s \<longleftrightarrow> actors s = actors t \<and> cx_tm s = cx_tm t \<and> objs s = objs t \<and> next_obj s = next_obj t \<and>
     cx_lock s = l \<and> cx_xlock s = x"

lemma preserves_same_core_locked [triple_intro]:
  assumes m: "\<And>l x. preserves (same_core t l x) m"
  shows "preserves (same_core t l x) (with_excl m)" "preserves (same_core t l x) (with_shared m)"
    "preserves (same_core t l x) (with_xexcl m)" "preserves (same_core t l x) (with_xshared m)"
proof -
  note p = preserves_snd [OF m]
  have s: "same_core t k x (s\<lparr>cx_lock := k\<rparr>)" "same_core t l k (s\<lparr>cx_xlock := k\<rparr>)" if "same_core t l x s" for s k
    using that by (simp_all add: same_core_def)
  have lock: "same_core t l x (snd (with_excl m s))" "same_core t l x (snd (with_shared m s))"
    "same_core t l x (snd (with_xexcl m s))" "same_core t l x (snd (with_xshared m s))" if c: "same_core t l x s" for s
    using c p [OF s(1) [OF c], of Exclusive] p [OF s(1) [OF c], of Shared]
      p [OF s(2) [OF c], of Exclusive] p [OF s(2) [OF c], of Shared]
    by (auto simp: lock_defs same_core_def split: prod.splits)
  then show "preserves (same_core t l x) (with_excl m)" "preserves (same_core t l x) (with_shared m)"
    "preserves (same_core t l x) (with_xexcl m)" "preserves (same_core t l x) (with_xshared m)"
    by (auto intro: preservesI)
qed

lemma preserves_same_core_push [triple_intro]:
  "preserves (same_core t l x) (mb_push m e)" "preserves (same_core t l x) (mb_try_pop m)"
  by (rule preservesI; auto simp: same_core_def mb_try_pop_def split: sum.splits prod.splits)+

lemma preserves_same_core_new [triple_intro]: "preserves (same_core t l x) (create_exchange_unsafe owner nm)"
  by (rule preservesI) (simp add: same_core_def with_exchange_def split: option.splits)

lemma preserves_same_core_ops:
  "preserves (same_core t l x) (send_envelope target e)" "preserves (same_core t l x) (publish_to_exchange nm e)"
  "preserves (same_core t l x) (subscribe_to_exchange target nm)"
  "preserves (same_core t l x) (create_exchange owner nm)" "preserves (same_core t l x) (mb_try_pop m)"
proof -
  have a: "preserves (same_core t l x) (modM (add_subscriber nm i))" for l x i
    by (rule preservesI) (simp add: same_core_def add_subscriber_def split: option.splits)
  show "preserves (same_core t l x) (send_envelope target e)"
    unfolding send_envelope_def ensure_not_null_def by (intro triple_intro)
  show "preserves (same_core t l x) (publish_to_exchange nm e)"
    unfolding publish_to_exchange_def publish_to_exchange_rv_def by (intro triple_intro; assumption)
  show "preserves (same_core t l x) (subscribe_to_exchange target nm)"
    unfolding subscribe_to_exchange_def by (intro triple_intro a)
  show "preserves (same_core t l x) (create_exchange owner nm)"
    unfolding create_exchange_def by (intro triple_intro)
  show "preserves (same_core t l x) (mb_try_pop m)" by (intro triple_intro)
qed

lemma client_change_same_core:
  assumes inv: "sys_inv s ins" and c: "\<And>t l x. preserves (same_core t l x) m" and i: "preserves ctx_inv m"
    and run: "m s = (r, s')"
  shows "client_change s s'"
proof -
  have "same_core s Unlocked Unlocked (snd (m s))"
    using inv by (intro preserves_snd [OF c]) (simp add: same_core_def sys_inv_def)
  then have s': "actors s' = actors s" "cx_tm s' = cx_tm s" "objs s' = objs s" "next_obj s' = next_obj s" "unlocked s'"
    by (simp_all add: run same_core_def)
  have "ctx_inv s'" using inv preserves_snd [OF i, of s] by (simp add: run sys_inv_def)
  with s' inv show ?thesis
    using own_objects_cong [of s' s] alloc_inv_cong [of s' s]
    by (simp add: client_change_def sys_inv_def apply_claims_def user_queue_def)
qed

lemma preserves_ctx_inv_pop: "preserves ctx_inv (mb_try_pop m)"
proof (rule preservesI)
  fix s assume inv: "ctx_inv s"
  have q: "list_all sendable (queue_at s k)" for k using ctx_invD(6) [OF inv] by (simp add: inv_queues_def)
  show "ctx_inv (snd (mb_try_pop m s))"
  proof (cases "queue_at s m")
    case (Cons e es)
    then have "list_all sendable es" "sendable e" using q [of m] by simp_all
    then show ?thesis using Cons q by (simp add: ctx_inv_mbs [OF inv])
  qed (simp add: inv)
qed

section \<open>Callbacks that leave a private member alone\<close>

text \<open>
  The flag \<^verbatim>\<open>_busy\<close> is private to \<^verbatim>\<open>base_actor\<close> and the class of an object is fixed when it is made: an override can
  change neither. Of the callbacks a client's call runs, the contract asks this besides being quiet, for a
  member \<open>g\<close>.
\<close>

definition field_is :: "(base_actor \<Rightarrow> 'f) \<Rightarrow> (actor_ptr \<Rightarrow> 'f) \<Rightarrow> 'u ctx \<Rightarrow> bool" where
  "field_is g b s \<longleftrightarrow> (\<forall>p. g (objs s p) = b p)"

definition field_private :: "(base_actor \<Rightarrow> 'f) \<Rightarrow> 'u vtable \<Rightarrow> bool" where
  "field_private g vt \<longleftrightarrow> (\<forall>p st a r b. preserves (field_is g b) (v_on_init vt p st) \<and>
     preserves (field_is g b) (v_on_stop vt p) \<and> preserves (field_is g b) (v_on_child_stopped vt p a r))"

abbreviation busy_private :: "'u vtable \<Rightarrow> bool" where
  "busy_private \<equiv> field_private busy"

lemma preserves_field_upd_obj [triple_intro]:
  "(\<And>x. g (f x) = g x) \<Longrightarrow> preserves (field_is g b) (upd_obj p f)"
  by (rule preservesI) (simp add: field_is_def)

lemma preserves_field_modM: "(\<And>s. objs (h s) = objs s) \<Longrightarrow> preserves (field_is g b) (modM h)"
  by (rule preservesI) (simp add: field_is_def)

lemma preserves_field_locked [triple_intro]:
  assumes "preserves (field_is g b) m"
  shows "preserves (field_is g b) (with_excl m)" "preserves (field_is g b) (with_shared m)"
  using assms by (intro preserves_locked; simp add: field_is_def)+

lemma base_vtable_private: "(\<And>k x. g (update_status k x) = g x) \<Longrightarrow> field_private g base_vtable"
  unfolding field_private_def base_vtable_def base_on_init_def base_on_stop_def base_on_child_stopped_def
  by (auto intro: triple_intro)

lemma preserves_dispatch:
  "preserves I (f base_vtable) \<Longrightarrow> preserves I (f vt) \<Longrightarrow> preserves I (\<lambda>s. f (vt_of vt s p) s)"
  unfolding vt_of_def by (auto intro!: preservesI dest: preserves_snd)

locale private_field = quiet_callbacks vt for vt :: "'u vtable" +
  fixes g :: "base_actor \<Rightarrow> 'f"
  assumes priv: "field_private g vt"
    and kept: "g (update_status k x) = g x" "g (set_context uc x) = g x" "g (set_self_addr addr x) = g x"
begin

lemma preserves_field_calls [triple_intro]:
  "preserves (field_is g b) (call_on_init vt p st)" "preserves (field_is g b) (call_on_stop vt p)"
  "preserves (field_is g b) (call_on_child_stopped vt p a r)"
  using priv base_vtable_private [of g, OF kept(1)] unfolding call_defs field_private_def
  by (intro preserves_dispatch [of _ "\<lambda>v. v_on_init v p st"] preserves_dispatch [of _ "\<lambda>v. v_on_stop v p"]
      preserves_dispatch [of _ "\<lambda>v. v_on_child_stopped v p a r"]; blast)+

lemma preserves_field_stop_impl: "preserves (field_is g b) (stop_actor_impl vt n addr reason)"
proof (induction n arbitrary: addr)
  case (Suc n)
  have "preserves (field_is g b) (unregister_actor i)" for i
    unfolding unregister_actor_def by (rule preserves_field_modM) simp
  moreover have "preserves (field_is g b) (notify_parent vt d addr reason)" for d
    unfolding notify_parent_def by (intro triple_intro; assumption)
  ultimately show ?case
    unfolding stop_actor_impl.simps by (intro triple_intro Suc; assumption?)
qed (simp add: triple_def)

lemma preserves_field_stop: "preserves (field_is g b) (stop_actor_impl_safety vt addr reason)"
  unfolding stop_actor_impl_safety_def
  by (rule preserves_field_locked(1), rule preservesI, rule preserves_snd [OF preserves_field_stop_impl])

lemma preserves_field_add: "preserves (field_is g b) (add_actor_under vt nm parent a)"
proof -
  have fetch: "preserves (field_is g b) fetch_next_id"
    by (rule preservesI) (simp add: field_is_def fetch_next_id_def)
  have post: "preserves (field_is g b) (user_post t k)" for t k
    by (rule preservesI) (auto simp: field_is_def user_post_def post_task_def split: option.splits sum.splits)
  have box: "preserves (field_is g b) new_mailbox"
    by (rule preservesI) (simp add: field_is_def new_mailbox_def)
  have child: "preserves (field_is g b) (modM (add_child i j))" for i j
    by (rule preserves_field_modM) simp
  have reg: "preserves (field_is g b) (register_actor i d hp)" for i d hp
    unfolding register_actor_def by (intro triple_intro box child preserves_field_modM) simp_all
  have uc: "preserves (field_is g b) (user_context_new addr n)" for addr n
    unfolding user_context_new_def by (intro triple_intro)
  have install: "preserves (field_is g b) (install_actor vt i un n st pid hp a)" for i un n st pid hp
    unfolding install_actor_def Let_def by (intro triple_intro reg uc post kept)
  show ?thesis
    unfolding add_actor_under_def read_parent_def by (intro triple_intro fetch install; assumption)
qed

end

locale private_callbacks = private_field vt busy for vt :: "'u vtable"
begin

lemma client_change_stop:
  assumes inv: "sys_inv s ins" and run: "stop_actor_impl_safety vt addr reason s = (r, s')"
  shows "client_change s s'"
proof -
  from inv have i: "ctx_inv s" "unlocked s" "own_objects s" "alloc_inv s" by (simp_all add: sys_inv_def)
  from stop_actor_impl_safety_stops [OF ctx_invD(2) [OF i(1)], of addr reason] i(2) run
  have st: "stops (subtree (actor_at s) (aa_id addr)) s s'" by auto
  then have n: "next_obj s' = next_obj s" "unlocked s'" "cx_tm s' = cx_tm s" using i(2) by (auto simp: stops_def)
  have b: "busy (objs s' p) = busy (objs s p)" for p
    using preserves_snd [OF preserves_field_stop, of "\<lambda>p. busy (objs s p)" s addr reason] by (simp add: field_is_def run)
  have "own_objects s'" "alloc_inv s'"
    using i b n(1) by (auto simp: own_objects_def alloc_inv_def stops_sel(1) [OF st])
  then show ?thesis
    using ctx_inv_stops [OF i(1) st] n b by (simp add: client_change_def apply_claims_def user_queue_def)
qed

lemma client_change_add:
  assumes inv: "sys_inv s ins" and ca: "can_add parent nm s" and a: "a < next_obj s"
    and new: "\<And>i d. actor_at s i = Some d \<Longrightarrow> d_actor d \<noteq> a"
    and run: "add_actor_under vt nm parent a s = (r, s')"
  shows "client_change s s'"
proof (rule add_actor_under_effect [OF quiet _ ca])
  from inv have i: "ctx_inv s" "unlocked s" "own_objects s" "alloc_inv s" by (simp_all add: sys_inv_def)
  then show "ctx_inv s" by simp
  fix t
  assume t: "add_actor_under vt nm parent a s =
      (Inr (address_of (Id_t (next_actor_id s)) (path_under parent nm s)), t)"
    and abs: "abs_ctx t = spec_add (Id_t (next_actor_id s)) a (path_under parent nm s)
      (if parent_desc parent s = None then id_default else aa_id (effective_parent parent s)) (abs_ctx s)"
    and t': "ctx_inv t" "user_queue t = user_queue s @ [T_on_start a]" "next_obj t = next_obj s"
      "cx_lock t = Unlocked" "cx_xlock t = cx_xlock s"
  have s': "t = s'" using run t by simp
  have b: "busy (objs s' p) = busy (objs s p)" for p
    using preserves_snd [OF preserves_field_add, of "\<lambda>p. busy (objs s p)" s nm parent a] by (simp add: field_is_def run)
  have at: "map_option d_actor (actor_at s' j) =
      (if j = Id_t (next_actor_id s) then Some a else map_option d_actor (actor_at s j))" for j
    using arg_cong [OF abs, of "\<lambda>x. map_option fst (members x j)"]
    by (simp add: s' spec_add_def option.map_comp comp_def split: if_splits)
  have old: "d_actor d = a \<or> (\<exists>e. actor_at s j = Some e \<and> d_actor e = d_actor d)" if "actor_at s' j = Some d" for j d
    using at [of j] that by (cases "actor_at s j") (auto split: if_splits)
  have "own_objects s'"
    unfolding own_objects_def
  proof (intro allI impI, elim conjE)
    fix j k d e assume d: "actor_at s' j = Some d" and e: "actor_at s' k = Some e" and eq: "d_actor d = d_actor e"
    show "j = k"
      using at [of j] at [of k] d e eq new i(3) unfolding own_objects_def
      by (cases "actor_at s j"; cases "actor_at s k") (auto split: if_splits)
  qed
  moreover have "alloc_inv s'"
    using i(4) old a b t'(3) unfolding alloc_inv_def s' by metis
  ultimately show ?thesis
    using t' b i(2) by (simp add: client_change_def apply_claims_def s' List.map_filter_def)
qed

lemma client_op_change:
  assumes "client_op vt s s'" and inv: "sys_inv s ins"
  shows "client_change s s'"
  using assms(1)
proof cases
  case (op_new k r)
  then have "s' = s\<lparr>objs := (objs s)(next_obj s := base_actor_new k), next_obj := Suc (next_obj s)\<rparr>" by simp
  moreover have "\<not> busy (objs s (next_obj s))" using inv by (auto simp: sys_inv_def alloc_inv_def)
  ultimately show ?thesis
    using inv by (auto simp: client_change_def sys_inv_def own_objects_def alloc_inv_def apply_claims_def user_queue_def
        base_actor_new_def less_Suc_eq)
next
  case (op_roots ra ua sa)
  then show ?thesis
    using inv by (auto simp: client_change_def sys_inv_def own_objects_def alloc_inv_def apply_claims_def user_queue_def)
qed (rule client_change_same_core [OF inv preserves_same_core_ops(1)] client_change_same_core [OF inv preserves_same_core_ops(2)]
    client_change_same_core [OF inv preserves_same_core_ops(3)] client_change_same_core [OF inv preserves_same_core_ops(4)]
    client_change_same_core [OF inv preserves_same_core_ops(5)] client_change_add [OF inv] client_change_stop [OF inv];
    (assumption | rule preserves_send preserves_exchange_ops preserves_ctx_inv_pop))+

lemma sys_step_inv: "sys_step vt c c' \<Longrightarrow> sys_inv (fst c) (snd c) \<Longrightarrow> sys_inv (fst c') (snd c')"
proof (induction rule: sys_step.induct)
  case (take_task s m p i t ins)
  then show ?case by (auto simp: set_worker_def intro!: take_task_inv)
next
  case (task_done s m p i t ins)
  then show ?case by (auto simp: set_worker_def intro!: task_done_inv)
next
  case (client s s' ins)
  then show ?case using client_change_inv client_op_change by fastforce
qed (simp_all add: worker_pass_inv handler_ends_inv)

lemma sys_run_inv: "sys_run vt c c' \<Longrightarrow> sys_inv (fst c) (snd c) \<Longrightarrow> sys_inv (fst c') (snd c')"
  by (induction rule: sys_run.induct) (auto intro: sys_step_inv)

end

interpretation base_private: private_callbacks base_vtable
  by unfold_locales (simp_all add: base_vtable_private update_status_def set_context_def set_self_addr_def)

lemma private_callbacksI: "quiet_vtable vt \<Longrightarrow> busy_private vt \<Longrightarrow> private_callbacks vt"
  by (simp add: private_callbacks_def private_field_def private_field_axioms_def quiet_callbacks_def
      update_status_def set_context_def set_self_addr_def)

lemma new_context_sys_inv:
  assumes "context_new dc ps nm c u = Inr (s, c')"
  shows "sys_inv s {#}"
proof -
  have "objs s = (\<lambda>_. base_actor_new User_actor)"
    using assms by (auto simp: context_new_def Let_def bindR_eq_Inr split: prod.splits)
  then show ?thesis
    using context_new_inv [OF assms] context_new_eq [OF assms]
    by (simp add: sys_inv_def own_objects_def alloc_inv_def exclusive_def apply_claims_def base_actor_new_def
        List.map_filter_simps)
qed

lemma exclusive_counts:
  assumes "exclusive s ins"
  shows "count (apply_claims s) p + count ins p \<le> 1"
    and "busy (objs s p) \<longleftrightarrow> p \<in># apply_claims s \<or> p \<in># ins"
proof -
  have *: "count (apply_claims s) p + count ins p = (if busy (objs s p) then 1 else 0)"
    using assms by (simp add: exclusive_def)
  then show "count (apply_claims s) p + count ins p \<le> 1" by simp
  show "busy (objs s p) \<longleftrightarrow> p \<in># apply_claims s \<or> p \<in># ins"
    using * unfolding count_greater_zero_iff [symmetric] by (auto simp del: count_greater_zero_iff split: if_splits)
qed

section \<open>An example run\<close>

text \<open>
  From an empty context: an actor is created and added, an envelope is sent to it, the mailbox worker makes
  a pass, and the thread of the pool takes the two tasks that are now queued, one after the other. It ends inside the actor's handler loop.
\<close>

definition take_first :: "'u ctx \<Rightarrow> 'u ctx" where
  "take_first s =
     (let m = the (cx_tm s); p = the (map_of (tm_pools m) USER); t = the (select_task (in_queue p))
      in with_user_pool (set_worker 0 (W_running t)
        (p\<lparr>in_queue := remove1 t (in_queue p), task_runned := task_runned p + 1\<rparr>)) m s)"

definition can_take :: "'u ctx \<Rightarrow> ctx_task \<Rightarrow> bool" where
  "can_take s f = (case cx_tm s of None \<Rightarrow> False | Some m \<Rightarrow> (case map_of (tm_pools m) USER of None \<Rightarrow> False
     | Some p \<Rightarrow> workers p \<noteq> [] \<and> hd (workers p) = W_loop \<and> \<not> stop_flag p \<and>
        (case select_task (in_queue p) of None \<Rightarrow> False | Some t \<Rightarrow> fst (tw_task t) = f)))"

lemma take_first_step:
  assumes "can_take s f"
  shows "sys_step vt (s, ins) (take_first s, entered f + ins)"
proof -
  from assms obtain m p t where "cx_tm s = Some m" "map_of (tm_pools m) USER = Some p"
    "workers p \<noteq> []" "hd (workers p) = W_loop" "\<not> stop_flag p" "select_task (in_queue p) = Some t" "f = fst (tw_task t)"
    by (auto simp: can_take_def split: option.splits)
  with sys_step.take_task [of s m p 0 t vt ins] show ?thesis
    by (simp add: take_first_def hd_conv_nth)
qed

definition run_hello :: envelope where
  "run_hello = \<lparr>payload = payload_of (V_int 7), sender = address_of (Id_t 1) ''/a''\<rparr>"

definition run_1 :: "unit ctx" where "run_1 = snd (new_actor User_actor demo_ctx)"

definition run_2 :: "unit ctx" where "run_2 = snd (add_actor_under base_vtable ''a'' address_default 0 run_1)"

definition run_3 :: "unit ctx" where "run_3 = snd (send_envelope (address_of (Id_t 1) ''/a'') run_hello run_2)"

definition run_4 :: "unit ctx" where "run_4 = snd (mailbox_worker all_locks run_3)"

definition free_first :: "'u ctx \<Rightarrow> 'u ctx" where
  "free_first s = (let m = the (cx_tm s); p = the (map_of (tm_pools m) USER)
     in with_user_pool (set_worker 0 W_loop (p\<lparr>task_runned := task_runned p - 1\<rparr>)) m s)"

definition can_free :: "'u ctx \<Rightarrow> bool" where
  "can_free s = (case cx_tm s of None \<Rightarrow> False | Some m \<Rightarrow> (case map_of (tm_pools m) USER of None \<Rightarrow> False
     | Some p \<Rightarrow> (case workers p of W_running t # ws \<Rightarrow> True | _ \<Rightarrow> False)))"

lemma free_first_step:
  assumes "can_free s"
  shows "sys_step vt (s, ins) (free_first s, ins)"
proof -
  from assms obtain m p t ws where "cx_tm s = Some m" "map_of (tm_pools m) USER = Some p" "workers p = W_running t # ws"
    by (auto simp: can_free_def split: option.splits list.splits worker.splits)
  with sys_step.task_done [of s m p 0 t vt ins] show ?thesis by (simp add: free_first_def)
qed

definition run_5 :: "unit ctx" where "run_5 = free_first (take_first run_4)"

definition run_6 :: "unit ctx" where "run_6 = take_first run_5"

lemma run_3_reached: "sys_run base_vtable (demo_ctx, {#}) (run_3, {#})"
proof -
  have 1: "sys_run base_vtable (demo_ctx, {#}) (run_1, {#})"
    by (rule sys_run_step [OF sys_run_refl sys_step.client [OF op_new]]) (simp add: run_1_def)
  have "can_add address_default ''a'' run_1" "(0::nat) < next_obj run_1" "actors run_1 = []" by code_simp+
  then have "client_op base_vtable run_1 run_2"
    by (intro op_add [where r = "fst (add_actor_under base_vtable ''a'' address_default 0 run_1)"])
      (auto simp: run_2_def)
  note 2 = sys_run_step [OF 1 sys_step.client [OF this]]
  have "client_op base_vtable run_2 run_3"
    by (rule op_send [where r = "fst (send_envelope (address_of (Id_t 1) ''/a'') run_hello run_2)"])
      (simp add: run_3_def)
  from sys_run_step [OF 2 sys_step.client [OF this]] show ?thesis .
qed

lemma run_3_to_6: "sys_run base_vtable (run_3, {#}) (run_6, {#0#})"
proof -
  have "can_post run_3" by code_simp
  note 4 = sys_run_step [OF sys_run_refl sys_step.worker_pass
      [where oc = all_locks and r = "fst (mailbox_worker all_locks run_3)" and s' = run_4, OF this]]
  have "can_take run_4 (T_on_start 0)" by code_simp
  note 5 = sys_run_step [OF 4 take_first_step [OF this]]
  have "can_free (take_first run_4)" by code_simp
  note 6 = sys_run_step [OF 5 free_first_step [OF this]]
  have "can_take run_5 (T_apply (demo_desc 0 1 ''/a'' id_default []) None 0)" by code_simp
  note 7 = take_first_step [OF this]
  show ?thesis
    using sys_run_step [OF 6 [folded run_5_def] 7] by (simp add: run_4_def run_6_def entered_def demo_desc_def)
qed

lemma sys_run_trans: "sys_run vt b c \<Longrightarrow> sys_run vt a b \<Longrightarrow> sys_run vt a c"
  by (induction rule: sys_run.induct) (auto intro: sys_run.intros)

lemmas run_6_reached = sys_run_trans [OF run_3_to_6 run_3_reached]

section \<open>Properties\<close>



text \<open>
  An exception from \<^verbatim>\<open>on_start\<close> ends the process: the closure \<^verbatim>\<open>add_actor\<close> posts has no handler around the
  call and neither have the task and the pool's thread function, so the exception leaves the thread. An
  exception from the actor's handler, in contrast, is caught within the task.
\<close>

theorem start_exception_terminates:
  assumes "call_on_start vt p s = (Inl (Throw e), s1)"
    and "actor_apply fuel (double_checks s) (call_action_handle vt (d_actor d)) (d_actor d) m s = (Inl (Throw e'), s2)"
  shows "thread_run vt fuel oc USER (T_on_start p, SINGLE) s = (Inl Terminate, s1) \<and>
    thread_run vt fuel oc USER (T_apply d parent m, SINGLE) s =
      (case handle_failure vt d parent s2 of (Inr _, s') \<Rightarrow> (Inr SINGLE, s')
       | (Inl (Throw _), s') \<Rightarrow> (Inl Terminate, s') | (Inl f, s') \<Rightarrow> (Inl f, s'))"
proof -
  have "apply_actor_to_mailbox vt fuel d parent m s = handle_failure vt d parent s2"
    using assms(2) by (simp add: apply_actor_to_mailbox_def tryM_def bindM_def)
  then show ?thesis
    using assms(1) by (auto simp: thread_run_def tkind_check_def seqM_def bindM_def split: prod.splits sum.splits fault.splits)
qed

text \<open>An actor whose \<^verbatim>\<open>on_start\<close> and handler both throw, in the example of a failure above.\<close>

definition bad_vt :: "unit vtable" where
  "bad_vt = (demo_vt STOP)\<lparr>v_on_start := (\<lambda>p. faultM (Throw ''start''))\<rparr>"

theorem start_exception_terminates_witness:
  "thread_run bad_vt 2 all_locks USER (T_on_start 2, SINGLE) demo_waiting = (Inl Terminate, demo_waiting)"
proof -
  let ?d = "demo_desc 2 3 ''/a/b/c'' (Id_t 2) []"
  have "\<not> library_class (class_of (objs demo_waiting 2))" "double_checks demo_waiting" by code_simp+
  then have s: "call_on_start bad_vt 2 demo_waiting = (Inl (Throw ''start''), demo_waiting)"
    and dc: "double_checks demo_waiting = True"
    by (simp_all add: call_on_start_def vt_of_def bad_vt_def)
  have "call_action_handle bad_vt 2 = call_action_handle (demo_vt STOP) 2"
    by (simp add: call_action_handle_def vt_of_def bad_vt_def fun_eq_iff)
  then have a: "actor_apply 2 (double_checks demo_waiting) (call_action_handle bad_vt (d_actor ?d)) (d_actor ?d) 2
      demo_waiting = (Inl (Throw ''boom''), demo_failed)"
    using demo_failed_run [of STOP] by (simp only: dc demo_desc_sel)
  show ?thesis using start_exception_terminates [OF s a] by blast
qed

end
