(* ===== verification/Yaaf_Typing.thy ===== *)
theory Yaaf_Typing
  imports Yaaf_System
begin

text \<open>
  The class of an actor object is fixed when the object is made, so a pointer that \<^verbatim>\<open>actor_cast\<close>
  (\<^verbatim>\<open>abstract_context.h\<close>) has returned stays a pointer to the class it was asked for, whatever the context does
  meanwhile.
\<close>

section \<open>Classes in the interleaving\<close>

definition keeps_classes :: "'u ctx \<Rightarrow> 'u ctx \<Rightarrow> bool" where
  "keeps_classes s s' \<longleftrightarrow> next_obj s \<le> next_obj s' \<and>
     (\<forall>p < next_obj s. class_of (objs s' p) = class_of (objs s p))"

lemma keeps_classes_trans: "keeps_classes s t \<Longrightarrow> keeps_classes t u \<Longrightarrow> keeps_classes s u"
  by (auto simp: keeps_classes_def)

lemma keeps_classesI:
  "next_obj s' = next_obj s \<Longrightarrow> (\<And>p. class_of (objs s' p) = class_of (objs s p)) \<Longrightarrow> keeps_classes s s'"
  by (simp add: keeps_classes_def)

lemma worker_keeps_classes:
  assumes inv: "sys_inv s ins" and cp: "can_post s" and run: "mailbox_worker oc s = (r, s')"
  shows "keeps_classes s s'"
proof -
  from inv have i: "ctx_inv s" "unlocked s" "own_objects s" by (simp_all add: sys_inv_def)
  from mailbox_worker_run [OF i(1,2) cp i(3), of oc] run obtain s1 where
    d1: "if o_xshared oc \<and> o_excl oc
      then delivers s s1 (set (pubs_of (exchanges s))) (\<lambda>i. fan_out_all i (exchanges s) s) else s1 = s"
    and ad: "after_dispatch oc s1 s'" by auto
  have "objs s1 = objs s" "next_obj s1 = next_obj s" using d1 by (auto simp: delivers_def split: if_splits)
  then have k1: "keeps_classes s s1" by (intro keeps_classesI) simp_all
  have d: "keeps_classes s1 t" if "dispatched s1 t ts" for t ts
  proof (rule keeps_classesI)
    show "next_obj t = next_obj s1" using that by (auto simp: dispatched_def)
    show "class_of (objs t p) = class_of (objs s1 p)" for p
      by (simp add: dispatched_sel(7) [OF that] mark_busy_def)
  qed
  have "keeps_classes s1 s'"
  proof (cases "o_shared oc")
    case True
    with ad obtain t where "dispatched s1 t (due s1 (mboxes s1))"
      and "s' = (if o_xexcl oc then t\<lparr>exchanges := live_exchanges t\<rparr> else t)" unfolding after_dispatch_def by auto
    with d show ?thesis by (simp add: keeps_classes_def)
  next
    case False
    with ad show ?thesis by (simp add: after_dispatch_def keeps_classes_def)
  qed
  with k1 show ?thesis by (rule keeps_classes_trans)
qed

lemma same_core_keeps_classes:
  assumes "\<And>t l x. preserves (same_core t l x) m" and "m s = (r, s')"
  shows "keeps_classes s s'"
  using preserves_snd [OF assms(1), of s "cx_lock s" "cx_xlock s" s] assms(2)
  by (simp add: same_core_def keeps_classes_def)

locale typed_callbacks = private_field vt class_of for vt :: "'u vtable"
begin

lemma client_keeps_classes:
  assumes "client_op vt s s'" and inv: "sys_inv s ins"
  shows "keeps_classes s s'"
  using assms(1)
proof cases
  case (op_add parent nm a r)
  have "class_of (objs s' p) = class_of (objs s p)" for p
    using preserves_snd [OF preserves_field_add, of "\<lambda>p. class_of (objs s p)" s nm parent a] op_add
    by (simp add: field_is_def)
  moreover have "next_obj s' = next_obj s"
  proof (rule add_actor_under_effect [OF quiet _ op_add(1), where a = a])
    show "ctx_inv s" using inv by (simp add: sys_inv_def)
  qed (use op_add in auto)
  ultimately show ?thesis by (intro keeps_classesI)
next
  case (op_stop addr reason r)
  have "class_of (objs s' p) = class_of (objs s p)" for p
    using preserves_snd [OF preserves_field_stop, of "\<lambda>p. class_of (objs s p)" s addr reason] op_stop
    by (simp add: field_is_def)
  moreover have "next_obj s' = next_obj s"
    using stop_actor_impl_safety_stops [OF ctx_invD(2), of s addr reason] inv op_stop
    by (auto simp: sys_inv_def stops_def)
  ultimately show ?thesis by (intro keeps_classesI)
next
  case (op_new k r)
  then show ?thesis by (auto simp: keeps_classes_def)
next
  case (op_roots ra ua sa)
  then show ?thesis by (simp add: keeps_classes_def)
qed (erule preserves_same_core_ops [THEN same_core_keeps_classes])+

lemma step_keeps_classes: "sys_step vt c c' \<Longrightarrow> sys_inv (fst c) (snd c) \<Longrightarrow> keeps_classes (fst c) (fst c')"
proof (induction rule: sys_step.induct)
  case (worker_pass s oc r s' ins)
  then show ?case using worker_keeps_classes by simp
next
  case (client s s' ins)
  then show ?case using client_keeps_classes by simp
qed (simp_all add: keeps_classes_def with_user_pool_def set_obj_def reset_busy_def update_status_msg_def)

end

lemma typed_callbacksI: "quiet_vtable vt \<Longrightarrow> field_private class_of vt \<Longrightarrow> typed_callbacks vt"
  by (simp add: typed_callbacks_def private_field_def private_field_axioms_def quiet_callbacks_def
      update_status_def set_context_def set_self_addr_def)

interpretation base_typed: typed_callbacks base_vtable
  by (intro typed_callbacksI base_vtable_quiet base_vtable_private) (simp add: update_status_def)

lemma run_keeps_classes:
  "sys_run vt c c' \<Longrightarrow> private_callbacks vt \<Longrightarrow> typed_callbacks vt \<Longrightarrow> sys_inv (fst c) (snd c) \<Longrightarrow>
   keeps_classes (fst c) (fst c')"
proof (induction rule: sys_run.induct)
  case (sys_run_step c1 c2)
  then have "sys_inv (fst c1) (snd c1)" using private_callbacks.sys_run_inv by blast
  with typed_callbacks.step_keeps_classes [OF _ sys_run_step.hyps(2)] sys_run_step
  show ?case using keeps_classes_trans by blast
qed (simp add: keeps_classes_def)

section \<open>Casts\<close>

lemma actor_cast_addr_run:
  "cx_lock s = Unlocked \<Longrightarrow> actor_cast_addr is_T addr s = (Inr (case actor_at s (aa_id addr) of
     None \<Rightarrow> None | Some d \<Rightarrow> if is_T (class_of (objs s (d_actor d))) then Some (d_actor d) else None), s)"
  by (auto simp: actor_cast_addr_def get_actor_def dynamic_cast_def with_shared_def bindM_def cx_lock_idem
      split: option.splits)

lemma actor_cast_name_run:
  "cx_lock s = Unlocked \<Longrightarrow> actor_cast_name is_T nm s = (Inr (case Option.bind (map_of (id_by_name s) nm) (actor_at s) of
     None \<Rightarrow> None | Some d \<Rightarrow> if is_T (class_of (objs s (d_actor d))) then Some (d_actor d) else None), s)"
  by (auto simp: actor_cast_name_def get_actor_by_name_def dynamic_cast_def with_shared_def bindM_def cx_lock_idem
      split: option.splits)

text \<open>
  What a cast returns for a description that was found, or for none, and that it still holds in a later
  state.
\<close>

definition cast_result ::
    "(actor_class \<Rightarrow> bool) \<Rightarrow> 'u ctx \<Rightarrow> 'u ctx \<Rightarrow> description option \<Rightarrow> actor_ptr option \<Rightarrow> bool" where
  "cast_result is_T s s' d r \<longleftrightarrow>
     (\<forall>q. r = Some q \<longleftrightarrow> (\<exists>e. d = Some e \<and> d_actor e = q \<and> is_T (class_of (objs s q)))) \<and>
     (\<forall>q. r = Some q \<longrightarrow> is_T (class_of (objs s' q)))"

section \<open>Properties\<close>



end
