(* ===== verification/Yaaf_Serialization.thy ===== *)
theory Yaaf_Serialization
  imports Yaaf_Payload
begin

text \<open>
  The binary scheme of \<^verbatim>\<open>libyaaf/serialization\<close>: \<^verbatim>\<open>helpers.h\<close> copies plain values, strings and byte vectors to
  and from raw memory, \<^verbatim>\<open>serialization.h\<close> applies it to argument packs, and the specialisation in
  \<^verbatim>\<open>context_network.h\<close> to network messages. Memory is a list of bytes and a pointer is an offset; the sources
  check no bounds, so an access outside the list is \<^const>\<open>OutOfBounds\<close>. The locale \<open>packer\<close> is the contract of
  \<^verbatim>\<open>object_packer\<close> its clients rely on.
\<close>

section \<open>Memory\<close>

type_synonym byte = "8 word"

text \<open>\<^verbatim>\<open>std::memcpy\<close> into and out of the buffer.\<close>

definition memcpy_to :: "nat \<Rightarrow> byte list \<Rightarrow> byte list \<Rightarrow> fault + byte list" where
  "memcpy_to it bs buf =
     (if it + length bs \<le> length buf then Inr (take it buf @ bs @ drop (it + length bs) buf) else Inl OutOfBounds)"

definition memcpy_from :: "nat \<Rightarrow> nat \<Rightarrow> byte list \<Rightarrow> fault + byte list" where
  "memcpy_from it n buf = (if it + n \<le> length buf then Inr (take n (drop it buf)) else Inl OutOfBounds)"

text \<open>
  The representation of an unsigned integer, least significant byte first, as on the platforms the
  library builds for.
\<close>

primrec le_bytes :: "nat \<Rightarrow> nat \<Rightarrow> byte list" where
  "le_bytes 0 k = []"
| "le_bytes (Suc n) k = of_nat (k mod 256) # le_bytes n (k div 256)"

primrec le_value :: "byte list \<Rightarrow> nat" where
  "le_value [] = 0"
| "le_value (b # bs) = unat b + 256 * le_value bs"

lemma length_le_bytes [simp]: "length (le_bytes n k) = n"
  by (induction n arbitrary: k) simp_all

lemma unat_byte [simp]: "unat (of_nat (k mod 256) :: byte) = k mod 256"
  by (simp add: unat_of_nat take_bit_eq_mod)

lemma le_value_bytes [simp]: "le_value (le_bytes n k) = k mod 256 ^ n"
proof (induction n arbitrary: k)
  case (Suc n)
  have "k mod 256 + 256 * (k div 256 mod 256 ^ n) = k mod (256 * 256 ^ n)"
    by (simp add: mod_mult2_eq)
  then show ?case using Suc by simp
qed simp

section \<open>Arguments\<close>

text \<open>
  An argument of a pack: a plain value, given by its object representation, a string, or a vector of
  bytes; and the type a reader asks for.
\<close>

datatype arg = A_pod "byte list" | A_str string | A_vec "byte list"

datatype arg_type = AT_pod nat | AT_str | AT_vec

fun arg_type_of :: "arg \<Rightarrow> arg_type" where
  "arg_type_of (A_pod bs) = AT_pod (length bs)"
| "arg_type_of (A_str s) = AT_str"
| "arg_type_of (A_vec bs) = AT_vec"

definition sizeof_u32 :: nat where
  "sizeof_u32 = 4"

text \<open>\<^verbatim>\<open>static_cast<uint32_t>(s.size())\<close>, as the four bytes that are copied.\<close>

definition len_bytes :: "nat \<Rightarrow> byte list" where
  "len_bytes n = le_bytes sizeof_u32 (unat (of_nat n :: 32 word))"

definition chars_bytes :: "string \<Rightarrow> byte list" where
  "chars_bytes s = map (\<lambda>c. of_nat (of_char c)) s"

definition bytes_chars :: "byte list \<Rightarrow> string" where
  "bytes_chars bs = map (\<lambda>b. char_of (unat b)) bs"

fun size_arg :: "arg \<Rightarrow> nat" where
  "size_arg (A_pod bs) = length bs"
| "size_arg (A_str s) = sizeof_u32 + length s"
| "size_arg (A_vec s) = sizeof_u32 + length s"

fun write_arg :: "nat \<Rightarrow> arg \<Rightarrow> byte list \<Rightarrow> fault + (nat \<times> byte list)" where
  "write_arg it (A_pod bs) buf = bindR (memcpy_to it bs buf) (\<lambda>buf. Inr (length bs, buf))"
| "write_arg it (A_str s) buf =
     bindR (memcpy_to it (len_bytes (length s)) buf) (\<lambda>buf.
     bindR (memcpy_to (it + sizeof_u32) (chars_bytes s) buf) (\<lambda>buf.
       Inr (sizeof_u32 + length s, buf)))"
| "write_arg it (A_vec s) buf =
     bindR (memcpy_to it (len_bytes (length s)) buf) (\<lambda>buf.
     bindR (memcpy_to (it + sizeof_u32) s buf) (\<lambda>buf.
       Inr (sizeof_u32 + length s, buf)))"

fun read_arg :: "nat \<Rightarrow> arg_type \<Rightarrow> byte list \<Rightarrow> fault + (arg \<times> nat)" where
  "read_arg it (AT_pod n) buf = bindR (memcpy_from it n buf) (\<lambda>bs. Inr (A_pod bs, n))"
| "read_arg it AT_str buf =
     bindR (memcpy_from it sizeof_u32 buf) (\<lambda>h. let len = le_value h in
     bindR (memcpy_from (it + sizeof_u32) len buf) (\<lambda>bs.
       Inr (A_str (bytes_chars bs), sizeof_u32 + len)))"
| "read_arg it AT_vec buf =
     bindR (memcpy_from it sizeof_u32 buf) (\<lambda>h. let len = le_value h in
     bindR (memcpy_from (it + sizeof_u32) len buf) (\<lambda>bs.
       Inr (A_vec bs, sizeof_u32 + len)))"

text \<open>
  The recursion over a pack. The templates are declared for at least one argument; the equations for the
  empty list stand for the end of the recursion.
\<close>

fun calculate_args_size :: "nat \<Rightarrow> arg list \<Rightarrow> nat" where
  "calculate_args_size result [] = result"
| "calculate_args_size result (head # t) = calculate_args_size (result + size_arg head) t"

fun write_args :: "nat \<Rightarrow> arg list \<Rightarrow> byte list \<Rightarrow> fault + byte list" where
  "write_args it [] buf = Inr buf"
| "write_args it (head # t) buf =
     bindR (write_arg it head buf) (\<lambda>(szofcur, buf). write_args (it + szofcur) t buf)"

fun read_args :: "nat \<Rightarrow> arg_type list \<Rightarrow> byte list \<Rightarrow> fault + arg list" where
  "read_args it [] buf = Inr []"
| "read_args it (head # t) buf =
     bindR (read_arg it head buf) (\<lambda>(a, szofcur).
     bindR (read_args (it + szofcur) t buf) (\<lambda>as. Inr (a # as)))"

text \<open>\<^verbatim>\<open>binary_io\<close>, both overloads of each member, and the general \<^verbatim>\<open>object_packer\<close> for one argument.\<close>

definition io_capacity :: "arg list \<Rightarrow> nat" where
  "io_capacity args = calculate_args_size 0 args"

definition io_write :: "nat \<Rightarrow> arg list \<Rightarrow> byte list \<Rightarrow> fault + byte list" where
  "io_write it args buf = write_args it args buf"

definition io_read :: "nat \<Rightarrow> arg_type list \<Rightarrow> byte list \<Rightarrow> fault + arg list" where
  "io_read it ts buf = read_args it ts buf"

definition packer_capacity :: "arg \<Rightarrow> nat" where
  "packer_capacity t = io_capacity [t]"

definition packer_pack :: "nat \<Rightarrow> arg \<Rightarrow> byte list \<Rightarrow> fault + byte list" where
  "packer_pack it t buf = io_write it [t] buf"

definition packer_unpack :: "arg_type \<Rightarrow> nat \<Rightarrow> byte list \<Rightarrow> fault + arg" where
  "packer_unpack ty it buf = bindR (io_read it [ty] buf) (\<lambda>r. Inr (hd r))"

text \<open>The specialisation for \<^verbatim>\<open>network_actor_message\<close>.\<close>

definition nam_scheme :: "network_actor_message \<Rightarrow> arg list" where
  "nam_scheme t = [A_str (nam_name t), A_vec (nam_data t)]"

definition nam_capacity :: "network_actor_message \<Rightarrow> nat" where
  "nam_capacity t = io_capacity (nam_scheme t)"

definition nam_pack :: "nat \<Rightarrow> network_actor_message \<Rightarrow> byte list \<Rightarrow> fault + byte list" where
  "nam_pack it t buf = io_write it (nam_scheme t) buf"

fun nam_of_args :: "arg list \<Rightarrow> network_actor_message" where
  "nam_of_args [A_str n, A_vec d] = \<lparr>nam_name = n, nam_data = d\<rparr>"
| "nam_of_args _ = \<lparr>nam_name = [], nam_data = []\<rparr>"

definition nam_unpack :: "nat \<Rightarrow> byte list \<Rightarrow> fault + network_actor_message" where
  "nam_unpack ii buf = bindR (io_read ii [AT_str, AT_vec] buf) (\<lambda>r. Inr (nam_of_args r))"

section \<open>What a write does\<close>

text \<open>The bytes an argument stands for, and the buffer with bytes laid over it.\<close>

fun arg_bytes :: "arg \<Rightarrow> byte list" where
  "arg_bytes (A_pod bs) = bs"
| "arg_bytes (A_str s) = len_bytes (length s) @ chars_bytes s"
| "arg_bytes (A_vec bs) = len_bytes (length bs) @ bs"

definition overlay :: "nat \<Rightarrow> byte list \<Rightarrow> byte list \<Rightarrow> byte list" where
  "overlay it bs buf = take it buf @ bs @ drop (it + length bs) buf"

text \<open>The lengths the 32 bit header can hold.\<close>

fun fits :: "arg \<Rightarrow> bool" where
  "fits (A_pod bs) \<longleftrightarrow> True"
| "fits (A_str s) \<longleftrightarrow> length s < 2 ^ 32"
| "fits (A_vec bs) \<longleftrightarrow> length bs < 2 ^ 32"

lemma length_len_bytes [simp]: "length (len_bytes n) = 4"
  by (simp add: len_bytes_def sizeof_u32_def)

lemma length_chars_bytes [simp]: "length (chars_bytes s) = length s"
  by (simp add: chars_bytes_def)

lemma bytes_chars_bytes [simp]: "bytes_chars (chars_bytes s) = s"
proof -
  have "char_of (unat (of_nat (of_char c) :: byte)) = c" for c
    by (simp add: unat_of_nat take_bit_eq_mod)
  then show ?thesis by (simp add: bytes_chars_def chars_bytes_def comp_def)
qed

lemma le_value_len_bytes: "le_value (len_bytes n) = n mod 2 ^ 32"
  by (simp add: len_bytes_def sizeof_u32_def unat_of_nat take_bit_eq_mod)

lemma length_arg_bytes: "length (arg_bytes a) = size_arg a"
  by (cases a) (simp_all add: sizeof_u32_def)

lemma calculate_args_size_sum: "calculate_args_size n as = n + sum_list (map size_arg as)"
  by (induction as arbitrary: n) simp_all

lemma io_capacity_eq: "io_capacity as = length (concat (map arg_bytes as))"
  by (simp add: io_capacity_def calculate_args_size_sum length_concat comp_def length_arg_bytes)

lemma length_overlay [simp]: "it + length bs \<le> length buf \<Longrightarrow> length (overlay it bs buf) = length buf"
  by (simp add: overlay_def)

lemma overlay_append:
  "it + length as + length bs \<le> length buf \<Longrightarrow>
   overlay (it + length as) bs (overlay it as buf) = overlay it (as @ bs) buf"
  by (simp add: overlay_def ac_simps)

lemma memcpy_to_eq: "memcpy_to it bs buf = (if it + length bs \<le> length buf then Inr (overlay it bs buf) else Inl OutOfBounds)"
  by (simp add: memcpy_to_def overlay_def)

lemma memcpy_from_overlay:
  "it + length (as @ bs @ cs) \<le> length buf \<Longrightarrow>
   memcpy_from (it + length as) (length bs) (overlay it (as @ bs @ cs) buf) = Inr bs"
  by (simp add: memcpy_from_def overlay_def)

lemma overlay_header:
  "it + (4 + length bs) \<le> length buf \<Longrightarrow>
   overlay (it + 4) bs (overlay it (len_bytes n) buf) = overlay it (len_bytes n @ bs) buf"
  using overlay_append [of it "len_bytes n" bs buf] by (simp add: ac_simps)

lemma write_arg_eq:
  "write_arg it a buf = (if it + size_arg a \<le> length buf
     then Inr (size_arg a, overlay it (arg_bytes a) buf) else Inl OutOfBounds)"
  by (cases a) (simp_all add: memcpy_to_eq overlay_header sizeof_u32_def)

lemma write_args_eq:
  "write_args it as buf = (if it + length (concat (map arg_bytes as)) \<le> length buf \<or> as = []
     then Inr (if as = [] then buf else overlay it (concat (map arg_bytes as)) buf) else Inl OutOfBounds)"
proof (induction as arbitrary: it buf)
  case (Cons a as)
  let ?b = "arg_bytes a" and ?bs = "concat (map arg_bytes as)"
  have "overlay (it + length ?b) ?bs (overlay it ?b buf) = overlay it (?b @ ?bs) buf"
    if "it + length ?b + length ?bs \<le> length buf" using that by (rule overlay_append)
  then show ?case
    using Cons by (auto simp: write_arg_eq length_arg_bytes ac_simps)
qed simp

lemma read_counted:
  assumes "n < 2 ^ 32" and "length bs = n" and "it + length (pre @ len_bytes n @ bs @ post) \<le> length buf"
  shows "memcpy_from (it + length pre) sizeof_u32 (overlay it (pre @ len_bytes n @ bs @ post) buf) = Inr (len_bytes n)"
    and "memcpy_from (it + length pre + sizeof_u32) n (overlay it (pre @ len_bytes n @ bs @ post) buf) = Inr bs"
    and "le_value (len_bytes n) = n"
  using memcpy_from_overlay [of it pre "len_bytes n" "bs @ post" buf]
    memcpy_from_overlay [of it "pre @ len_bytes n" bs post buf] assms
  by (simp_all add: sizeof_u32_def le_value_len_bytes ac_simps)

lemma read_arg_overlay:
  assumes "fits a" and "it + length (pre @ arg_bytes a @ post) \<le> length buf"
  shows "read_arg (it + length pre) (arg_type_of a) (overlay it (pre @ arg_bytes a @ post) buf) = Inr (a, size_arg a)"
proof (cases a)
  case (A_pod bs)
  with assms(2) memcpy_from_overlay [of it pre bs post buf] show ?thesis by simp
next
  case (A_str s)
  with assms read_counted [of "length s" "chars_bytes s" it pre post buf] show ?thesis by (simp add: Let_def)
next
  case (A_vec bs)
  with assms read_counted [of "length bs" bs it pre post buf] show ?thesis by (simp add: Let_def)
qed

lemma read_args_overlay:
  "list_all fits as \<Longrightarrow> it + length (pre @ concat (map arg_bytes as)) \<le> length buf \<Longrightarrow>
   read_args (it + length pre) (map arg_type_of as) (overlay it (pre @ concat (map arg_bytes as)) buf) = Inr as"
proof (induction as arbitrary: pre)
  case (Cons a as)
  let ?post = "concat (map arg_bytes as)"
  have "read_args (it + length (pre @ arg_bytes a)) (map arg_type_of as)
      (overlay it ((pre @ arg_bytes a) @ ?post) buf) = Inr as"
    using Cons.prems by (intro Cons.IH) simp_all
  moreover have "read_arg (it + length pre) (arg_type_of a) (overlay it (pre @ arg_bytes a @ ?post) buf) =
      Inr (a, size_arg a)"
    using Cons.prems by (intro read_arg_overlay) simp_all
  ultimately show ?case by (simp add: length_arg_bytes ac_simps)
qed simp

lemma io_write_overlay:
  assumes "it + io_capacity as \<le> length buf" and "as \<noteq> []"
  shows "io_write it as buf = Inr (overlay it (concat (map arg_bytes as)) buf)"
  using assms by (simp add: io_write_def write_args_eq io_capacity_eq)

lemma io_read_overlay:
  assumes "list_all fits as" and "it + io_capacity as \<le> length buf"
  shows "io_read it (map arg_type_of as) (overlay it (concat (map arg_bytes as)) buf) = Inr as"
  using read_args_overlay [of as it "[]" buf] assms by (simp add: io_read_def io_capacity_eq)

section \<open>The contract of a packer\<close>

text \<open>
  What the users of \<^verbatim>\<open>object_packer\<close> rely on, for the values \<open>ok\<close> it can hold: packing at the start of a
  buffer of at least the announced capacity succeeds without changing the rest, and unpacking there gives
  the value back. A buffer that is too small is overrun.
\<close>

locale packer =
  fixes capacity :: "'a \<Rightarrow> nat"
    and pack :: "nat \<Rightarrow> 'a \<Rightarrow> byte list \<Rightarrow> fault + byte list"
    and unpack :: "nat \<Rightarrow> byte list \<Rightarrow> fault + 'a"
    and ok :: "'a \<Rightarrow> bool"
  assumes pack_unpack: "ok x \<Longrightarrow> it + capacity x \<le> length buf \<Longrightarrow>
      \<exists>bs. length bs = capacity x \<and> pack it x buf = Inr (overlay it bs buf) \<and> unpack it (overlay it bs buf) = Inr x"
    and pack_overrun: "\<not> it + capacity x \<le> length buf \<Longrightarrow> pack it x buf = Inl OutOfBounds"
begin

lemma pack_ok_iff: "ok x \<Longrightarrow> (\<exists>b. pack it x buf = Inr b) \<longleftrightarrow> it + capacity x \<le> length buf"
  using pack_unpack pack_overrun by fastforce

lemma unpack_pack:
  "ok x \<Longrightarrow> pack it x buf = Inr b \<Longrightarrow> unpack it b = Inr x \<and> length b = length buf"
  using pack_unpack [of x it buf] pack_overrun [of it x buf]
  by (cases "it + capacity x \<le> length buf") auto

end

interpretation nam: packer nam_capacity nam_pack nam_unpack "\<lambda>t. list_all fits (nam_scheme t)"
proof
  fix t it and buf :: "byte list"
  assume "list_all fits (nam_scheme t)" and cap: "it + nam_capacity t \<le> length buf"
  then have "nam_unpack it (overlay it (concat (map arg_bytes (nam_scheme t))) buf) = Inr t"
    using io_read_overlay [of "nam_scheme t" it buf] by (simp add: nam_unpack_def nam_capacity_def nam_scheme_def)
  then show "\<exists>bs. length bs = nam_capacity t \<and> nam_pack it t buf = Inr (overlay it bs buf) \<and>
      nam_unpack it (overlay it bs buf) = Inr t"
    using io_write_overlay [of it "nam_scheme t" buf] cap
    by (intro exI [of _ "concat (map arg_bytes (nam_scheme t))"])
      (simp add: nam_pack_def nam_capacity_def io_capacity_eq nam_scheme_def)
next
  fix t it and buf :: "byte list"
  assume "\<not> it + nam_capacity t \<le> length buf"
  then show "nam_pack it t buf = Inl OutOfBounds"
    by (simp add: nam_pack_def nam_capacity_def io_write_def write_args_eq io_capacity_eq nam_scheme_def)
qed

text \<open>The general packer, for each type of argument.\<close>

interpretation one: packer packer_capacity packer_pack "packer_unpack ty" "\<lambda>a. fits a \<and> arg_type_of a = ty"
proof
  fix a it and buf :: "byte list"
  assume a: "fits a \<and> arg_type_of a = ty" and cap: "it + packer_capacity a \<le> length buf"
  then have "packer_unpack ty it (overlay it (arg_bytes a) buf) = Inr a"
    using io_read_overlay [of "[a]" it buf] by (simp add: packer_unpack_def packer_capacity_def)
  then show "\<exists>bs. length bs = packer_capacity a \<and> packer_pack it a buf = Inr (overlay it bs buf) \<and>
      packer_unpack ty it (overlay it bs buf) = Inr a"
    using io_write_overlay [of it "[a]" buf] cap
    by (intro exI [of _ "arg_bytes a"]) (simp add: packer_pack_def packer_capacity_def io_capacity_eq)
next
  fix a it and buf :: "byte list"
  assume "\<not> it + packer_capacity a \<le> length buf"
  then show "packer_pack it a buf = Inl OutOfBounds"
    by (simp add: packer_pack_def packer_capacity_def io_write_def write_args_eq io_capacity_eq)
qed

section \<open>Properties\<close>

text \<open>
  C24: what was written is read back: for every pack of arguments whose strings and vectors are shorter
  than 4 GiB and every buffer with \<^verbatim>\<open>capacity\<close> bytes left behind the pointer, \<^verbatim>\<open>write\<close> succeeds, \<^verbatim>\<open>read\<close> for the
  same types returns the same values, and no byte outside those \<^verbatim>\<open>capacity\<close> bytes has changed.
\<close>

theorem serialization_roundtrip:
  assumes "list_all fits args" and "args \<noteq> []" and "it + io_capacity args \<le> length buf"
  shows "\<exists>b. io_write it args buf = Inr b \<and> io_read it (map arg_type_of args) b = Inr args \<and>
    length b = length buf \<and> take it b = take it buf \<and>
    drop (it + io_capacity args) b = drop (it + io_capacity args) buf"
  using io_write_overlay [OF assms(3,2)] io_read_overlay [OF assms(1,3)] assms(3)
  by (intro exI [of _ "overlay it (concat (map arg_bytes args)) buf"]) (simp add: io_capacity_eq, simp add: overlay_def)

theorem serialization_roundtrip_witness:
  "\<exists>b. io_write 1 [A_str ''hi'', A_pod [1, 2], A_vec [3]] (replicate 16 0) = Inr b \<and>
    io_read 1 [AT_str, AT_pod 2, AT_vec] b = Inr [A_str ''hi'', A_pod [1, 2], A_vec [3]]"
proof -
  have "list_all fits [A_str ''hi'', A_pod [1, 2], A_vec [3]]"
    "1 + io_capacity [A_str ''hi'', A_pod [1, 2], A_vec [3]] \<le> length (replicate 16 0 :: byte list)"
    by (simp_all add: io_capacity_def sizeof_u32_def)
  from serialization_roundtrip [OF this(1) _ this(2)] show ?thesis by (auto simp: numeral_2_eq_2)
qed

text \<open>
  C25: \<^verbatim>\<open>capacity\<close> is exact: a write of at least one argument runs past the end of the buffer precisely when
  fewer than \<^verbatim>\<open>capacity\<close> bytes are left, and there is no other way for it to fail.
\<close>

theorem write_overruns_iff:
  "(io_write it args buf = Inl OutOfBounds \<longleftrightarrow> args \<noteq> [] \<and> length buf < it + io_capacity args) \<and>
   (io_write it args buf = Inl f \<longleftrightarrow> f = OutOfBounds \<and> args \<noteq> [] \<and> length buf < it + io_capacity args)"
  by (auto simp: io_write_def write_args_eq io_capacity_eq)

lemma read_str_prefix:
  assumes "it + 4 + length s \<le> length buf"
  shows "io_read it [AT_str] (overlay it (arg_bytes (A_str s)) buf) = Inr [A_str (take (length s mod 2 ^ 32) s)]"
proof -
  let ?n = "length s mod 2 ^ 32" and ?h = "len_bytes (length s)"
  have n: "?n \<le> length s" by simp
  then have "chars_bytes s = chars_bytes (take ?n s) @ chars_bytes (drop ?n s)"
    by (simp add: chars_bytes_def flip: map_append)
  then have eq: "arg_bytes (A_str s) = ?h @ chars_bytes (take ?n s) @ chars_bytes (drop ?n s)" by simp
  have "memcpy_from it sizeof_u32 (overlay it (arg_bytes (A_str s)) buf) = Inr ?h"
    using memcpy_from_overlay [of it "[]" ?h "chars_bytes s" buf] assms by (simp add: sizeof_u32_def)
  moreover have "memcpy_from (it + sizeof_u32) ?n (overlay it (arg_bytes (A_str s)) buf) = Inr (chars_bytes (take ?n s))"
    unfolding eq using memcpy_from_overlay [of it ?h "chars_bytes (take ?n s)" "chars_bytes (drop ?n s)" buf] assms n
    by (simp add: sizeof_u32_def)
  ultimately show ?thesis by (simp add: io_read_def Let_def le_value_len_bytes)
qed

text \<open>
  The header truncates: a string of 4 GiB or more is written in full, but its length is cut to 32 bits, so
  reading it back gives only its first \<^verbatim>\<open>size() mod 2^32\<close> characters.
\<close>

theorem long_string_truncated:
  assumes "2 ^ 32 \<le> length s" and "it + io_capacity [A_str s] \<le> length buf"
  shows "\<exists>b t. io_write it [A_str s] buf = Inr b \<and> io_read it [AT_str] b = Inr [A_str t] \<and>
    t = take (length s mod 2 ^ 32) s \<and> t \<noteq> s"
proof -
  have "it + 4 + length s \<le> length buf" using assms(2) by (simp add: io_capacity_def sizeof_u32_def)
  from read_str_prefix [OF this] have
    "io_read it [AT_str] (overlay it (arg_bytes (A_str s)) buf) = Inr [A_str (take (length s mod 2 ^ 32) s)]" .
  moreover have "take (length s mod 2 ^ 32) s \<noteq> s"
  proof -
    have "length s mod 2 ^ 32 < 2 ^ 32" by (rule mod_less_divisor) simp
    then show ?thesis using assms(1) by (simp only: take_all_iff not_le)
  qed
  ultimately show ?thesis using io_write_overlay [OF assms(2)] by simp
qed

theorem long_string_truncated_witness:
  "\<exists>b. io_write 0 [A_str (replicate (2 ^ 32) CHR ''x'')] (replicate (2 ^ 32 + 4) 0) = Inr b \<and>
    io_read 0 [AT_str] b = Inr [A_str []]"
proof -
  have "2 ^ 32 \<le> length (replicate (2 ^ 32) CHR ''x'')"
    "0 + io_capacity [A_str (replicate (2 ^ 32) CHR ''x'')] \<le> length (replicate (2 ^ 32 + 4) (0 :: byte))"
    by (simp_all only: length_replicate io_capacity_def calculate_args_size.simps size_arg.simps sizeof_u32_def)
  from long_string_truncated [OF this] show ?thesis by auto
qed

text \<open>
  A reader trusts the header: when the length stored in front of a string or a vector exceeds the bytes
  that follow, reading runs past the end of the buffer. Buffers that came over the network are read this
  way.
\<close>

theorem read_trusts_header:
  assumes "it + 4 \<le> length buf" and "length buf < it + 4 + le_value (take 4 (drop it buf))"
  shows "io_read it [AT_str] buf = Inl OutOfBounds \<and> io_read it [AT_vec] buf = Inl OutOfBounds"
  using assms by (simp add: io_read_def memcpy_from_def sizeof_u32_def Let_def)

theorem read_trusts_header_witness:
  "io_read 0 [AT_str] [255, 0, 0, 0, 104, 105] = Inl OutOfBounds"
  using read_trusts_header [of 0 "[255, 0, 0, 0, 104, 105]"] by (simp add: unat_numeral)

end
