(* ===== verification/Yaaf_Queries.thy ===== *)
theory Yaaf_Queries
  imports Yaaf_Serialization
begin

text \<open>
  The messages of the network protocol (\<^verbatim>\<open>network/kinds.h\<close>, \<^verbatim>\<open>network/queries.h\<close>): small structs that turn
  themselves into a \<^verbatim>\<open>dialler::message\<close> and back. The message class belongs to the network library, which is
  not part of the repository, so it is a parameter of every operation; \<open>message_ok\<close> says what the sources
  rely on.
\<close>

section \<open>The message class\<close>

text \<open>
  \<^verbatim>\<open>static_cast<message::size_t>\<close>, the constructor from a size and a kind, the memory behind \<^verbatim>\<open>value()\<close>, the
  message after that memory has been overwritten, and \<^verbatim>\<open>get_header()->kind\<close>.
\<close>

record 'm dialler_message =
  dm_size_cast :: "nat \<Rightarrow> nat"
  dm_new :: "nat \<Rightarrow> nat \<Rightarrow> 'm"
  dm_value :: "'m \<Rightarrow> byte list"
  dm_store :: "byte list \<Rightarrow> 'm \<Rightarrow> 'm"
  dm_kind :: "'m \<Rightarrow> nat"

text \<open>
  A message made for \<open>n\<close> bytes has \<open>n\<close> bytes and the kind it was made with; overwriting its bytes changes
  neither their number nor the kind; sizes up to \<open>lim\<close> survive the cast.
\<close>

definition message_ok :: "'m dialler_message \<Rightarrow> nat \<Rightarrow> bool" where
  "message_ok D lim \<longleftrightarrow> (\<forall>n. n \<le> lim \<longrightarrow> dm_size_cast D n = n) \<and>
     (\<forall>n k. length (dm_value D (dm_new D n k)) = n \<and> dm_kind D (dm_new D n k) = k) \<and>
     (\<forall>m b. length b = length (dm_value D m) \<longrightarrow>
        dm_value D (dm_store D b m) = b \<and> dm_kind D (dm_store D b m) = dm_kind D m)"

lemma message_okD:
  assumes "message_ok D lim"
  shows "n \<le> lim \<Longrightarrow> dm_size_cast D n = n" "length (dm_value D (dm_new D n k)) = n" "dm_kind D (dm_new D n k) = k"
    "length b = length (dm_value D m) \<Longrightarrow> dm_value D (dm_store D b m) = b"
    "length b = length (dm_value D m) \<Longrightarrow> dm_kind D (dm_store D b m) = dm_kind D m"
  using assms by (auto simp: message_ok_def)

section \<open>Kinds\<close>

datatype messagekinds = MK_OK | MK_LOGIN | MK_LOGIN_CONFIRM | MK_LOGIN_FAILED | MK_MSG

fun kind_value :: "messagekinds \<Rightarrow> nat" where
  "kind_value MK_OK = 0"
| "kind_value MK_LOGIN = 1"
| "kind_value MK_LOGIN_CONFIRM = 2"
| "kind_value MK_LOGIN_FAILED = 3"
| "kind_value MK_MSG = 4"

lemma kind_value_inject [simp]: "kind_value j = kind_value k \<longleftrightarrow> j = k"
  by (cases j; cases k) simp_all

section \<open>The query structs\<close>

record ok_query =
  ok_id :: "64 word"

record login =
  login_str :: string

record login_confirm =
  confirm_id :: "64 word"

record login_failed =
  failed_id :: "64 word"

definition u64_arg :: "64 word \<Rightarrow> arg" where
  "u64_arg w = A_pod (le_bytes 8 (unat w))"

fun arg_u64 :: "arg \<Rightarrow> 64 word" where
  "arg_u64 (A_pod bs) = of_nat (le_value bs)"
| "arg_u64 _ = 0"

fun arg_str :: "arg \<Rightarrow> string" where
  "arg_str (A_str s) = s"
| "arg_str _ = []"

text \<open>The body the four \<^verbatim>\<open>get_message\<close> members share: size the message, make it, write the members into it.\<close>

definition build_message :: "'m dialler_message \<Rightarrow> arg list \<Rightarrow> messagekinds \<Rightarrow> fault + 'm" where
  "build_message D args k =
     (let neededSize = dm_size_cast D (io_capacity args); nd = dm_new D neededSize (kind_value k)
      in bindR (io_write 0 args (dm_value D nd)) (\<lambda>b. Inr (dm_store D b nd)))"

definition read_u64 :: "'m dialler_message \<Rightarrow> 'm \<Rightarrow> fault + 64 word" where
  "read_u64 D nd = bindR (io_read 0 [AT_pod 8] (dm_value D nd)) (\<lambda>r. Inr (arg_u64 (hd r)))"

definition ok_get_message :: "'m dialler_message \<Rightarrow> ok_query \<Rightarrow> fault + 'm" where
  "ok_get_message D q = build_message D [u64_arg (ok_id q)] MK_OK"

definition ok_of_message :: "'m dialler_message \<Rightarrow> 'm \<Rightarrow> fault + ok_query" where
  "ok_of_message D nd = bindR (read_u64 D nd) (\<lambda>i. Inr \<lparr>ok_id = i\<rparr>)"

definition login_get_message :: "'m dialler_message \<Rightarrow> login \<Rightarrow> fault + 'm" where
  "login_get_message D q = build_message D [A_str (login_str q)] MK_LOGIN"

definition login_of_message :: "'m dialler_message \<Rightarrow> 'm \<Rightarrow> fault + login" where
  "login_of_message D nd =
     bindR (io_read 0 [AT_str] (dm_value D nd)) (\<lambda>r. Inr \<lparr>login_str = arg_str (hd r)\<rparr>)"

definition login_confirm_get_message :: "'m dialler_message \<Rightarrow> login_confirm \<Rightarrow> fault + 'm" where
  "login_confirm_get_message D q = build_message D [u64_arg (confirm_id q)] MK_LOGIN_CONFIRM"

definition login_confirm_of_message :: "'m dialler_message \<Rightarrow> 'm \<Rightarrow> fault + login_confirm" where
  "login_confirm_of_message D nd = bindR (read_u64 D nd) (\<lambda>i. Inr \<lparr>confirm_id = i\<rparr>)"

definition login_failed_get_message :: "'m dialler_message \<Rightarrow> login_failed \<Rightarrow> fault + 'm" where
  "login_failed_get_message D q = build_message D [u64_arg (failed_id q)] MK_LOGIN_FAILED"

definition login_failed_of_message :: "'m dialler_message \<Rightarrow> 'm \<Rightarrow> fault + login_failed" where
  "login_failed_of_message D nd = bindR (read_u64 D nd) (\<lambda>i. Inr \<lparr>failed_id = i\<rparr>)"

text \<open>\<^verbatim>\<open>packed_message<T>\<close>, for the packer of \<^verbatim>\<open>T\<close>.\<close>

definition packed_get_message ::
    "'m dialler_message \<Rightarrow> ('a \<Rightarrow> nat) \<Rightarrow> (nat \<Rightarrow> 'a \<Rightarrow> byte list \<Rightarrow> fault + byte list) \<Rightarrow> 'a \<Rightarrow> fault + 'm" where
  "packed_get_message D capacity pack msg =
     (let neededSize = dm_size_cast D (capacity msg); nd = dm_new D neededSize (kind_value MK_MSG)
      in bindR (pack 0 msg (dm_value D nd)) (\<lambda>b. Inr (dm_store D b nd)))"

definition packed_of_message ::
    "'m dialler_message \<Rightarrow> (nat \<Rightarrow> byte list \<Rightarrow> fault + 'a) \<Rightarrow> 'm \<Rightarrow> fault + 'a" where
  "packed_of_message D unpack nd = unpack 0 (dm_value D nd)"

section \<open>Round trips\<close>

lemma u64_arg_sel [simp]:
  "arg_u64 (u64_arg w) = w" "fits (u64_arg w)" "arg_type_of (u64_arg w) = AT_pod 8"
proof -
  have "(256::nat) ^ 8 = 2 ^ 64" by simp
  moreover have "unat w < 2 ^ LENGTH(64)" by (rule unsigned_less)
  then have "unat w mod 2 ^ 64 = unat w" by simp
  ultimately show "arg_u64 (u64_arg w) = w" by (simp add: u64_arg_def)
qed (simp_all add: u64_arg_def)

lemma io_capacity_u64 [simp]: "io_capacity [u64_arg w] = 8"
  by (simp add: io_capacity_def u64_arg_def)

lemma build_message_run:
  assumes D: "message_ok D lim" and "io_capacity args \<le> lim" and "list_all fits args" and "args \<noteq> []"
  shows "\<exists>m. build_message D args k = Inr m \<and> dm_kind D m = kind_value k \<and>
    io_read 0 (map arg_type_of args) (dm_value D m) = Inr args"
proof -
  let ?nd = "dm_new D (io_capacity args) (kind_value k)"
  note D = message_okD [OF D]
  let ?b = "overlay 0 (concat (map arg_bytes args)) (dm_value D ?nd)"
  have len: "0 + io_capacity args \<le> length (dm_value D ?nd)" by (simp add: D(2))
  have "build_message D args k = Inr (dm_store D ?b ?nd)"
    using io_write_overlay [OF len assms(4)] D(1) [OF assms(2)] by (simp add: build_message_def Let_def)
  moreover have "length ?b = length (dm_value D ?nd)" using len by (intro length_overlay) (simp add: io_capacity_eq)
  note D(4,5) [OF this]
  ultimately show ?thesis
    using io_read_overlay [OF assms(3) len] D(3) by simp
qed

lemma read_u64_run:
  "io_read 0 [AT_pod 8] (dm_value D m) = Inr [u64_arg w] \<Longrightarrow> read_u64 D m = Inr w"
  by (simp add: read_u64_def)

context packer
begin

lemma packed_roundtrip:
  assumes D: "message_ok D lim" and "capacity x \<le> lim" and "ok x"
  shows "\<exists>m. packed_get_message D capacity pack x = Inr m \<and> dm_kind D m = kind_value MK_MSG \<and>
    packed_of_message D unpack m = Inr x"
proof -
  let ?nd = "dm_new D (capacity x) (kind_value MK_MSG)"
  note D = message_okD [OF D]
  have "0 + capacity x \<le> length (dm_value D ?nd)" by (simp add: D(2))
  with pack_ok_iff [OF assms(3)] obtain b where b: "pack 0 x (dm_value D ?nd) = Inr b" by blast
  from unpack_pack [OF assms(3) b] have u: "unpack 0 b = Inr x" and l: "length b = length (dm_value D ?nd)" by simp_all
  from b u D(3) D(4,5) [OF l] D(1) [OF assms(2)] show ?thesis
    by (simp add: packed_get_message_def packed_of_message_def)
qed

lemma packed_overrun:
  assumes "message_ok D lim" and "dm_size_cast D (capacity x) < capacity x"
  shows "packed_get_message D capacity pack x = Inl OutOfBounds"
  using assms(2) message_okD(2) [OF assms(1)] by (simp add: packed_get_message_def Let_def pack_overrun)

end

section \<open>Properties\<close>

text \<open>
  C26: every query of the protocol survives the trip: its message carries the kind of the query, and the
  constructor that reads the message gives the query back, as long as the message class keeps the size.
  For strings and bytes this needs lengths below 4 GiB.
\<close>

theorem queries_roundtrip:
  assumes "message_ok D lim" and "8 \<le> lim" and "io_capacity [A_str name] \<le> lim" and "length name < 2 ^ 32"
    and "nam_capacity msg \<le> lim" and "list_all fits (nam_scheme msg)"
  shows "(\<exists>m. ok_get_message D \<lparr>ok_id = i\<rparr> = Inr m \<and> dm_kind D m = kind_value MK_OK \<and>
      ok_of_message D m = Inr \<lparr>ok_id = i\<rparr>) \<and>
    (\<exists>m. login_get_message D \<lparr>login_str = name\<rparr> = Inr m \<and> dm_kind D m = kind_value MK_LOGIN \<and>
      login_of_message D m = Inr \<lparr>login_str = name\<rparr>) \<and>
    (\<exists>m. login_confirm_get_message D \<lparr>confirm_id = i\<rparr> = Inr m \<and> dm_kind D m = kind_value MK_LOGIN_CONFIRM \<and>
      login_confirm_of_message D m = Inr \<lparr>confirm_id = i\<rparr>) \<and>
    (\<exists>m. login_failed_get_message D \<lparr>failed_id = i\<rparr> = Inr m \<and> dm_kind D m = kind_value MK_LOGIN_FAILED \<and>
      login_failed_of_message D m = Inr \<lparr>failed_id = i\<rparr>) \<and>
    (\<exists>m. packed_get_message D nam_capacity nam_pack msg = Inr m \<and> dm_kind D m = kind_value MK_MSG \<and>
      packed_of_message D nam_unpack m = Inr msg)"
proof (intro conjI)
  have u: "\<exists>m. build_message D [u64_arg i] k = Inr m \<and> dm_kind D m = kind_value k \<and> read_u64 D m = Inr i" for k
    using build_message_run [OF assms(1), of "[u64_arg i]" k] assms(2) read_u64_run by fastforce
  show "\<exists>m. ok_get_message D \<lparr>ok_id = i\<rparr> = Inr m \<and> dm_kind D m = kind_value MK_OK \<and>
      ok_of_message D m = Inr \<lparr>ok_id = i\<rparr>"
    using u [of MK_OK] by (auto simp: ok_get_message_def ok_of_message_def)
  show "\<exists>m. login_confirm_get_message D \<lparr>confirm_id = i\<rparr> = Inr m \<and> dm_kind D m = kind_value MK_LOGIN_CONFIRM \<and>
      login_confirm_of_message D m = Inr \<lparr>confirm_id = i\<rparr>"
    using u [of MK_LOGIN_CONFIRM] by (auto simp: login_confirm_get_message_def login_confirm_of_message_def)
  show "\<exists>m. login_failed_get_message D \<lparr>failed_id = i\<rparr> = Inr m \<and> dm_kind D m = kind_value MK_LOGIN_FAILED \<and>
      login_failed_of_message D m = Inr \<lparr>failed_id = i\<rparr>"
    using u [of MK_LOGIN_FAILED] by (auto simp: login_failed_get_message_def login_failed_of_message_def)
  show "\<exists>m. login_get_message D \<lparr>login_str = name\<rparr> = Inr m \<and> dm_kind D m = kind_value MK_LOGIN \<and>
      login_of_message D m = Inr \<lparr>login_str = name\<rparr>"
    using build_message_run [OF assms(1,3), of MK_LOGIN] assms(4)
    by (auto simp: login_get_message_def login_of_message_def)
  show "\<exists>m. packed_get_message D nam_capacity nam_pack msg = Inr m \<and> dm_kind D m = kind_value MK_MSG \<and>
      packed_of_message D nam_unpack m = Inr msg"
    by (rule nam.packed_roundtrip [OF assms(1,5,6)])
qed

text \<open>A message class with a 32 bit size, for the examples.\<close>

definition plain_message :: "(byte list \<times> nat) dialler_message" where
  "plain_message = \<lparr>dm_size_cast = (\<lambda>n. n mod 2 ^ 32), dm_new = (\<lambda>n k. (replicate n 0, k)), dm_value = fst,
     dm_store = (\<lambda>b (_, k). (b, k)), dm_kind = snd\<rparr>"

lemma plain_message_ok: "message_ok plain_message 65536"
  by (auto simp: message_ok_def plain_message_def)

theorem queries_roundtrip_witness:
  "(\<exists>m. ok_get_message plain_message \<lparr>ok_id = 77\<rparr> = Inr m \<and> ok_of_message plain_message m = Inr \<lparr>ok_id = 77\<rparr>) \<and>
   (\<exists>m. login_get_message plain_message \<lparr>login_str = ''bob''\<rparr> = Inr m \<and>
      login_of_message plain_message m = Inr \<lparr>login_str = ''bob''\<rparr>) \<and>
   (\<exists>m. packed_get_message plain_message nam_capacity nam_pack \<lparr>nam_name = ''/root/usr/a'', nam_data = [1, 2]\<rparr> = Inr m \<and>
      packed_of_message plain_message nam_unpack m = Inr \<lparr>nam_name = ''/root/usr/a'', nam_data = [1, 2]\<rparr>)"
proof -
  have "io_capacity [A_str ''bob''] \<le> 65536" "length ''bob'' < 2 ^ 32"
    "nam_capacity \<lparr>nam_name = ''/root/usr/a'', nam_data = [1, 2]\<rparr> \<le> 65536"
    "list_all fits (nam_scheme \<lparr>nam_name = ''/root/usr/a'', nam_data = [1, 2]\<rparr>)"
    by (simp_all add: io_capacity_def nam_capacity_def nam_scheme_def sizeof_u32_def)
  from queries_roundtrip [OF plain_message_ok _ this, of 77] show ?thesis by auto
qed

text \<open>
  The size of a message is cut to the size type of the message class without a test: whenever the cast
  loses something, writing the members runs past the memory of the message.
\<close>

theorem message_size_truncated:
  assumes "message_ok D lim" and "dm_size_cast D (nam_capacity msg) < nam_capacity msg"
    and "dm_size_cast D (io_capacity [A_str name]) < io_capacity [A_str name]"
  shows "packed_get_message D nam_capacity nam_pack msg = Inl OutOfBounds \<and>
    login_get_message D \<lparr>login_str = name\<rparr> = Inl OutOfBounds"
proof -
  have "login_get_message D \<lparr>login_str = name\<rparr> = Inl OutOfBounds"
    using assms(3) message_okD(2) [OF assms(1)]
    by (simp add: login_get_message_def build_message_def Let_def io_write_def write_args_eq io_capacity_eq)
  with nam.packed_overrun [OF assms(1,2)] show ?thesis by blast
qed

definition tiny_message :: "(byte list \<times> nat) dialler_message" where
  "tiny_message = plain_message\<lparr>dm_size_cast := (\<lambda>n. n mod 16)\<rparr>"

theorem message_size_truncated_witness:
  "packed_get_message tiny_message nam_capacity nam_pack \<lparr>nam_name = ''/root/usr/a'', nam_data = [1, 2]\<rparr> = Inl OutOfBounds"
proof -
  have "message_ok tiny_message 15" by (auto simp: message_ok_def tiny_message_def plain_message_def)
  moreover have "dm_size_cast tiny_message (nam_capacity \<lparr>nam_name = ''/root/usr/a'', nam_data = [1, 2]\<rparr>) <
      nam_capacity \<lparr>nam_name = ''/root/usr/a'', nam_data = [1, 2]\<rparr>"
    "dm_size_cast tiny_message (io_capacity [A_str ''0123456789ab'']) < io_capacity [A_str ''0123456789ab'']"
    by (simp_all add: tiny_message_def nam_capacity_def nam_scheme_def io_capacity_def sizeof_u32_def)
  ultimately show ?thesis using message_size_truncated by blast
qed

end
