(* ===== verification/Yaaf_Network.thy ===== *)
theory Yaaf_Network
  imports Yaaf_Queries Yaaf_User_Context
begin

text \<open>
  The network part of a context (\<^verbatim>\<open>context_network.cpp\<close>): the actors that stand for a listener, a connection and
  their supervisor, and the operations of the context on them. The network library is not part of the
  repository; its functions are a parameter that acts on a state of its own, kept with the network's
  members in the user part of the context. The callbacks that the threads polling its event loop run are
  operations below.
\<close>

section \<open>State\<close>

type_synonym dial_params = "string \<times> 16 word"

text \<open>
  What the sources call: the message class, a listener and a dial object known by a handle, and sending.
  The actor pointer in \<open>dl_send_to\<close> is the consumer the call is made on.
\<close>

record ('m, 'x) dialler_lib =
  dl_msg :: "'m dialler_message"
  dl_listener :: "16 word \<Rightarrow> 'x \<Rightarrow> nat \<times> 'x"
  dl_listener_add_consumer :: "nat \<Rightarrow> actor_ptr \<Rightarrow> 'x \<Rightarrow> 'x"
  dl_listener_start :: "nat \<Rightarrow> 'x \<Rightarrow> 'x"
  dl_listener_wait :: "nat \<Rightarrow> 'x \<Rightarrow> 'x"
  dl_listener_stop :: "nat \<Rightarrow> 'x \<Rightarrow> 'x"
  dl_listener_wait_stop :: "nat \<Rightarrow> 'x \<Rightarrow> 'x"
  dl_send_to :: "actor_ptr \<Rightarrow> 64 word \<Rightarrow> 'm \<Rightarrow> 'x \<Rightarrow> 'x"
  dl_dial :: "dial_params \<Rightarrow> 'x \<Rightarrow> nat \<times> 'x"
  dl_dial_add_consumer :: "nat \<Rightarrow> actor_ptr \<Rightarrow> 'x \<Rightarrow> 'x"
  dl_start_async :: "nat \<Rightarrow> 'x \<Rightarrow> 'x"
  dl_disconnect :: "nat \<Rightarrow> 'x \<Rightarrow> 'x"
  dl_dial_wait_stop :: "nat \<Rightarrow> 'x \<Rightarrow> 'x"
  dl_send_async :: "nat \<Rightarrow> 'm \<Rightarrow> 'x \<Rightarrow> 'x"

text \<open>
  The members of a connection actor; a listener actor has its port. Of a thread that polls the event loop it
  is kept whether it can still be joined.
\<close>

record con_members =
  con_handle :: nat
  con_cp :: dial_params
  con_target_host :: string

record 'x net_state =
  net_root :: actor_address
  net_threads :: "bool list"
  net_connections :: "(dial_params, nat) unordered_map"
  net_listeners :: "(16 word, nat) unordered_map"
  lst_port :: "actor_ptr \<Rightarrow> 16 word"
  con_of :: "actor_ptr \<Rightarrow> con_members"
  net_ext :: 'x

type_synonym 'x net_ctx = "'x net_state ctx"

definition upd_net :: "('x net_state \<Rightarrow> 'x net_state) \<Rightarrow> ('x net_ctx, unit) cpp" where
  "upd_net f = modM (\<lambda>s. s\<lparr>usr := f (usr s)\<rparr>)"

definition ext_call :: "('x \<Rightarrow> 'x) \<Rightarrow> ('x net_ctx, unit) cpp" where
  "ext_call f = upd_net (\<lambda>n. n\<lparr>net_ext := f (net_ext n)\<rparr>)"

definition ext_new :: "('x \<Rightarrow> nat \<times> 'x) \<Rightarrow> ('x net_ctx, nat) cpp" where
  "ext_new f = (\<lambda>s. let (h, x) = f (net_ext (usr s)) in (Inr h, s\<lparr>usr := (usr s)\<lparr>net_ext := x\<rparr>\<rparr>))"

text \<open>\<^verbatim>\<open>unordered_map::insert\<close> keeps an entry that is already there.\<close>

definition map_insert :: "'k \<Rightarrow> 'v \<Rightarrow> ('k, 'v) unordered_map \<Rightarrow> ('k, 'v) unordered_map" where
  "map_insert k v m = (case map_of m k of None \<Rightarrow> AList.update k v m | Some _ \<Rightarrow> m)"

section \<open>Operations of the context\<close>

definition net_init :: "nat \<Rightarrow> ('x net_ctx, unit) cpp" where
  "net_init network_threads =
     bindM (new_actor Network_supervisor_actor) (\<lambda>a.
     bindM (getM root_addr) (\<lambda>r.
     bindM (add_actor_under base_vtable ''net'' r a) (\<lambda>nr.
       seqM (upd_net (\<lambda>n. n\<lparr>net_root := nr\<rparr>))
         (upd_net (\<lambda>n. n\<lparr>net_threads := net_threads n @ replicate network_threads True\<rparr>)))))"

definition add_listener_on :: "('m, 'x) dialler_lib \<Rightarrow> 16 word \<Rightarrow> ('x net_ctx, unit) cpp" where
  "add_listener_on dl port =
     bindM (ext_new (dl_listener dl port)) (\<lambda>l.
     bindM (new_actor Network_lst_actor) (\<lambda>saptr.
     seqM (upd_net (\<lambda>n. n\<lparr>lst_port := (lst_port n)(saptr := port)\<rparr>))
     (bindM (getM (\<lambda>s. net_root (usr s))) (\<lambda>nr.
      bindM (add_actor_under base_vtable (''listen_'' @ string_of_nat (unat port)) nr saptr) (\<lambda>_.
      seqM (ext_call (dl_listener_add_consumer dl l saptr))
      (seqM (ext_call (dl_listener_start dl l))
      (seqM (ext_call (dl_listener_wait dl l))
        (upd_net (\<lambda>n. n\<lparr>net_listeners := map_insert port l (net_listeners n)\<rparr>)))))))))"

definition erase_listener_on :: "('m, 'x) dialler_lib \<Rightarrow> 16 word \<Rightarrow> ('x net_ctx, unit) cpp" where
  "erase_listener_on dl port = with_xexcl
     (bindM (getM (\<lambda>s. map_of (net_listeners (usr s)) port)) (\<lambda>it. case it of
        None \<Rightarrow> retM ()
      | Some l \<Rightarrow> seqM (ext_call (dl_listener_stop dl l))
          (upd_net (\<lambda>n. n\<lparr>net_listeners := AList.delete port (net_listeners n)\<rparr>))))"

definition host_port :: "dial_params \<Rightarrow> string" where
  "host_port cp = args_to_string [A_string (fst cp), A_cstr '':'', A_uint (unat (snd cp))]"

definition net_exchange :: "string \<Rightarrow> string" where
  "net_exchange target_host = ''/root/net/'' @ target_host"

definition add_connection_to :: "('m, 'x) dialler_lib \<Rightarrow> dial_params \<Rightarrow> ('x net_ctx, unit) cpp" where
  "add_connection_to dl cp =
     (let target_host = host_port cp in
     bindM (getM (\<lambda>s. net_root (usr s))) (\<lambda>nr.
     seqM (create_exchange nr (net_exchange target_host))
     (bindM (ext_new (dl_dial dl cp)) (\<lambda>l.
      let actor_name = fst cp @ '':'' @ string_of_nat (unat (snd cp)) in
      bindM (new_actor Network_con_actor) (\<lambda>saptr.
      seqM (upd_net (\<lambda>n. n\<lparr>con_of := (con_of n)(saptr :=
          \<lparr>con_handle = l, con_cp = cp, con_target_host = host_port cp\<rparr>)\<rparr>))
      (bindM (getM (\<lambda>s. net_root (usr s))) (\<lambda>nr'.
       bindM (add_actor_under base_vtable actor_name nr' saptr) (\<lambda>_.
       seqM (ext_call (dl_dial_add_consumer dl l saptr))
       (seqM (ext_call (dl_start_async dl l))
         (upd_net (\<lambda>n. n\<lparr>net_connections := map_insert cp l (net_connections n)\<rparr>)))))))))))"

definition erase_connections :: "('m, 'x) dialler_lib \<Rightarrow> dial_params \<Rightarrow> ('x net_ctx, unit) cpp" where
  "erase_connections dl cp = with_xexcl
     (bindM (getM (\<lambda>s. map_of (net_connections (usr s)) cp)) (\<lambda>it. case it of
        None \<Rightarrow> retM ()
      | Some l \<Rightarrow> seqM (ext_call (dl_disconnect dl l))
          (upd_net (\<lambda>n. n\<lparr>net_connections := AList.delete cp (net_connections n)\<rparr>))))"

section \<open>The listener actor\<close>

fun value_listener_message :: "cpp_value \<Rightarrow> listener_actor_message" where
  "value_listener_message (V_listener_message m) = m"
| "value_listener_message _ = \<lparr>lam_sender_id = 0, lam_name = [], lam_data = []\<rparr>"

fun value_network_message :: "cpp_value \<Rightarrow> network_actor_message" where
  "value_network_message (V_network_message m) = m"
| "value_network_message _ = \<lparr>nam_name = [], nam_data = []\<rparr>"

definition lst_action_handle ::
    "('m, 'x) dialler_lib \<Rightarrow> actor_ptr \<Rightarrow> envelope \<Rightarrow> ('x net_ctx, unit) cpp" where
  "lst_action_handle dl p e =
     bindM (liftM (payload_cast T_listener_message (payload e))) (\<lambda>v.
       let lm = value_listener_message v; nam = \<lparr>nam_name = lam_name lm, nam_data = lam_data lm\<rparr>
       in bindM (liftM (packed_get_message (dl_msg dl) nam_capacity nam_pack nam)) (\<lambda>msg_ptr.
            ext_call (dl_send_to dl p (lam_sender_id lm) msg_ptr)))"

definition lst_on_stop :: "('m, 'x) dialler_lib \<Rightarrow> actor_ptr \<Rightarrow> ('x net_ctx, unit) cpp" where
  "lst_on_stop dl p =
     bindM (getM (\<lambda>s. lst_port (usr s) p)) (\<lambda>port. seqM (erase_listener_on dl port) (base_on_stop p))"

definition lst_on_new_connection :: "bool" where
  "lst_on_new_connection = True"

text \<open>\<open>i\<close> is the identifier of the client the message came from.\<close>

definition lst_on_new_message ::
    "('m, 'x) dialler_lib \<Rightarrow> bool \<Rightarrow> actor_ptr \<Rightarrow> 64 word \<Rightarrow> 'm \<Rightarrow> ('x net_ctx, unit) cpp" where
  "lst_on_new_message dl live p i d =
     whenM (dm_kind (dl_msg dl) d = kind_value MK_MSG)
       (bindM (liftM (packed_of_message (dl_msg dl) nam_unpack d)) (\<lambda>nm.
        bindM (get_context live p) (\<lambda>ctx. case ctx of
          None \<Rightarrow> retM ()
        | Some uc \<Rightarrow> bindM (uc_get_address True (nam_name nm)) (\<lambda>addr.
            if \<not> address_empty addr
            then uc_send True uc addr (V_listener_message
              \<lparr>lam_sender_id = i, lam_name = nam_name nm, lam_data = nam_data nm\<rparr>)
            else retM ()))))"

section \<open>The connection actor\<close>

definition con_on_stop :: "('m, 'x) dialler_lib \<Rightarrow> actor_ptr \<Rightarrow> ('x net_ctx, unit) cpp" where
  "con_on_stop dl p =
     bindM (getM (\<lambda>s. con_cp (con_of (usr s) p))) (\<lambda>cp. seqM (erase_connections dl cp) (base_on_stop p))"

definition con_action_handle ::
    "('m, 'x) dialler_lib \<Rightarrow> actor_ptr \<Rightarrow> envelope \<Rightarrow> ('x net_ctx, unit) cpp" where
  "con_action_handle dl p e =
     bindM (liftM (payload_cast T_network_message (payload e))) (\<lambda>v.
     bindM (getM (\<lambda>s. con_handle (con_of (usr s) p))) (\<lambda>con.
     bindM (liftM (packed_get_message (dl_msg dl) nam_capacity nam_pack (value_network_message v))) (\<lambda>m.
       ext_call (dl_send_async dl con m))))"

definition con_on_new_message ::
    "('m, 'x) dialler_lib \<Rightarrow> bool \<Rightarrow> actor_ptr \<Rightarrow> 'm \<Rightarrow> ('x net_ctx, unit) cpp" where
  "con_on_new_message dl live p d =
     whenM (dm_kind (dl_msg dl) d = kind_value MK_MSG)
       (bindM (liftM (packed_of_message (dl_msg dl) nam_unpack d)) (\<lambda>nm.
        bindM (get_context live p) (\<lambda>ctx. case ctx of
          None \<Rightarrow> retM ()
        | Some uc \<Rightarrow> bindM (uc_get_address True (nam_name nm)) (\<lambda>target_addr.
            if \<not> address_empty target_addr then uc_send True uc target_addr (V_network_message nm)
            else retM ()))))"

definition send_status :: "bool \<Rightarrow> actor_ptr \<Rightarrow> connection_status_message \<Rightarrow> ('x net_ctx, unit) cpp" where
  "send_status live p sm =
     bindM (getM (\<lambda>s. con_target_host (con_of (usr s) p))) (\<lambda>target_host.
     bindM (get_context live p) (\<lambda>ctx. case ctx of
       None \<Rightarrow> retM ()
     | Some uc \<Rightarrow> uc_publish True uc (net_exchange target_host) (V_connection_status sm)))"

definition send_status_error :: "bool \<Rightarrow> actor_ptr \<Rightarrow> string \<Rightarrow> ('x net_ctx, unit) cpp" where
  "send_status_error live p err = bindM (getM (\<lambda>s. con_target_host (con_of (usr s) p))) (\<lambda>target_host.
     send_status live p \<lparr>csm_host = target_host, csm_errormsg = err, csm_is_connected = False\<rparr>)"

definition send_status_success :: "bool \<Rightarrow> actor_ptr \<Rightarrow> ('x net_ctx, unit) cpp" where
  "send_status_success live p = bindM (getM (\<lambda>s. con_target_host (con_of (usr s) p))) (\<lambda>target_host.
     send_status live p \<lparr>csm_host = target_host, csm_errormsg = [], csm_is_connected = True\<rparr>)"

definition con_on_connect :: "bool \<Rightarrow> actor_ptr \<Rightarrow> ('x net_ctx, unit) cpp" where
  "con_on_connect live p = send_status_success live p"

definition con_on_network_error :: "bool \<Rightarrow> actor_ptr \<Rightarrow> string \<Rightarrow> ('x net_ctx, unit) cpp" where
  "con_on_network_error live p err = send_status_error live p err"

section \<open>The supervisor and the table of virtual functions\<close>

fun value_listener_params :: "cpp_value \<Rightarrow> 16 word" where
  "value_listener_params (V_listener_params p) = p"
| "value_listener_params _ = 0"

fun value_dial_params :: "cpp_value \<Rightarrow> dial_params" where
  "value_dial_params (V_dial_params h p) = (h, p)"
| "value_dial_params _ = ([], 0)"

definition supervisor_action_handle ::
    "('m, 'x) dialler_lib \<Rightarrow> envelope \<Rightarrow> ('x net_ctx, unit) cpp" where
  "supervisor_action_handle dl e =
     bindM (getM double_checks) (\<lambda>dc.
     seqM (bindM (liftM (payload_is dc T_listener_params (payload e))) (\<lambda>b. whenM b
        (bindM (liftM (payload_cast T_listener_params (payload e))) (\<lambda>v.
           add_listener_on dl (value_listener_params v)))))
     (bindM (liftM (payload_is dc T_dial_params (payload e))) (\<lambda>b. whenM b
        (bindM (liftM (payload_cast T_dial_params (payload e))) (\<lambda>v.
           add_connection_to dl (value_dial_params v))))))"

text \<open>The network classes override \<^verbatim>\<open>action_handle\<close> and two of them \<^verbatim>\<open>on_stop\<close>; the rest is \<^verbatim>\<open>base_actor\<close>'s.\<close>

definition net_class :: "actor_class \<Rightarrow> bool" where
  "net_class k \<longleftrightarrow> k \<in> {Network_supervisor_actor, Network_lst_actor, Network_con_actor}"

definition inherited :: "actor_ptr \<Rightarrow> ('u ctx, 'a) cpp \<Rightarrow> ('u ctx, 'a) cpp \<Rightarrow> ('u ctx, 'a) cpp" where
  "inherited p base own = (\<lambda>s. if net_class (class_of (objs s p)) then base s else own s)"

definition net_vtable :: "('m, 'x) dialler_lib \<Rightarrow> 'x net_state vtable \<Rightarrow> 'x net_state vtable" where
  "net_vtable dl vt = \<lparr>
     v_action_handle = (\<lambda>p e s. case class_of (objs s p) of
         Network_supervisor_actor \<Rightarrow> supervisor_action_handle dl e s
       | Network_lst_actor \<Rightarrow> lst_action_handle dl p e s
       | Network_con_actor \<Rightarrow> con_action_handle dl p e s
       | _ \<Rightarrow> v_action_handle vt p e s),
     v_on_init = (\<lambda>p st. inherited p (base_on_init st) (v_on_init vt p st)),
     v_on_start = (\<lambda>p. inherited p base_on_start (v_on_start vt p)),
     v_on_stop = (\<lambda>p s. case class_of (objs s p) of
         Network_supervisor_actor \<Rightarrow> base_on_stop p s
       | Network_lst_actor \<Rightarrow> lst_on_stop dl p s
       | Network_con_actor \<Rightarrow> con_on_stop dl p s
       | _ \<Rightarrow> v_on_stop vt p s),
     v_on_child_status = (\<lambda>p a k. inherited p (base_on_child_status a k) (v_on_child_status vt p a k)),
     v_on_child_error = (\<lambda>p a. inherited p (base_on_child_error a) (v_on_child_error vt p a)),
     v_on_child_stopped = (\<lambda>p a r. inherited p (base_on_child_stopped a r) (v_on_child_stopped vt p a r))\<rparr>"

section \<open>Messages between two contexts\<close>

lemma get_address_run:
  assumes "cx_lock s = Unlocked"
  shows "get_address name s = (Inr (case map_of (id_by_name s) name of
       None \<Rightarrow> address_default
     | Some i \<Rightarrow> (case actor_at s i of None \<Rightarrow> address_default | Some d \<Rightarrow> d_address d)), s)"
  using assms cx_lock_idem [of s Unlocked]
  by (auto simp: get_address_def with_shared_def split: option.splits)

text \<open>Where a message for a name goes: to the actor the name stands for, if it is still registered.\<close>

definition spec_send_named :: "string \<Rightarrow> envelope \<Rightarrow> 'u ctx \<Rightarrow> spec_state" where
  "spec_send_named name e s = (case map_of (id_by_name s) name of
     None \<Rightarrow> abs_ctx s | Some i \<Rightarrow> spec_send i e (abs_ctx s))"

lemma send_to_name:
  fixes s :: "'u ctx"
  assumes inv: "ctx_inv s" and lock: "cx_lock s = Unlocked" and run: "\<not> stopping_begin s"
    and uc: "aa_pathname (uc_addr uc) \<noteq> null_pathname" and name: "name \<noteq> null_pathname"
  shows "\<exists>s'. bindM (uc_get_address True name) (\<lambda>addr.
      if \<not> address_empty addr then uc_send True uc addr v else retM ()) s = (Inr (), s') \<and> ctx_inv s' \<and>
    abs_ctx s' = spec_send_named name \<lparr>payload = payload_of v, sender = uc_addr uc\<rparr> s"
proof -
  let ?e = "\<lparr>payload = payload_of v, sender = uc_addr uc\<rparr>"
  note look = get_address_run [OF lock, of name]
  consider (gone) "\<And>i. map_of (id_by_name s) name = Some i \<Longrightarrow> actor_at s i = None"
    | (here) i d where "map_of (id_by_name s) name = Some i" "actor_at s i = Some d" by (metis option.exhaust)
  then show ?thesis
  proof cases
    case gone
    then have "mbox_at s i = None" if "map_of (id_by_name s) name = Some i" for i
      using that inv_boxesD(1) [OF ctx_invD(4) [OF inv]] by (metis domIff)
    then show ?thesis
      using look inv gone
      by (auto simp: uc_get_address_def uc_if_alive_def spec_send_named_def spec_send_def split: option.splits)
  next
    case here
    from ctx_invD(3,5) [OF inv] here have d: "aa_id (d_address d) = i" "\<not> address_empty (d_address d)"
      "aa_pathname (d_address d) \<noteq> null_pathname"
      using name by (auto simp: inv_ids_def inv_names_def address_empty_def)
    have may: "may_send (d_address d) ?e s"
      using lock uc d(3) by (simp add: may_send_def sendable_def payload_empty_def payload_of_def)
    have "uc_send True uc (d_address d) v s = send_envelope (d_address d) ?e s"
      using uc_send_run(1) [OF run, of "envelope_default\<lparr>payload := payload_of v\<rparr>" uc "d_address d"]
      by (simp add: uc_send_def payload_copy_def sendable_def payload_empty_def payload_of_def)
    then show ?thesis
      using look here d send_envelope_run [OF may] abs_send [OF inv may]
        preserves_snd [OF preserves_send(1) inv, of "d_address d" ?e]
      by (simp add: uc_get_address_def uc_if_alive_def spec_send_named_def)
  qed
qed

lemma packed_nam:
  assumes "message_ok D lim" and "nam_capacity nm \<le> lim" and "list_all fits (nam_scheme nm)"
  obtains m where "packed_get_message D nam_capacity nam_pack nm = Inr m" "dm_kind D m = kind_value MK_MSG"
    "packed_of_message D nam_unpack m = Inr nm"
  using nam.packed_roundtrip [OF assms] by blast

lemma ext_call_app [simp]: "ext_call f s = (Inr (), s\<lparr>usr := (usr s)\<lparr>net_ext := f (net_ext (usr s))\<rparr>\<rparr>)"
  by (simp add: ext_call_def upd_net_def)

lemma payload_cast_of: "payload_cast (type_info v) (payload_of v) = Inr v"
  by (simp add: payload_cast_def payload_of_def)

lemma con_action_handle_run:
  assumes "packed_get_message (dl_msg dl) nam_capacity nam_pack nm = Inr m"
  shows "con_action_handle dl p \<lparr>payload = payload_of (V_network_message nm), sender = a\<rparr> s =
    ext_call (dl_send_async dl (con_handle (con_of (usr s) p)) m) s"
  using payload_cast_of [of "V_network_message nm"] assms by (simp add: con_action_handle_def)

lemma lst_action_handle_run:
  assumes "packed_get_message (dl_msg dl) nam_capacity nam_pack \<lparr>nam_name = lam_name lm, nam_data = lam_data lm\<rparr> = Inr m"
  shows "lst_action_handle dl p \<lparr>payload = payload_of (V_listener_message lm), sender = a\<rparr> s =
    ext_call (dl_send_to dl p (lam_sender_id lm) m) s"
  using payload_cast_of [of "V_listener_message lm"] assms by (simp add: lst_action_handle_def)

lemma lst_on_new_message_run:
  assumes "dm_kind (dl_msg dl) m = kind_value MK_MSG" and "packed_of_message (dl_msg dl) nam_unpack m = Inr nm"
    and "self_ctx (objs s q) = Some uc"
  shows "lst_on_new_message dl True q cid m s = bindM (uc_get_address True (nam_name nm)) (\<lambda>addr.
      if \<not> address_empty addr
      then uc_send True uc addr (V_listener_message \<lparr>lam_sender_id = cid, lam_name = nam_name nm, lam_data = nam_data nm\<rparr>)
      else retM ()) s"
  using assms by (simp add: lst_on_new_message_def get_context_def)

lemma con_on_new_message_run:
  assumes "dm_kind (dl_msg dl) m = kind_value MK_MSG" and "packed_of_message (dl_msg dl) nam_unpack m = Inr nm"
    and "self_ctx (objs s q) = Some uc"
  shows "con_on_new_message dl True q m s = bindM (uc_get_address True (nam_name nm)) (\<lambda>addr.
      if \<not> address_empty addr then uc_send True uc addr (V_network_message nm) else retM ()) s"
  using assms by (simp add: con_on_new_message_def get_context_def)

text \<open>What the network actor \<open>q\<close> that receives needs of its context.\<close>

definition receiving :: "'x net_ctx \<Rightarrow> actor_ptr \<Rightarrow> user_context \<Rightarrow> bool" where
  "receiving s q uc \<longleftrightarrow> ctx_inv s \<and> cx_lock s = Unlocked \<and> \<not> stopping_begin s \<and>
     self_ctx (objs s q) = Some uc \<and> aa_pathname (uc_addr uc) \<noteq> null_pathname"

text \<open>Taking a listener or a connection down changes nothing the registry's invariant looks at.\<close>

lemma preserves_ctx_inv_usr [triple_intro]: "preserves ctx_inv (upd_net f)" "preserves ctx_inv (ext_call g)"
  by (rule preservesI; simp add: upd_net_def)+

lemma preserves_erase [triple_intro]:
  "preserves ctx_inv (erase_listener_on dl port)" "preserves ctx_inv (erase_connections dl cp)"
  unfolding erase_listener_on_def erase_connections_def by (intro triple_intro; assumption)+

section \<open>An example\<close>

text \<open>A network library that only records the messages it is given, and the contexts of the examples with a network state.\<close>

definition demo_lib :: "(byte list \<times> nat, (byte list \<times> nat) list) dialler_lib" where
  "demo_lib = \<lparr>dl_msg = plain_message, dl_listener = (\<lambda>port x. (0, x)), dl_listener_add_consumer = (\<lambda>l p x. x),
     dl_listener_start = (\<lambda>l x. x), dl_listener_wait = (\<lambda>l x. x), dl_listener_stop = (\<lambda>l x. x), dl_listener_wait_stop = (\<lambda>l x. x),
     dl_send_to = (\<lambda>p i m x. x @ [m]), dl_dial = (\<lambda>cp x. (0, x)), dl_dial_add_consumer = (\<lambda>l p x. x),
     dl_start_async = (\<lambda>l x. x), dl_disconnect = (\<lambda>l x. x), dl_dial_wait_stop = (\<lambda>l x. x), dl_send_async = (\<lambda>h m x. x @ [m])\<rparr>"

definition with_usr :: "'v \<Rightarrow> 'u ctx \<Rightarrow> 'v ctx" where
  "with_usr v s = \<lparr>objs = objs s, mbs = mbs s, usr = v, double_checks = double_checks s, cx_params = cx_params s,
     cx_name = cx_name s, cx_tm = cx_tm s, cx_lock = cx_lock s, next_actor_id = next_actor_id s, actors = actors s,
     id_by_name = id_by_name s, mboxes = mboxes s, cx_xlock = cx_xlock s, exchanges = exchanges s,
     stopping_begin = stopping_begin s, root_addr = root_addr s, usr_root = usr_root s, sys_root = sys_root s,
     next_mb = next_mb s, next_obj = next_obj s, next_result = next_result s\<rparr>"

lemma ctx_inv_with_usr [simp]: "ctx_inv (with_usr v s) = ctx_inv s"
  unfolding ctx_inv_def inv_defs with_usr_def by simp

definition demo_net :: "(byte list \<times> nat) list net_ctx" where
  "demo_net = with_usr \<lparr>net_root = address_of (Id_t 1) ''/a'', net_threads = [], net_connections = [], net_listeners = [],
     lst_port = (\<lambda>_. 0), con_of = (\<lambda>_. \<lparr>con_handle = 0, con_cp = ([], 0), con_target_host = []\<rparr>), net_ext = []\<rparr>
     (demo_family\<lparr>next_obj := 2\<rparr>)"

lemma demo_lib_ok: "message_ok (dl_msg demo_lib) 65536"
  using plain_message_ok by (simp add: demo_lib_def)

lemma demo_net_receiving: "receiving demo_net 0 (demo_uc 1 ''/a'')"
proof -
  have "ctx_inv demo_net" by (simp add: demo_net_def demo_family_inv)
  moreover have "cx_lock demo_net = Unlocked" "\<not> stopping_begin demo_net" "self_ctx (objs demo_net 0) = Some (demo_uc 1 ''/a'')"
    "aa_pathname (uc_addr (demo_uc 1 ''/a'')) \<noteq> null_pathname" by code_simp+
  ultimately show ?thesis by (simp add: receiving_def)
qed

lemma demo_nam:
  "nam_capacity \<lparr>nam_name = ''/a/b'', nam_data = [1, 2]\<rparr> \<le> 65536" "list_all fits (nam_scheme \<lparr>nam_name = ''/a/b'', nam_data = [1, 2]\<rparr>)"
  by (simp_all add: io_capacity_def nam_capacity_def nam_scheme_def sizeof_u32_def)

lemma demo_named:
  "spec_send_named ''/a/b'' e demo_net = spec_send (Id_t 2) e (abs_ctx demo_net)"
  "inbox (spec_send (Id_t 2) e (abs_ctx demo_net)) (Id_t 2) = Some [e]"
proof -
  have "map_of (id_by_name demo_net) ''/a/b'' = Some (Id_t 2)" "mbox_at demo_net (Id_t 2) = Some 1" "queue_at demo_net 1 = []"
    by code_simp+
  then show "spec_send_named ''/a/b'' e demo_net = spec_send (Id_t 2) e (abs_ctx demo_net)"
    "inbox (spec_send (Id_t 2) e (abs_ctx demo_net)) (Id_t 2) = Some [e]"
    by (simp_all add: spec_send_named_def spec_send_def)
qed

section \<open>Properties\<close>

text \<open>
  C23: from a client's context to an actor behind a listener: the connection actor turns a message into
  bytes and hands them to the network library, and when the listener actor of the other context is given
  those bytes, exactly the actor the message names gets it, with the data unchanged, the identifier of the
  connection to answer to, and the listener as the sender. A name nobody has, or has any more, is
  dropped.
\<close>

theorem network_delivery:
  assumes "message_ok (dl_msg dl) lim" and "nam_capacity nm \<le> lim" and "list_all fits (nam_scheme nm)"
    and "receiving s2 q uc" and "nam_name nm \<noteq> null_pathname"
  shows "\<exists>m s1' s2'.
    con_action_handle dl p \<lparr>payload = payload_of (V_network_message nm), sender = a\<rparr> s1 = (Inr (), s1') \<and>
    net_ext (usr s1') = dl_send_async dl (con_handle (con_of (usr s1) p)) m (net_ext (usr s1)) \<and>
    lst_on_new_message dl True q cid m s2 = (Inr (), s2') \<and> ctx_inv s2' \<and>
    abs_ctx s2' = spec_send_named (nam_name nm) \<lparr>payload = payload_of (V_listener_message
      \<lparr>lam_sender_id = cid, lam_name = nam_name nm, lam_data = nam_data nm\<rparr>), sender = uc_addr uc\<rparr> s2"
proof -
  from packed_nam [OF assms(1-3)] obtain m where m: "packed_get_message (dl_msg dl) nam_capacity nam_pack nm = Inr m"
    "dm_kind (dl_msg dl) m = kind_value MK_MSG" "packed_of_message (dl_msg dl) nam_unpack m = Inr nm" .
  from assms(4) have r: "ctx_inv s2" "cx_lock s2 = Unlocked" "\<not> stopping_begin s2" "self_ctx (objs s2 q) = Some uc"
    "aa_pathname (uc_addr uc) \<noteq> null_pathname" by (simp_all add: receiving_def)
  show ?thesis
    using con_action_handle_run [OF m(1), of p a s1] lst_on_new_message_run [OF m(2,3) r(4), of cid]
      send_to_name [OF r(1-3,5) assms(5), of "V_listener_message
        \<lparr>lam_sender_id = cid, lam_name = nam_name nm, lam_data = nam_data nm\<rparr>"]
    by (intro exI [of _ m]) simp
qed

theorem network_delivery_witness:
  "\<exists>m s1' s2'. con_action_handle demo_lib 1 \<lparr>payload = payload_of (V_network_message
      \<lparr>nam_name = ''/a/b'', nam_data = [1, 2]\<rparr>), sender = address_default\<rparr> demo_net = (Inr (), s1') \<and>
    net_ext (usr s1') = [m] \<and> lst_on_new_message demo_lib True 0 9 m demo_net = (Inr (), s2') \<and>
    inbox (abs_ctx s2') (Id_t 2) = Some [\<lparr>payload = payload_of (V_listener_message
      \<lparr>lam_sender_id = 9, lam_name = ''/a/b'', lam_data = [1, 2]\<rparr>), sender = address_of (Id_t 1) ''/a''\<rparr>]"
proof -
  have "nam_name \<lparr>nam_name = ''/a/b'', nam_data = [1, 2 :: byte]\<rparr> \<noteq> null_pathname" by (simp add: null_pathname_def)
  moreover have "dl_send_async demo_lib h m (net_ext (usr demo_net)) = [m]" for h m
    by (simp add: demo_lib_def demo_net_def with_usr_def)
  moreover have "uc_addr (demo_uc 1 ''/a'') = address_of (Id_t 1) ''/a''" by (simp add: demo_uc_def)
  ultimately show ?thesis
    using network_delivery [OF demo_lib_ok demo_nam demo_net_receiving, of 1 address_default demo_net 9]
    by (auto simp: demo_named simp del: abs_ctx_sel)
qed

text \<open>
  And back: what an actor sends through the listener actor to the identifier it was given reaches the
  actor of that name in the client's context, unchanged, with the connection actor as the sender.
\<close>

theorem network_reply:
  assumes "message_ok (dl_msg dl) lim" and "nam_capacity \<lparr>nam_name = lam_name lm, nam_data = lam_data lm\<rparr> \<le> lim"
    and "list_all fits (nam_scheme \<lparr>nam_name = lam_name lm, nam_data = lam_data lm\<rparr>)"
    and "receiving s2 q uc" and "lam_name lm \<noteq> null_pathname"
  shows "\<exists>m s1' s2'.
    lst_action_handle dl p \<lparr>payload = payload_of (V_listener_message lm), sender = a\<rparr> s1 = (Inr (), s1') \<and>
    net_ext (usr s1') = dl_send_to dl p (lam_sender_id lm) m (net_ext (usr s1)) \<and>
    con_on_new_message dl True q m s2 = (Inr (), s2') \<and> ctx_inv s2' \<and>
    abs_ctx s2' = spec_send_named (lam_name lm) \<lparr>payload = payload_of (V_network_message
      \<lparr>nam_name = lam_name lm, nam_data = lam_data lm\<rparr>), sender = uc_addr uc\<rparr> s2"
proof -
  let ?nm = "\<lparr>nam_name = lam_name lm, nam_data = lam_data lm\<rparr>"
  from packed_nam [OF assms(1-3)] obtain m where m: "packed_get_message (dl_msg dl) nam_capacity nam_pack ?nm = Inr m"
    "dm_kind (dl_msg dl) m = kind_value MK_MSG" "packed_of_message (dl_msg dl) nam_unpack m = Inr ?nm" .
  from assms(4) have r: "ctx_inv s2" "cx_lock s2 = Unlocked" "\<not> stopping_begin s2" "self_ctx (objs s2 q) = Some uc"
    "aa_pathname (uc_addr uc) \<noteq> null_pathname" by (simp_all add: receiving_def)
  show ?thesis
    using lst_action_handle_run [OF m(1), of p a s1] con_on_new_message_run [OF m(2,3) r(4)]
      send_to_name [OF r(1-3,5) assms(5), of "V_network_message ?nm"]
    by (intro exI [of _ m]) simp
qed

theorem network_reply_witness:
  "\<exists>m s1' s2'. lst_action_handle demo_lib 1 \<lparr>payload = payload_of (V_listener_message
      \<lparr>lam_sender_id = 9, lam_name = ''/a/b'', lam_data = [1, 2]\<rparr>), sender = address_default\<rparr> demo_net = (Inr (), s1') \<and>
    net_ext (usr s1') = [m] \<and> con_on_new_message demo_lib True 0 m demo_net = (Inr (), s2') \<and>
    inbox (abs_ctx s2') (Id_t 2) = Some [\<lparr>payload = payload_of (V_network_message
      \<lparr>nam_name = ''/a/b'', nam_data = [1, 2]\<rparr>), sender = address_of (Id_t 1) ''/a''\<rparr>]"
proof -
  let ?lm = "\<lparr>lam_sender_id = 9, lam_name = ''/a/b'', lam_data = [1, 2]\<rparr>"
  have "lam_name ?lm \<noteq> null_pathname" by (simp add: null_pathname_def)
  moreover have "dl_send_to demo_lib h i m (net_ext (usr demo_net)) = [m]" for h i m
    by (simp add: demo_lib_def demo_net_def with_usr_def)
  moreover have "uc_addr (demo_uc 1 ''/a'') = address_of (Id_t 1) ''/a''" by (simp add: demo_uc_def)
  ultimately show ?thesis
    using network_reply [OF demo_lib_ok, of ?lm demo_net 0 "demo_uc 1 ''/a''" 1 address_default demo_net]
      demo_nam demo_net_receiving by (auto simp: demo_named simp del: abs_ctx_sel)
qed

end
