(* ===== verification/Yaaf_Net_Setup.thy ===== *)
theory Yaaf_Net_Setup
  imports Yaaf_Network Yaaf_Lifecycle
begin

text \<open>
  Setting up and taking down listeners and connections (\<^verbatim>\<open>context_network.cpp\<close>, \<^verbatim>\<open>network_init\<close> to
  \<^verbatim>\<open>erase_connections\<close>): which actor is registered where, what the network library is asked to do, and where the
  status of a connection is published.
\<close>

section \<open>Adding an actor of the network\<close>

lemma base_plain: "plain_init base_vtable"
  by (simp add: plain_init_def base_vtable_def base_on_init_def)

text \<open>What decides whether an actor can be added.\<close>

definition add_core :: "'u ctx \<Rightarrow> 'u ctx \<Rightarrow> bool" where
  "add_core s t \<longleftrightarrow> actors t = actors s \<and> usr_root t = usr_root s \<and> cx_lock t = cx_lock s \<and> cx_tm t = cx_tm s \<and>
     next_actor_id t = next_actor_id s \<and> double_checks t = double_checks s \<and> cx_name t = cx_name s"

lemma add_core_cong:
  assumes "add_core s t"
  shows "can_add parent nm t = can_add parent nm s" "path_under parent nm t = path_under parent nm s"
    "parent_desc parent t = parent_desc parent s" "effective_parent parent t = effective_parent parent s"
    "user_queue t = user_queue s"
  using assms
  by (simp_all add: add_core_def can_add_def path_under_def parent_desc_def effective_parent_def can_post_def user_queue_def Let_def)

text \<open>
  A network actor of class \<open>k\<close> is made and added under the network's root: its identifier, pointer, path and
  facade, and what is left alone.
\<close>

definition net_added :: "actor_class \<Rightarrow> string \<Rightarrow> 'x net_ctx \<Rightarrow> 'x net_ctx \<Rightarrow> bool" where
  "net_added k nm s t \<longleftrightarrow>
     (let i = Id_t (next_actor_id s); nr = net_root (usr s); path = path_under nr nm s
      in ctx_inv t \<and> unlocked t \<and> stopping_begin t = stopping_begin s \<and> exchanges t = exchanges s \<and>
         abs_ctx t = spec_add i (next_obj s) path (aa_id nr) (abs_ctx s) \<and>
         self_ctx (objs t (next_obj s)) = Some \<lparr>uc_addr = address_of i path, uc_name = usercontext_name (cx_name s) i\<rparr> \<and>
         class_of (objs t (next_obj s)) = k \<and> usr t = usr s \<and>
         map_of (id_by_name t) path = Some i \<and> user_queue t = user_queue s @ [T_on_start (next_obj s)])"

lemma add_net_actor:
  assumes inv: "ctx_inv s" "unlocked s" and ca: "can_add (net_root (usr s)) nm s" "\<not> address_empty (net_root (usr s))"
    and t: "t = s\<lparr>objs := (objs s)(next_obj s := base_actor_new k), next_obj := Suc (next_obj s)\<rparr>"
  shows "\<exists>r u. add_actor_under base_vtable nm (net_root (usr s)) (next_obj s) t = (Inr r, u) \<and> net_added k nm s u"
proof -
  let ?nr = "net_root (usr s)"
  have core: "add_core s t" by (simp add: add_core_def t)
  have "ctx_inv t" using inv(1) by (simp add: t)
  moreover have ca': "can_add ?nr nm t" using ca(1) add_core_cong [OF core] by simp
  moreover obtain pd where "parent_desc ?nr t = Some pd" and "effective_parent ?nr t = ?nr"
    using ca add_core_cong [OF core] by (auto simp: can_add_def effective_parent_def)
  moreover obtain u where u: "add_actor_under base_vtable nm ?nr (next_obj s) t =
      (Inr (address_of (Id_t (next_actor_id t)) (path_under ?nr nm t)), u)"
    and u': "usr u = usr t" "objs u = (objs t)(next_obj s := linked
        (address_of (Id_t (next_actor_id t)) (path_under ?nr nm t))
        (usercontext_name (cx_name t) (Id_t (next_actor_id t))) (objs t (next_obj s)))"
      "id_by_name u = AList.update (path_under ?nr nm t) (Id_t (next_actor_id t)) (id_by_name t)"
    by (rule add_actor_under_plain [OF base_vtable_quiet base_plain \<open>ctx_inv t\<close> ca', of "next_obj s"])
  moreover obtain v where v: "add_actor_under base_vtable nm ?nr (next_obj s) t =
      (Inr (address_of (Id_t (next_actor_id t)) (path_under ?nr nm t)), v)"
    and v': "abs_ctx v = spec_add (Id_t (next_actor_id t)) (next_obj s) (path_under ?nr nm t)
      (if parent_desc ?nr t = None then id_default else aa_id (effective_parent ?nr t)) (abs_ctx t)"
      "ctx_inv v" "user_queue v = user_queue t @ [T_on_start (next_obj s)]" "cx_lock v = Unlocked"
      "cx_xlock v = cx_xlock t" "exchanges v = exchanges t" "stopping_begin v = stopping_begin t"
    by (rule add_actor_under_effect [OF base_vtable_quiet \<open>ctx_inv t\<close> ca', of "next_obj s"])
  moreover have "v = u" using u v by simp
  moreover have "abs_ctx t = abs_ctx s" by (rule abs_ctx_cong) (simp_all add: t)
  ultimately have "v = u" "abs_ctx u = spec_add (Id_t (next_actor_id s)) (next_obj s) (path_under ?nr nm s) (aa_id ?nr) (abs_ctx s)"
    using add_core_cong [OF core] by (simp_all add: t del: new_actor_app)
  then show ?thesis
    using u u' v' inv(2) add_core_cong [OF core]
    by (simp add: net_added_def Let_def t linked_def set_self_addr_def set_context_def base_actor_new_def)
qed

lemma ext_new_app: "f (net_ext (usr s)) = (h, x) \<Longrightarrow> ext_new f s = (Inr h, s\<lparr>usr := (usr s)\<lparr>net_ext := x\<rparr>\<rparr>)"
  by (simp add: ext_new_def)

lemma upd_net_app [simp]: "upd_net f s = (Inr (), s\<lparr>usr := f (usr s)\<rparr>)"
  by (simp add: upd_net_def)

lemma abs_ctx_usr [simp]: "abs_ctx (s\<lparr>usr := n\<rparr>) = abs_ctx s"
  by (rule abs_ctx_cong) simp_all

lemma add_core_usr [simp]:
  "can_add parent nm (s\<lparr>usr := n\<rparr>) = can_add parent nm s" "path_under parent nm (s\<lparr>usr := n\<rparr>) = path_under parent nm s"
  "user_queue (s\<lparr>usr := n\<rparr>) = user_queue s"
  using add_core_cong [of s "s\<lparr>usr := n\<rparr>"] by (simp_all add: add_core_def)

section \<open>Listeners\<close>

definition listen_name :: "16 word \<Rightarrow> string" where
  "listen_name port = ''listen_'' @ string_of_nat (unat port)"

lemma usr_objs_swap:
  "s\<lparr>usr := n, objs := f, next_obj := k\<rparr> = s\<lparr>objs := f, next_obj := k, usr := n\<rparr>" for s :: "'u ctx"
  by simp

lemma add_listener_run:
  assumes inv: "ctx_inv s" "unlocked s" and ca: "can_add (net_root (usr s)) (listen_name port) s"
    and nr: "\<not> address_empty (net_root (usr s))" and l: "dl_listener dl port (net_ext (usr s)) = (l, x)"
  shows "\<exists>u n. n = (usr s)\<lparr>net_ext := x, lst_port := (lst_port (usr s))(next_obj s := port)\<rparr> \<and>
    net_added Network_lst_actor (listen_name port) (s\<lparr>usr := n\<rparr>) u \<and>
    add_listener_on dl port s = (Inr (), u\<lparr>usr := n\<lparr>net_ext := dl_listener_wait dl l (dl_listener_start dl l
        (dl_listener_add_consumer dl l (next_obj s) x)),
      net_listeners := map_insert port l (net_listeners (usr s))\<rparr>\<rparr>)"
proof -
  let ?n = "(usr s)\<lparr>net_ext := x, lst_port := (lst_port (usr s))(next_obj s := port)\<rparr>"
  let ?t = "s\<lparr>usr := ?n, objs := (objs s)(next_obj s := base_actor_new Network_lst_actor), next_obj := Suc (next_obj s)\<rparr>"
  note usr_objs_swap [simp]
  obtain r u where u: "add_actor_under base_vtable (listen_name port) (net_root (usr s)) (next_obj s) ?t = (Inr r, u)"
    and n: "net_added Network_lst_actor (listen_name port) (s\<lparr>usr := ?n\<rparr>) u"
    using add_net_actor [of "s\<lparr>usr := ?n\<rparr>" "listen_name port" ?t Network_lst_actor] inv ca nr by auto
  then have "usr u = ?n" by (simp add: net_added_def Let_def)
  then have "add_listener_on dl port s = (Inr (), u\<lparr>usr := ?n\<lparr>net_ext := dl_listener_wait dl l (dl_listener_start dl l
        (dl_listener_add_consumer dl l (next_obj s) x)),
      net_listeners := map_insert port l (net_listeners (usr s))\<rparr>\<rparr>)"
    using u l by (simp add: add_listener_on_def ext_new_app listen_name_def)
  with n show ?thesis by blast
qed

lemma map_insert_new: "map_of m k = None \<Longrightarrow> map_of (map_insert k v m) = (map_of m)(k \<mapsto> v)"
  and map_insert_old: "map_of m k = Some w \<Longrightarrow> map_insert k v m = m"
  by (simp_all add: map_insert_def)

lemma base_on_stop_app: "base_on_stop p s = (Inr (), s\<lparr>objs := (objs s)(p := update_status STOPED (objs s p))\<rparr>)"
  by (simp add: base_on_stop_def)

lemma lst_on_stop_run:
  assumes "cx_xlock s = Unlocked" and "lst_port (usr s) p = port" and "map_of (net_listeners (usr s)) port = Some l"
  shows "lst_on_stop dl p s = (Inr (), s\<lparr>usr := (usr s)\<lparr>net_ext := dl_listener_stop dl l (net_ext (usr s)),
      net_listeners := AList.delete port (net_listeners (usr s))\<rparr>,
    objs := (objs s)(p := update_status STOPED (objs s p))\<rparr>)"
  using assms cx_xlock_idem [of s Unlocked]
  by (simp add: lst_on_stop_def erase_listener_on_def with_xexcl_def base_on_stop_app)

section \<open>Connections\<close>

lemma host_port_eq: "fst cp @ CHR '':'' # string_of_nat (unat (snd cp)) = host_port cp"
  by (simp add: host_port_def args_to_string_eq)

lemma with_exchange_core:
  "add_core s (with_exchange a nm s)" "usr (with_exchange a nm s) = usr s" "next_obj (with_exchange a nm s) = next_obj s"
  "objs (with_exchange a nm s) = objs s" "stopping_begin (with_exchange a nm s) = stopping_begin s"
  by (simp_all add: add_core_def with_exchange_def split: option.splits)

lemma abs_with_exchange:
  assumes "ctx_inv s"
  shows "abs_ctx (with_exchange a nm s) = abs_ctx s"
proof -
  have "mbox_at s i \<noteq> Some (next_mb s)" for i
    using inv_boxesD(2) [OF ctx_invD(4) [OF assms], of i "next_mb s"] by auto
  then have "inbox (abs_ctx (with_exchange a nm s)) i = inbox (abs_ctx s) i" for i
    by (cases "mbox_at s i") (auto simp: with_exchange_def split: option.splits)
  then show ?thesis by (intro spec_state.equality ext) simp_all
qed

lemma add_connection_run:
  assumes inv: "ctx_inv s" "unlocked s" and ca: "can_add (net_root (usr s)) (host_port cp) s"
    and nr: "\<not> address_empty (net_root (usr s))" and l: "dl_dial dl cp (net_ext (usr s)) = (l, x)"
  shows "\<exists>u n w. w = with_exchange (net_root (usr s)) (net_exchange (host_port cp)) s \<and>
    n = (usr s)\<lparr>net_ext := x, con_of := (con_of (usr s))(next_obj s :=
      \<lparr>con_handle = l, con_cp = cp, con_target_host = host_port cp\<rparr>)\<rparr> \<and>
    net_added Network_con_actor (host_port cp) (w\<lparr>usr := n\<rparr>) u \<and>
    add_connection_to dl cp s = (Inr (), u\<lparr>usr := n\<lparr>net_ext := dl_start_async dl l
        (dl_dial_add_consumer dl l (next_obj s) x),
      net_connections := map_insert cp l (net_connections (usr s))\<rparr>\<rparr>)"
proof -
  let ?w = "with_exchange (net_root (usr s)) (net_exchange (host_port cp)) s"
  let ?n = "(usr s)\<lparr>net_ext := x, con_of := (con_of (usr s))(next_obj s :=
      \<lparr>con_handle = l, con_cp = cp, con_target_host = host_port cp\<rparr>)\<rparr>"
  let ?t = "?w\<lparr>usr := ?n, objs := (objs s)(next_obj s := base_actor_new Network_con_actor), next_obj := Suc (next_obj s)\<rparr>"
  note usr_objs_swap [simp]
  have w: "ctx_inv ?w" "unlocked ?w" "can_add (net_root (usr s)) (host_port cp) ?w"
    using inv ca by (simp_all add: ctx_inv_with_exchange add_core_cong [OF with_exchange_core(1)])
  note ws = with_exchange_core [where s = s and a = "net_root (usr s)" and nm = "net_exchange (host_port cp)"]
  obtain r u where u: "add_actor_under base_vtable (host_port cp) (net_root (usr s)) (next_obj s) ?t = (Inr r, u)"
    and n: "net_added Network_con_actor (host_port cp) (?w\<lparr>usr := ?n\<rparr>) u"
    using add_net_actor [of "?w\<lparr>usr := ?n\<rparr>" "host_port cp" ?t Network_con_actor] w nr ws by auto
  then have "usr u = ?n" by (simp add: net_added_def Let_def)
  moreover have "ext_new (dl_dial dl cp) ?w = (Inr l, ?w\<lparr>usr := (usr s)\<lparr>net_ext := x\<rparr>\<rparr>)"
    using l by (simp add: ext_new_app ws)
  ultimately have "add_connection_to dl cp s = (Inr (), u\<lparr>usr := ?n\<lparr>net_ext := dl_start_async dl l
        (dl_dial_add_consumer dl l (next_obj s) x),
      net_connections := map_insert cp l (net_connections (usr s))\<rparr>\<rparr>)"
    using u inv(2) create_exchange_run [of s]
    by (simp add: add_connection_to_def Let_def ws host_port_eq)
  with n show ?thesis by blast
qed

lemma publish_run:
  assumes "cx_xlock s = Unlocked" and "sendable e" and "map_of (exchanges s) nm = Some x"
  shows "publish_to_exchange_rv nm e s = (Inr (), s\<lparr>mbs := (mbs s)(ex_pub x :=
    (mbs s (ex_pub x))\<lparr>dqueue := queue_at s (ex_pub x) @ [e]\<rparr>)\<rparr>)"
  using assms cx_xlock_idem [of s Unlocked] by (auto simp: publish_to_exchange_rv_def with_xshared_def)

text \<open>The status a connection actor publishes, under the name of its host, with itself as the sender.\<close>

lemma con_on_connect_run:
  assumes "cx_xlock s = Unlocked" and "self_ctx (objs s p) = Some uc"
    and "map_of (exchanges s) (net_exchange (con_target_host (con_of (usr s) p))) = Some x"
  shows "con_on_connect True p s = (Inr (), s\<lparr>mbs := (mbs s)(ex_pub x := (mbs s (ex_pub x))\<lparr>dqueue :=
    queue_at s (ex_pub x) @ [\<lparr>payload = payload_of (V_connection_status
      \<lparr>csm_host = con_target_host (con_of (usr s) p), csm_errormsg = [], csm_is_connected = True\<rparr>),
      sender = uc_addr uc\<rparr>]\<rparr>)\<rparr>)"
  using assms
  by (simp add: con_on_connect_def send_status_success_def send_status_def get_context_def uc_publish_def
      uc_publish_to_exchange_def uc_if_alive_def stamped_eq payload_copy_def sendable_def payload_empty_def
      payload_of_def publish_run)

section \<open>Properties\<close>

text \<open>
  C32: opening a connection: the context creates the exchange for the status of the host unless it exists, owned by the
  network's root, asks the network library to dial, registers a connection actor under the network's root,
  makes it the consumer and starts the connection; the invariant holds. When the library reports the
  connection, the actor publishes to that exchange that the host is connected, as itself.
\<close>

theorem connection_setup:
  assumes "ctx_inv s" and "unlocked s" and "can_add (net_root (usr s)) (host_port cp) s"
    and "\<not> address_empty (net_root (usr s))" and "dl_dial dl cp (net_ext (usr s)) = (h, x)"
  shows "\<exists>s' s'' ex. add_connection_to dl cp s = (Inr (), s') \<and> ctx_inv s' \<and>
    abs_ctx s' = spec_add (Id_t (next_actor_id s)) (next_obj s) (path_under (net_root (usr s)) (host_port cp) s)
      (aa_id (net_root (usr s))) (abs_ctx s) \<and>
    net_ext (usr s') = dl_start_async dl h (dl_dial_add_consumer dl h (next_obj s) x) \<and>
    map_of (exchanges s') (net_exchange (host_port cp)) = Some ex \<and>
    (map_of (exchanges s) (net_exchange (host_port cp)) = None \<longrightarrow> ex_owner ex = net_root (usr s)) \<and>
    con_on_connect True (next_obj s) s' = (Inr (), s'') \<and>
    queue_at s'' (ex_pub ex) = queue_at s' (ex_pub ex) @ [\<lparr>payload = payload_of (V_connection_status
      \<lparr>csm_host = host_port cp, csm_errormsg = [], csm_is_connected = True\<rparr>),
      sender = address_of (Id_t (next_actor_id s)) (path_under (net_root (usr s)) (host_port cp) s)\<rparr>]"
proof -
  let ?nr = "net_root (usr s)" and ?xn = "net_exchange (host_port cp)"
  from add_connection_run [OF assms] obtain u n w where
    w: "w = with_exchange ?nr ?xn s"
    and n: "n = (usr s)\<lparr>net_ext := x, con_of := (con_of (usr s))(next_obj s :=
      \<lparr>con_handle = h, con_cp = cp, con_target_host = host_port cp\<rparr>)\<rparr>"
    and u: "net_added Network_con_actor (host_port cp) (w\<lparr>usr := n\<rparr>) u"
    and run: "add_connection_to dl cp s = (Inr (), u\<lparr>usr := n\<lparr>net_ext := dl_start_async dl h
        (dl_dial_add_consumer dl h (next_obj s) x), net_connections := map_insert cp h (net_connections (usr s))\<rparr>\<rparr>)"
    by blast
  define s' where "s' = u\<lparr>usr := n\<lparr>net_ext := dl_start_async dl h
    (dl_dial_add_consumer dl h (next_obj s) x), net_connections := map_insert cp h (net_connections (usr s))\<rparr>\<rparr>"
  note ws = with_exchange_core [where s = s and a = ?nr and nm = ?xn, folded w]
  have uw: "ctx_inv u" "unlocked u" "exchanges u = exchanges w"
    "abs_ctx u = spec_add (Id_t (next_actor_id s)) (next_obj s) (path_under ?nr (host_port cp) s) (aa_id ?nr) (abs_ctx w)"
    "self_ctx (objs u (next_obj s)) = Some \<lparr>uc_addr = address_of (Id_t (next_actor_id s)) (path_under ?nr (host_port cp) s),
      uc_name = usercontext_name (cx_name s) (Id_t (next_actor_id s))\<rparr>"
    using u ws add_core_cong [OF ws(1)] by (simp_all add: net_added_def Let_def n add_core_def)
  obtain ex where ex: "map_of (exchanges w) ?xn = Some ex" "map_of (exchanges s) ?xn = None \<Longrightarrow> ex_owner ex = ?nr"
    by (cases "map_of (exchanges s) ?xn") (auto simp: w with_exchange_def)
  have "con_on_connect True (next_obj s) s' = (Inr (), s'\<lparr>mbs := (mbs s')(ex_pub ex := (mbs s' (ex_pub ex))\<lparr>dqueue :=
      queue_at s' (ex_pub ex) @ [\<lparr>payload = payload_of (V_connection_status
        \<lparr>csm_host = host_port cp, csm_errormsg = [], csm_is_connected = True\<rparr>),
        sender = address_of (Id_t (next_actor_id s)) (path_under ?nr (host_port cp) s)\<rparr>]\<rparr>)\<rparr>)"
    using con_on_connect_run [of s' "next_obj s"] uw ex(1) by (simp add: s'_def n)
  then show ?thesis
    using run uw ex abs_with_exchange [OF assms(1)]
    by (intro exI [of _ s'] exI [of _ ex] exI) (auto simp: s'_def w)
qed

lemma demo_net_setup:
  "ctx_inv demo_net" "unlocked demo_net" "\<not> address_empty (net_root (usr demo_net))"
  "can_add (net_root (usr demo_net)) (host_port (''h'', 80)) demo_net"
  "can_add (net_root (usr demo_net)) (listen_name 80) demo_net"
proof -
  show "ctx_inv demo_net" using demo_net_receiving by (simp add: receiving_def)
  show "unlocked demo_net" "\<not> address_empty (net_root (usr demo_net))"
    "can_add (net_root (usr demo_net)) (host_port (''h'', 80)) demo_net"
    "can_add (net_root (usr demo_net)) (listen_name 80) demo_net" by code_simp+
qed

theorem connection_setup_witness:
  "\<exists>s' s'' ex. add_connection_to demo_lib (''h'', 80) demo_net = (Inr (), s') \<and>
    map_of (exchanges s') ''/root/net/h:80'' = Some ex \<and> ex_owner ex = address_of (Id_t 1) ''/a'' \<and>
    con_on_connect True 2 s' = (Inr (), s'') \<and> queue_at s'' (ex_pub ex) \<noteq> []"
proof -
  have e: "net_exchange (host_port (''h'', 80)) = ''/root/net/h:80''" "next_obj demo_net = 2" "exchanges demo_net = []"
    "net_root (usr demo_net) = address_of (Id_t 1) ''/a''" by code_simp+
  have "dl_dial demo_lib (''h'', 80) (net_ext (usr demo_net)) = (0, net_ext (usr demo_net))" by (simp add: demo_lib_def)
  from connection_setup [OF demo_net_setup(1,2,4,3) this] show ?thesis unfolding e by fastforce
qed

text \<open>
  C33: a listener: the context asks the network library for a listener on the port, registers a listener actor
  under the network's root, makes it the consumer, starts the listener and waits for it; the invariant holds.
  Stopping the actor stops that listener and forgets the port. If the port already had a listener, the new
  one is not entered, and stopping the new actor stops the old listener instead: the new one runs on.
\<close>

theorem listener_lifecycle:
  assumes "ctx_inv s" and "unlocked s" and "can_add (net_root (usr s)) (listen_name port) s"
    and "\<not> address_empty (net_root (usr s))" and "dl_listener dl port (net_ext (usr s)) = (l, x)"
  shows "\<exists>s' s''. add_listener_on dl port s = (Inr (), s') \<and> ctx_inv s' \<and>
    abs_ctx s' = spec_add (Id_t (next_actor_id s)) (next_obj s) (path_under (net_root (usr s)) (listen_name port) s)
      (aa_id (net_root (usr s))) (abs_ctx s) \<and>
    net_ext (usr s') = dl_listener_wait dl l (dl_listener_start dl l (dl_listener_add_consumer dl l (next_obj s) x)) \<and>
    lst_on_stop dl (next_obj s) s' = (Inr (), s'') \<and> ctx_inv s'' \<and> map_of (net_listeners (usr s'')) port = None \<and>
    net_ext (usr s'') = dl_listener_stop dl (case map_of (net_listeners (usr s)) port of None \<Rightarrow> l | Some old \<Rightarrow> old)
      (net_ext (usr s'))"
proof -
  from add_listener_run [OF assms] obtain u n where
    n: "n = (usr s)\<lparr>net_ext := x, lst_port := (lst_port (usr s))(next_obj s := port)\<rparr>"
    and u: "net_added Network_lst_actor (listen_name port) (s\<lparr>usr := n\<rparr>) u"
    and run: "add_listener_on dl port s = (Inr (), u\<lparr>usr := n\<lparr>net_ext := dl_listener_wait dl l (dl_listener_start dl l
        (dl_listener_add_consumer dl l (next_obj s) x)), net_listeners := map_insert port l (net_listeners (usr s))\<rparr>\<rparr>)"
    by blast
  define s' where "s' = u\<lparr>usr := n\<lparr>net_ext := dl_listener_wait dl l (dl_listener_start dl l
      (dl_listener_add_consumer dl l (next_obj s) x)), net_listeners := map_insert port l (net_listeners (usr s))\<rparr>\<rparr>"
  let ?old = "case map_of (net_listeners (usr s)) port of None \<Rightarrow> l | Some old \<Rightarrow> old"
  have uw: "ctx_inv u" "unlocked u"
    "abs_ctx u = spec_add (Id_t (next_actor_id s)) (next_obj s) (path_under (net_root (usr s)) (listen_name port) s)
      (aa_id (net_root (usr s))) (abs_ctx s)"
    using u by (simp_all add: net_added_def Let_def n)
  have "map_of (net_listeners (usr s')) port = Some ?old" "lst_port (usr s') (next_obj s) = port" "cx_xlock s' = Unlocked"
    using uw by (auto simp: s'_def n map_insert_def split: option.splits)
  from lst_on_stop_run [OF this(3,2,1), of dl] obtain s'' where
    stop: "lst_on_stop dl (next_obj s) s' = (Inr (), s'')"
    and s'': "s'' = s'\<lparr>usr := (usr s')\<lparr>net_ext := dl_listener_stop dl ?old (net_ext (usr s')),
        net_listeners := AList.delete port (net_listeners (usr s'))\<rparr>,
      objs := (objs s')(next_obj s := update_status STOPED (objs s' (next_obj s)))\<rparr>" by blast
  have "ctx_inv s'" using uw by (simp add: s'_def)
  then have "ctx_inv s''" "map_of (net_listeners (usr s'')) port = None"
    "net_ext (usr s'') = dl_listener_stop dl ?old (net_ext (usr s'))" by (simp_all add: s'')
  with run stop uw show ?thesis by (intro exI [of _ s'] exI [of _ s'']) (simp add: s'_def)
qed

theorem listener_lifecycle_witness:
  "\<exists>s' s''. add_listener_on demo_lib 80 demo_net = (Inr (), s') \<and> lst_on_stop demo_lib 2 s' = (Inr (), s'') \<and>
    map_of (net_listeners (usr s'')) 80 = None"
proof -
  have "next_obj demo_net = 2" by code_simp
  moreover have "dl_listener demo_lib 80 (net_ext (usr demo_net)) = (0, net_ext (usr demo_net))" by (simp add: demo_lib_def)
  ultimately show ?thesis using listener_lifecycle [OF demo_net_setup(1,2,5,3)] by metis
qed

end
