(* ===== verification/Yaaf_Logger.thy ===== *)
theory Yaaf_Logger
  imports Yaaf_Utils
begin

text \<open>
  The spin lock of \<^verbatim>\<open>utils/async/locker.h\<close> and the logger of \<^verbatim>\<open>utils/logger\<close> that it guards. The lock is a step
  relation over any number of threads with an invariant; the logger is a global state with the text
  that went to the two output streams; the exceptions of \<^verbatim>\<open>utils/exception.h\<close> log themselves through it.
\<close>

section \<open>The spin lock\<close>

definition LOCKER_MAX_TRY :: nat where
  "LOCKER_MAX_TRY = 10"

text \<open>
  Where a thread is: outside, in the loop of \<^verbatim>\<open>try_lock\<close> at a given \<^verbatim>\<open>num_try\<close>, or holding the lock. The second
  component of \<open>Trying\<close> tells whether \<^verbatim>\<open>lock\<close> called, which yields and starts over, or \<^verbatim>\<open>try_lock\<close> was called
  by itself, which gives up.
\<close>

datatype spin_pc = Outside | Trying nat bool | Holding

record locker =
  locked :: bool
  pcs :: "spin_pc list"

definition set_pc :: "nat \<Rightarrow> spin_pc \<Rightarrow> locker \<Rightarrow> locker" where
  "set_pc i c l = l\<lparr>pcs := (pcs l)[i := c]\<rparr>"

text \<open>\<^verbatim>\<open>atomic_flag::test_and_set\<close>: the old value, and the flag set.\<close>

definition test_and_set :: "locker \<Rightarrow> bool \<times> locker" where
  "test_and_set l = (locked l, l\<lparr>locked := True\<rparr>)"

definition flag_clear :: "locker \<Rightarrow> locker" where
  "flag_clear l = l\<lparr>locked := False\<rparr>"

inductive spin_step :: "locker \<Rightarrow> locker \<Rightarrow> bool" where
  call: "i < length (pcs l) \<Longrightarrow> pcs l ! i = Outside \<Longrightarrow> spin_step l (set_pc i (Trying 0 blocking) l)"
| got: "i < length (pcs l) \<Longrightarrow> pcs l ! i = Trying n blocking \<Longrightarrow> n < LOCKER_MAX_TRY \<Longrightarrow>
    test_and_set l = (False, l') \<Longrightarrow> spin_step l (set_pc i Holding l')"
| missed: "i < length (pcs l) \<Longrightarrow> pcs l ! i = Trying n blocking \<Longrightarrow> n < LOCKER_MAX_TRY \<Longrightarrow>
    test_and_set l = (True, l') \<Longrightarrow> spin_step l (set_pc i (Trying (n + 1) blocking) l')"
| give_up: "i < length (pcs l) \<Longrightarrow> pcs l ! i = Trying LOCKER_MAX_TRY False \<Longrightarrow> spin_step l (set_pc i Outside l)"
| yield: "i < length (pcs l) \<Longrightarrow> pcs l ! i = Trying LOCKER_MAX_TRY True \<Longrightarrow> spin_step l (set_pc i (Trying 0 True) l)"
| unlock: "i < length (pcs l) \<Longrightarrow> pcs l ! i = Holding \<Longrightarrow> spin_step l (set_pc i Outside (flag_clear l))"

inductive_cases spin_stepE: "spin_step l l'"

abbreviation spin_run :: "locker \<Rightarrow> locker \<Rightarrow> bool" where
  "spin_run \<equiv> rtranclp spin_step"

text \<open>A new lock, seen by \<open>n\<close> threads.\<close>

definition locker_new :: "nat \<Rightarrow> locker" where
  "locker_new n = \<lparr>locked = False, pcs = replicate n Outside\<rparr>"

definition holders :: "locker \<Rightarrow> nat" where
  "holders l = count_list (pcs l) Holding"

definition spin_inv :: "locker \<Rightarrow> bool" where
  "spin_inv l \<longleftrightarrow> holders l = (if locked l then 1 else 0) \<and>
     list_all (\<lambda>c. case c of Trying n _ \<Rightarrow> n \<le> LOCKER_MAX_TRY | _ \<Rightarrow> True) (pcs l)"

lemma count_list_update:
  "i < length xs \<Longrightarrow> count_list (xs[i := y]) x + (if xs ! i = x then 1 else 0) = count_list xs x + (if y = x then 1 else 0)"
proof (induction xs arbitrary: i)
  case (Cons a xs)
  show ?case
  proof (cases i)
    case (Suc j)
    with Cons.prems have "j < length xs" by simp
    from Cons.IH [OF this] Suc show ?thesis by (auto split: if_splits)
  qed simp
qed simp

lemma holders_set_pc:
  "i < length (pcs l) \<Longrightarrow> holders (set_pc i c l) + (if pcs l ! i = Holding then 1 else 0) =
     holders l + (if c = Holding then 1 else 0)"
  using count_list_update [of i "pcs l" c Holding] by (simp add: holders_def set_pc_def)

lemma locked_set_pc [simp]: "locked (set_pc i c l) = locked l" "pcs (l\<lparr>locked := b\<rparr>) = pcs l" "holders (l\<lparr>locked := b\<rparr>) = holders l"
  by (simp_all add: set_pc_def holders_def)

lemma list_all_set_pc:
  "list_all P (pcs l) \<Longrightarrow> P c \<Longrightarrow> list_all P (pcs (set_pc i c l))"
  using set_update_subset_insert [of "pcs l" i c] by (auto simp: list_all_iff set_pc_def)

lemma spin_step_inv: "spin_step l l' \<Longrightarrow> spin_inv l \<Longrightarrow> spin_inv l'"
proof (induction rule: spin_step.induct)
  case (got i l n blocking l')
  then show ?case
    using holders_set_pc [of i "l\<lparr>locked := True\<rparr>" Holding]
    by (auto simp: spin_inv_def test_and_set_def intro!: list_all_set_pc)
next
  case (missed i l n blocking l')
  then show ?case
    using holders_set_pc [of i "l\<lparr>locked := True\<rparr>" "Trying (n + 1) blocking"]
    by (auto simp: spin_inv_def test_and_set_def intro!: list_all_set_pc)
next
  case (unlock i l)
  then show ?case
    using holders_set_pc [of i "l\<lparr>locked := False\<rparr>" Outside]
    by (auto simp: spin_inv_def flag_clear_def intro!: list_all_set_pc split: if_splits)
next
  case (call i l blocking)
  then show ?case using holders_set_pc [of i l "Trying 0 blocking"] by (auto simp: spin_inv_def intro!: list_all_set_pc)
next
  case (give_up i l)
  then show ?case using holders_set_pc [of i l Outside] by (auto simp: spin_inv_def intro!: list_all_set_pc)
next
  case (yield i l)
  then show ?case using holders_set_pc [of i l "Trying 0 True"] by (auto simp: spin_inv_def intro!: list_all_set_pc)
qed

lemma spin_run_inv: "spin_run l l' \<Longrightarrow> spin_inv l \<Longrightarrow> spin_inv l'"
  by (induction rule: rtranclp_induct) (auto intro: spin_step_inv)

lemma locker_new_inv: "spin_inv (locker_new n)"
  by (simp add: spin_inv_def locker_new_def holders_def list_all_iff count_list_0_iff)

lemma two_holders:
  assumes "holders l \<le> 1" and "i < length (pcs l)" "j < length (pcs l)" "pcs l ! i = Holding" "pcs l ! j = Holding"
  shows "i = j"
proof (rule ccontr)
  assume "i \<noteq> j"
  then have "pcs (set_pc i Outside l) ! j = Holding" "j < length (pcs (set_pc i Outside l))"
    using assms by (simp_all add: set_pc_def)
  then have "holders (set_pc i Outside l) \<noteq> 0"
    by (auto simp: holders_def count_list_0_iff in_set_conv_nth)
  with holders_set_pc [of i l Outside] assms show False by simp
qed

section \<open>The logger\<close>

datatype message_kind = LK_message | LK_info | LK_warn | LK_fatal

datatype verbose = Vb_verbose | Vb_debug | Vb_quiet

text \<open>The two loggers of the library, and one of a class of the user's own, which is handed the messages.\<close>

datatype abstract_logger = Console_logger | Quiet_logger | User_logger

text \<open>
  The static members of \<^verbatim>\<open>logger_manager\<close> and the streams. The instance owns a pointer to its logger, which
  may be null.
\<close>

record log_state =
  lg_instance :: "abstract_logger option option"
  lg_verbose :: verbose
  lg_cout :: string
  lg_cerr :: string
  lg_user :: "(message_kind \<times> string) list"

definition log_initial :: log_state where
  "log_initial = \<lparr>lg_instance = None, lg_verbose = Vb_debug, lg_cout = [], lg_cerr = [], lg_user = []\<rparr>"

definition manager_start :: "abstract_logger option \<Rightarrow> log_state \<Rightarrow> log_state" where
  "manager_start l s = (if lg_instance s = None then s\<lparr>lg_instance := Some l\<rparr> else s)"

definition manager_stop :: "log_state \<Rightarrow> log_state" where
  "manager_stop s = s\<lparr>lg_instance := None\<rparr>"

text \<open>The second test, under the lock, sees what another thread may have stored since the first.\<close>

definition manager_instance :: "log_state \<Rightarrow> abstract_logger option \<times> log_state" where
  "manager_instance s = (case lg_instance s of
       Some l \<Rightarrow> (l, s)
     | None \<Rightarrow> (Some Console_logger, s\<lparr>lg_instance := Some (Some Console_logger)\<rparr>))"

definition endl :: string where
  "endl = [CHR 10]"

fun console_message :: "message_kind \<Rightarrow> string \<Rightarrow> log_state \<Rightarrow> log_state" where
  "console_message kind msg s =
     (if lg_verbose s = Vb_quiet then s
      else (case kind of
          LK_fatal \<Rightarrow> s\<lparr>lg_cerr := lg_cerr s @ ''[err] '' @ msg @ endl\<rparr>
        | LK_warn \<Rightarrow> s\<lparr>lg_cout := lg_cout s @ ''[wrn] '' @ msg @ endl\<rparr>
        | LK_info \<Rightarrow> s\<lparr>lg_cout := lg_cout s @ ''[inf] '' @ msg @ endl\<rparr>
        | LK_message \<Rightarrow>
            if lg_verbose s = Vb_debug then s\<lparr>lg_cout := lg_cout s @ ''[dbg] '' @ msg @ endl\<rparr> else s))"

definition quiet_message :: "message_kind \<Rightarrow> string \<Rightarrow> log_state \<Rightarrow> log_state" where
  "quiet_message kind msg s = s"

definition manager_message :: "abstract_logger option \<Rightarrow> message_kind \<Rightarrow> string \<Rightarrow> log_state \<Rightarrow> fault + log_state" where
  "manager_message l kind msg s = (case l of
       None \<Rightarrow> Inl NullDeref
     | Some Console_logger \<Rightarrow> Inr (console_message kind msg s)
     | Some Quiet_logger \<Rightarrow> Inr (quiet_message kind msg s)
     | Some User_logger \<Rightarrow> Inr (s\<lparr>lg_user := lg_user s @ [(kind, msg)]\<rparr>))"

definition variadic_message ::
    "abstract_logger option \<Rightarrow> message_kind \<Rightarrow> str_arg list \<Rightarrow> log_state \<Rightarrow> fault + log_state" where
  "variadic_message l kind args s = (let str_message = args_to_string args in manager_message l kind str_message s)"

text \<open>The four free functions, by the kind they pass.\<close>

definition log_kind :: "message_kind \<Rightarrow> str_arg list \<Rightarrow> log_state \<Rightarrow> fault + log_state" where
  "log_kind kind args s = (let (l, s') = manager_instance s in variadic_message l kind args s')"

definition logger :: "str_arg list \<Rightarrow> log_state \<Rightarrow> fault + log_state" where
  "logger args = log_kind LK_message args"

definition logger_info :: "str_arg list \<Rightarrow> log_state \<Rightarrow> fault + log_state" where
  "logger_info args = log_kind LK_info args"

definition logger_warn :: "str_arg list \<Rightarrow> log_state \<Rightarrow> fault + log_state" where
  "logger_warn args = log_kind LK_warn args"

definition logger_fatal :: "str_arg list \<Rightarrow> log_state \<Rightarrow> fault + log_state" where
  "logger_fatal args = log_kind LK_fatal args"

text \<open>A sequence of calls.\<close>

fun log_all :: "(message_kind \<times> str_arg list) list \<Rightarrow> log_state \<Rightarrow> fault + log_state" where
  "log_all [] s = Inr s"
| "log_all ((k, args) # ms) s = bindR (log_kind k args s) (log_all ms)"

text \<open>What a message puts on standard output and on the error stream.\<close>

fun tag :: "message_kind \<Rightarrow> string" where
  "tag LK_message = ''[dbg] ''" | "tag LK_info = ''[inf] ''" | "tag LK_warn = ''[wrn] ''" | "tag LK_fatal = ''[err] ''"

definition shown :: "verbose \<Rightarrow> message_kind \<Rightarrow> bool" where
  "shown v k \<longleftrightarrow> v = Vb_debug \<or> v = Vb_verbose \<and> k \<noteq> LK_message"

definition line :: "verbose \<Rightarrow> message_kind \<times> str_arg list \<Rightarrow> string" where
  "line v m = (if shown v (fst m) then tag (fst m) @ concat (map inner_to_string (snd m)) @ endl else [])"

abbreviation uses_console :: "log_state \<Rightarrow> bool" where
  "uses_console s \<equiv> lg_instance s = None \<or> lg_instance s = Some (Some Console_logger)"

lemma log_kind_console:
  assumes "uses_console s"
  shows "log_kind k args s = Inr (s\<lparr>lg_instance := Some (Some Console_logger),
    lg_cout := lg_cout s @ (if k = LK_fatal then [] else line (lg_verbose s) (k, args)),
    lg_cerr := lg_cerr s @ (if k = LK_fatal then line (lg_verbose s) (k, args) else [])\<rparr>)"
  using assms
  by (cases k; cases "lg_verbose s")
    (auto simp: log_kind_def manager_instance_def variadic_message_def manager_message_def line_def shown_def
      args_to_string_eq)

lemma log_all_console:
  "uses_console s \<Longrightarrow> ms \<noteq> [] \<Longrightarrow> log_all ms s = Inr (s\<lparr>lg_instance := Some (Some Console_logger),
    lg_cout := lg_cout s @ concat (map (line (lg_verbose s)) (filter (\<lambda>m. fst m \<noteq> LK_fatal) ms)),
    lg_cerr := lg_cerr s @ concat (map (line (lg_verbose s)) (filter (\<lambda>m. fst m = LK_fatal) ms))\<rparr>)"
proof (induction ms arbitrary: s)
  case (Cons m ms)
  obtain k args where m: "m = (k, args)" by (cases m)
  show ?case
    using Cons.IH Cons.prems(1) log_kind_console [OF Cons.prems(1)] by (cases "ms = []") (auto simp: m)
qed simp

section \<open>Exceptions\<close>

text \<open>
  \<^verbatim>\<open>exception::create_and_log\<close> of \<^verbatim>\<open>utils/exception.h\<close>. On \<^verbatim>\<open>UNIX_OS\<close> it asks the C library for the addresses of the
  call stack, at most as many as the buffer holds, and for an array of their names, which may be missing;
  on other platforms there is no such library.
\<close>

definition BT_BUF_SIZE :: nat where
  "BT_BUF_SIZE = 512"

record trace_lib =
  backtrace :: "nat \<Rightarrow> nat"
  backtrace_symbols :: "nat \<Rightarrow> string list option"

text \<open>The loop over the names, from \<open>j\<close> up to \<open>nptrs\<close>; past the end of the array there is nothing to read.\<close>

function trace_loop :: "string list \<Rightarrow> nat \<Rightarrow> nat \<Rightarrow> string \<Rightarrow> fault + string" where
  "trace_loop strings nptrs j sstr =
     (if j < nptrs then
        (if j < length strings then trace_loop strings nptrs (j + 1) (sstr @ strings ! j @ endl) else Inl OutOfBounds)
      else Inr sstr)"
  by auto
termination by (relation "measure (\<lambda>(_, n, j, _). n - j)") auto

declare trace_loop.simps [simp del]

definition with_backtrace :: "trace_lib \<Rightarrow> string \<Rightarrow> fault + string" where
  "with_backtrace lib str_message =
     (let nptrs = backtrace lib BT_BUF_SIZE;
          sstr = str_message @ endl @ ''backtrace() returned '' @ string_of_nat nptrs @ '' addresses'' @ endl
      in case backtrace_symbols lib nptrs of
           None \<Rightarrow> Inr (sstr @ ''backtrace_symbols'' @ endl)
         | Some strings \<Rightarrow> trace_loop strings nptrs 0 (sstr @ ''trace:'' @ endl))"

text \<open>The exception keeps the message alone, without the position and the trace.\<close>

definition create_and_log ::
    "trace_lib option \<Rightarrow> codepos \<Rightarrow> str_arg list \<Rightarrow> log_state \<Rightarrow> fault + string \<times> log_state" where
  "create_and_log os pos message s =
     (let expanded_message = args_to_string message;
          str_message = ''FATAL ERROR. The Exception will be thrown! '' @ codepos_toString pos @
            '' Message: '' @ expanded_message
      in bindR (case os of None \<Rightarrow> Inr str_message | Some lib \<Rightarrow> with_backtrace lib str_message)
        (\<lambda>str_message. bindR (logger_fatal [A_string str_message] s) (\<lambda>s. Inr (expanded_message, s))))"

definition exception_what :: "string \<Rightarrow> string" where
  "exception_what msg = takeWhile (\<lambda>c. c \<noteq> CHR 0x00) msg"

text \<open>\<^verbatim>\<open>THROW_EXCEPTION\<close> at a position: the throw, and the log it leaves.\<close>

definition throw_exception :: "trace_lib option \<Rightarrow> codepos \<Rightarrow> str_arg list \<Rightarrow> log_state \<Rightarrow> fault \<times> log_state" where
  "throw_exception os pos message s = (case create_and_log os pos message s of
       Inl e \<Rightarrow> (e, s)
     | Inr (msg, s') \<Rightarrow> (Throw msg, s'))"

definition NOT_IMPLEMENTED :: "trace_lib option \<Rightarrow> codepos \<Rightarrow> log_state \<Rightarrow> fault \<times> log_state" where
  "NOT_IMPLEMENTED os pos = throw_exception os pos [A_cstr ''Not implemented'']"

lemma trace_loop_all: "j \<le> length strings \<Longrightarrow>
  trace_loop strings (length strings) j sstr = Inr (sstr @ concat (map (\<lambda>t. t @ endl) (drop j strings)))"
proof (induction "length strings - j" arbitrary: j sstr)
  case 0
  then show ?case by (subst trace_loop.simps) simp
next
  case (Suc n)
  then have j: "j < length strings" by simp
  have "trace_loop strings (length strings) (j + 1) (sstr @ strings ! j @ endl) =
    Inr ((sstr @ strings ! j @ endl) @ concat (map (\<lambda>t. t @ endl) (drop (j + 1) strings)))"
    using Suc.hyps(2) j by (intro Suc.hyps(1)) simp_all
  with j show ?case by (subst trace_loop.simps) (simp add: Cons_nth_drop_Suc [symmetric])
qed

text \<open>What the library documents: as many names as there are addresses, if there is an array at all.\<close>

definition symbols_match :: "trace_lib option \<Rightarrow> bool" where
  "symbols_match os = (case os of None \<Rightarrow> True
     | Some lib \<Rightarrow> (case backtrace_symbols lib (backtrace lib BT_BUF_SIZE) of
           None \<Rightarrow> True
         | Some strings \<Rightarrow> length strings = backtrace lib BT_BUF_SIZE))"

text \<open>The lines a trace adds to the log.\<close>

definition trace_text :: "trace_lib option \<Rightarrow> string" where
  "trace_text os = (case os of None \<Rightarrow> []
     | Some lib \<Rightarrow> endl @ ''backtrace() returned '' @ string_of_nat (backtrace lib BT_BUF_SIZE) @ '' addresses'' @ endl @
         (case backtrace_symbols lib (backtrace lib BT_BUF_SIZE) of
           None \<Rightarrow> ''backtrace_symbols'' @ endl
         | Some strings \<Rightarrow> ''trace:'' @ endl @ concat (map (\<lambda>t. t @ endl) strings)))"

lemma trace_loop_full:
  "length strings = nptrs \<Longrightarrow> trace_loop strings nptrs 0 sstr = Inr (sstr @ concat (map (\<lambda>t. t @ endl) strings))"
  using trace_loop_all [of 0 strings sstr] by simp

lemma with_backtrace_text: "symbols_match (Some lib) \<Longrightarrow> with_backtrace lib msg = Inr (msg @ trace_text (Some lib))"
  by (auto simp: with_backtrace_def trace_loop_full trace_text_def symbols_match_def Let_def split: option.splits)

lemma create_and_log_console:
  assumes "uses_console s" and "symbols_match os"
  shows "create_and_log os pos message s = Inr (concat (map inner_to_string message),
    s\<lparr>lg_instance := Some (Some Console_logger),
      lg_cerr := lg_cerr s @ line (lg_verbose s) (LK_fatal, [A_string
        (''FATAL ERROR. The Exception will be thrown! '' @ codepos_toString pos @ '' Message: '' @
          concat (map inner_to_string message) @ trace_text os)])\<rparr>)"
proof (cases os)
  case None
  then show ?thesis
    by (simp add: create_and_log_def logger_fatal_def log_kind_console [OF assms(1)] args_to_string_eq trace_text_def Let_def)
next
  case (Some lib)
  with assms(2) show ?thesis
    by (simp add: create_and_log_def logger_fatal_def log_kind_console [OF assms(1)] args_to_string_eq with_backtrace_text Let_def)
qed

section \<open>Properties\<close>

text \<open>
  C27: the spin lock excludes: in every run of a new lock with any number of threads, at most one thread
  holds it, and the flag is set exactly while one does; a call of \<^verbatim>\<open>try_lock\<close> tests the flag
  at most \<^verbatim>\<open>LOCKER_MAX_TRY\<close> times.
\<close>

theorem locker_excludes:
  assumes "spin_run (locker_new n) l"
  shows "(i < length (pcs l) \<and> j < length (pcs l) \<and> pcs l ! i = Holding \<and> pcs l ! j = Holding \<longrightarrow> i = j) \<and>
    (locked l \<longleftrightarrow> Holding \<in> set (pcs l)) \<and>
    (Trying k b \<in> set (pcs l) \<longrightarrow> k \<le> LOCKER_MAX_TRY)"
proof -
  have inv: "spin_inv l" by (rule spin_run_inv [OF assms locker_new_inv])
  then have "holders l = 0 \<longleftrightarrow> \<not> locked l" "holders l \<le> 1" by (auto simp: spin_inv_def)
  then show ?thesis
    using two_holders [of l i j] inv by (auto simp: spin_inv_def holders_def count_list_0_iff list_all_iff)
qed

theorem locker_excludes_witness:
  "spin_run (locker_new 2) \<lparr>locked = True, pcs = [Holding, Trying 1 True]\<rparr> \<and>
   Holding \<in> set (pcs \<lparr>locked = True, pcs = [Holding, Trying 1 True]\<rparr>)"
proof -
  have s: "spin_step (locker_new 2) \<lparr>locked = False, pcs = [Trying 0 False, Outside]\<rparr>"
    "spin_step \<lparr>locked = False, pcs = [Trying 0 False, Outside]\<rparr> \<lparr>locked = False, pcs = [Trying 0 False, Trying 0 True]\<rparr>"
    using spin_step.call [of 0 "locker_new 2" False]
      spin_step.call [of 1 "\<lparr>locked = False, pcs = [Trying 0 False, Outside]\<rparr>" True]
    by (simp_all add: locker_new_def set_pc_def numeral_2_eq_2)
  have t: "spin_step \<lparr>locked = False, pcs = [Trying 0 False, Trying 0 True]\<rparr> \<lparr>locked = True, pcs = [Holding, Trying 0 True]\<rparr>"
    "spin_step \<lparr>locked = True, pcs = [Holding, Trying 0 True]\<rparr> \<lparr>locked = True, pcs = [Holding, Trying 1 True]\<rparr>"
    using spin_step.got [of 0 "\<lparr>locked = False, pcs = [Trying 0 False, Trying 0 True]\<rparr>" 0 False]
      spin_step.missed [of 1 "\<lparr>locked = True, pcs = [Holding, Trying 0 True]\<rparr>" 0 True]
    by (simp_all add: set_pc_def test_and_set_def LOCKER_MAX_TRY_def)
  from s t have r: "spin_run (locker_new 2) \<lparr>locked = True, pcs = [Holding, Trying 1 True]\<rparr>"
    by (meson rtranclp.rtrancl_into_rtrancl rtranclp.rtrancl_refl)
  from locker_excludes [OF this] show ?thesis using r by simp
qed

text \<open>
  What a sequence of log calls prints through the console logger, which is also what a program that
  never started a logger gets: on the error stream the fatal messages, on standard output the others, each
  with its tag and its arguments on a line of its own, in order; debug messages only at the debug level, and
  nothing at the quiet level. From the first message on \<^verbatim>\<open>start\<close> is ignored.
\<close>

theorem log_output:
  assumes "uses_console s" and "ms \<noteq> []"
  shows "\<exists>s'. log_all ms s = Inr s' \<and>
    lg_cout s' = lg_cout s @ concat (map (line (lg_verbose s)) (filter (\<lambda>m. fst m \<noteq> LK_fatal) ms)) \<and>
    lg_cerr s' = lg_cerr s @ concat (map (line (lg_verbose s)) (filter (\<lambda>m. fst m = LK_fatal) ms)) \<and>
    manager_start l s' = s'"
  using log_all_console [OF assms] by (simp add: manager_start_def)

theorem log_output_witness:
  "\<exists>s'. log_all [(LK_info, [A_cstr ''n='', A_uint 5]), (LK_fatal, [A_cstr ''bad''])] log_initial = Inr s' \<and>
    lg_cout s' = ''[inf] n=5'' @ [CHR 10] \<and> lg_cerr s' = ''[err] bad'' @ [CHR 10]"
proof -
  have "uses_console log_initial" by (simp add: log_initial_def)
  moreover have "string_of_nat 5 = ''5''" by code_simp
  ultimately show ?thesis
    using log_output [of log_initial "[(LK_info, [A_cstr ''n='', A_uint 5]), (LK_fatal, [A_cstr ''bad''])]"]
    by (auto simp: log_initial_def line_def shown_def endl_def)
qed

text \<open>
  C34: \<^verbatim>\<open>THROW_EXCEPTION\<close> always throws, with the text of its arguments one after the other, and leaves exactly one
  entry in the log, on the error stream: the position, the message and, where the platform has one, the
  trace of the stack, unless the level is quiet.
\<close>

theorem throw_exception_spec:
  assumes "uses_console s" and "symbols_match os"
  shows "\<exists>s'. throw_exception os pos message s = (Throw (concat (map inner_to_string message)), s') \<and>
    lg_cout s' = lg_cout s \<and> lg_user s' = lg_user s \<and>
    lg_cerr s' = lg_cerr s @ (if lg_verbose s = Vb_quiet then []
      else ''[err] FATAL ERROR. The Exception will be thrown! '' @ codepos_toString pos @ '' Message: '' @
        concat (map inner_to_string message) @ trace_text os @ endl)"
  using create_and_log_console [OF assms] by (cases "lg_verbose s") (auto simp: throw_exception_def line_def shown_def)

theorem throw_exception_spec_witness:
  "\<exists>s'. throw_exception (Some \<lparr>backtrace = \<lambda>_. 1, backtrace_symbols = \<lambda>_. Some [''main'']\<rparr>)
      \<lparr>cp_file = ''a.cpp'', cp_line = 7, cp_func = ''f''\<rparr> [A_cstr ''kind '', A_uint 3] log_initial = (Throw ''kind 3'', s') \<and>
    lg_cerr s' = ''[err] FATAL ERROR. The Exception will be thrown! a.cpp line: 7 function: f'' @ endl @
      '' Message: kind 3'' @ endl @ ''backtrace() returned 1 addresses'' @ endl @ ''trace:'' @ endl @ ''main'' @ endl @ endl"
proof -
  let ?os = "Some \<lparr>backtrace = \<lambda>_. 1, backtrace_symbols = \<lambda>_. Some [''main'']\<rparr>"
  have "uses_console log_initial" "symbols_match ?os" by (simp_all add: log_initial_def symbols_match_def)
  moreover have "string_of_nat 3 = ''3''" "string_of_nat 7 = ''7''" "string_of_nat 1 = ''1''" by code_simp+
  ultimately show ?thesis
    using throw_exception_spec [of log_initial ?os "\<lparr>cp_file = ''a.cpp'', cp_line = 7, cp_func = ''f''\<rparr>"
        "[A_cstr ''kind '', A_uint 3]"]
    by (auto simp: log_initial_def endl_def trace_text_def codepos_toString_def)
qed

end
