(* ===== verification/Yaaf_Task_Result.thy ===== *)
theory Yaaf_Task_Result
  imports Yaaf_Prelude
begin

text \<open>
  Waiting for a task: \<^verbatim>\<open>task_result\<close> of \<^verbatim>\<open>utils/async/task.h\<close>, a flag with a condition variable and a mutex. Any
  number of threads may be in \<^verbatim>\<open>wait\<close> while the thread that ran the task is in \<^verbatim>\<open>unlock\<close>; one step of the relation
  is one operation on the flag, the mutex or the condition variable. \<^verbatim>\<open>unlock\<close> does not take the mutex, so its two
  operations can fall between a waiter's test of the flag and its going to sleep.
\<close>

section \<open>The step relation\<close>

text \<open>
  Where a waiter is: before taking the mutex, holding it at the head of the loop of
  \<^verbatim>\<open>_condition.wait(ul, pred)\<close>, having found the flag still set, asleep with the mutex released, woken but
  without the mutex, or back from \<^verbatim>\<open>wait\<close>.
\<close>

datatype waiter = Wt_start | Wt_locked | Wt_tested | Wt_sleeping | Wt_woken | Wt_returned

datatype unlocker = Un_start | Un_stored | Un_notified

record task_result =
  runned :: bool
  tr_mutex :: "nat option"
  waiters :: "waiter list"
  unlocker_pc :: unlocker

definition task_result_new :: "nat \<Rightarrow> task_result" where
  "task_result_new n = \<lparr>runned = True, tr_mutex = None, waiters = replicate n Wt_start, unlocker_pc = Un_start\<rparr>"

definition set_waiter :: "nat \<Rightarrow> waiter \<Rightarrow> task_result \<Rightarrow> task_result" where
  "set_waiter i w s = s\<lparr>waiters := (waiters s)[i := w]\<rparr>"

fun wake :: "waiter \<Rightarrow> waiter" where
  "wake Wt_sleeping = Wt_woken"
| "wake w = w"

definition notify_all :: "task_result \<Rightarrow> task_result" where
  "notify_all s = s\<lparr>waiters := map wake (waiters s)\<rparr>"

text \<open>
  The steps of a waiter: take the mutex, first or again; find the flag clear, return and release; find it
  set; release and sleep; wake up without having been notified, as the standard allows. The two steps of
  \<^verbatim>\<open>unlock\<close>: clear the flag, notify.
\<close>

inductive result_step :: "task_result \<Rightarrow> task_result \<Rightarrow> bool" where
  wt_lock: "i < length (waiters s) \<Longrightarrow> waiters s ! i \<in> {Wt_start, Wt_woken} \<Longrightarrow> tr_mutex s = None \<Longrightarrow>
    result_step s (set_waiter i Wt_locked (s\<lparr>tr_mutex := Some i\<rparr>))"
| wt_return: "i < length (waiters s) \<Longrightarrow> waiters s ! i = Wt_locked \<Longrightarrow> \<not> runned s \<Longrightarrow>
    result_step s (set_waiter i Wt_returned (s\<lparr>tr_mutex := None\<rparr>))"
| wt_test: "i < length (waiters s) \<Longrightarrow> waiters s ! i = Wt_locked \<Longrightarrow> runned s \<Longrightarrow> result_step s (set_waiter i Wt_tested s)"
| wt_sleep: "i < length (waiters s) \<Longrightarrow> waiters s ! i = Wt_tested \<Longrightarrow>
    result_step s (set_waiter i Wt_sleeping (s\<lparr>tr_mutex := None\<rparr>))"
| wt_spurious: "i < length (waiters s) \<Longrightarrow> waiters s ! i = Wt_sleeping \<Longrightarrow> result_step s (set_waiter i Wt_woken s)"
| un_store: "unlocker_pc s = Un_start \<Longrightarrow> result_step s (s\<lparr>runned := False, unlocker_pc := Un_stored\<rparr>)"
| un_notify: "unlocker_pc s = Un_stored \<Longrightarrow> result_step s (notify_all (s\<lparr>unlocker_pc := Un_notified\<rparr>))"

abbreviation result_run :: "task_result \<Rightarrow> task_result \<Rightarrow> bool" where
  "result_run \<equiv> rtranclp result_step"

section \<open>The invariant\<close>

text \<open>
  The flag is set until \<^verbatim>\<open>unlock\<close> clears it; a waiter is back only when it is clear; the mutex is with the one
  waiter that is between taking and releasing it.
\<close>

definition owns :: "waiter \<Rightarrow> bool" where
  "owns w \<longleftrightarrow> w \<in> {Wt_locked, Wt_tested}"

definition result_inv :: "task_result \<Rightarrow> bool" where
  "result_inv s \<longleftrightarrow> (runned s \<longleftrightarrow> unlocker_pc s = Un_start) \<and>
     (Wt_returned \<in> set (waiters s) \<longrightarrow> \<not> runned s) \<and>
     (\<forall>i. i < length (waiters s) \<longrightarrow> (owns (waiters s ! i) \<longleftrightarrow> tr_mutex s = Some i)) \<and>
     (\<forall>i. tr_mutex s = Some i \<longrightarrow> i < length (waiters s))"

lemma set_waiter_sel [simp]:
  "waiters (set_waiter i w s) = (waiters s)[i := w]" "runned (set_waiter i w s) = runned s"
  "tr_mutex (set_waiter i w s) = tr_mutex s" "unlocker_pc (set_waiter i w s) = unlocker_pc s"
  by (simp_all add: set_waiter_def)

lemma owns_simps [simp]:
  "owns Wt_locked" "owns Wt_tested" "\<not> owns Wt_start" "\<not> owns Wt_sleeping" "\<not> owns Wt_woken" "\<not> owns Wt_returned"
  by (simp_all add: owns_def)

lemma owns_wake [simp]: "owns (wake w) = owns w" "wake w = Wt_returned \<longleftrightarrow> w = Wt_returned"
  by (cases w; simp)+

lemma returned_update: "Wt_returned \<in> set ((waiters s)[i := w]) \<Longrightarrow> w = Wt_returned \<or> Wt_returned \<in> set (waiters s)"
  using set_update_subset_insert [of "waiters s" i w] by auto

lemma result_step_inv: "result_step s s' \<Longrightarrow> result_inv s \<Longrightarrow> result_inv s'"
proof (induction rule: result_step.induct)
  case (wt_lock i s)
  then have "\<not> owns (waiters s ! j)" if "j < length (waiters s)" for j using that by (auto simp: result_inv_def)
  with wt_lock show ?case by (auto simp: result_inv_def nth_list_update dest: returned_update)
next
  case (wt_return i s)
  then have "tr_mutex s = Some i" by (auto simp: result_inv_def)
  with wt_return show ?case by (auto simp: result_inv_def nth_list_update)
next
  case (wt_test i s)
  then show ?case by (auto simp: result_inv_def nth_list_update dest: returned_update)
next
  case (wt_sleep i s)
  then have "tr_mutex s = Some i" by (auto simp: result_inv_def)
  with wt_sleep show ?case by (auto simp: result_inv_def nth_list_update dest: returned_update)
next
  case (wt_spurious i s)
  then show ?case by (auto simp: result_inv_def nth_list_update dest: returned_update)
next
  case (un_store s)
  then show ?case by (auto simp: result_inv_def)
next
  case (un_notify s)
  then show ?case by (auto simp: result_inv_def notify_all_def)
qed

lemma result_run_inv: "result_run s s' \<Longrightarrow> result_inv s \<Longrightarrow> result_inv s'"
  by (induction rule: rtranclp_induct) (auto intro: result_step_inv)

lemma task_result_new_inv: "result_inv (task_result_new n)"
  by (simp add: result_inv_def task_result_new_def)

section \<open>Progress after the notification\<close>

text \<open>
  Once \<^verbatim>\<open>unlock\<close> is over and no waiter is asleep or about to fall asleep, every step brings a waiter closer
  to its return, and there is a step as long as one has not returned.
\<close>

fun steps_left :: "waiter \<Rightarrow> nat" where
  "steps_left Wt_start = 2"
| "steps_left Wt_woken = 2"
| "steps_left Wt_locked = 1"
| "steps_left _ = 0"

definition pending :: "task_result \<Rightarrow> nat" where
  "pending s = sum_list (map steps_left (waiters s))"

definition awake :: "task_result \<Rightarrow> bool" where
  "awake s \<longleftrightarrow> unlocker_pc s = Un_notified \<and> set (waiters s) \<subseteq> {Wt_start, Wt_locked, Wt_woken, Wt_returned}"

lemma pending_set_waiter:
  "i < length (waiters s) \<Longrightarrow> pending (set_waiter i w s) + steps_left (waiters s ! i) = pending s + steps_left w"
proof -
  have "sum_list (map steps_left (ws[i := w])) + steps_left (ws ! i) = sum_list (map steps_left ws) + steps_left w"
    if "i < length ws" for ws using that
  proof (induction ws arbitrary: i)
    case (Cons v ws)
    then show ?case by (cases i) (auto simp: ac_simps)
  qed simp
  then show "i < length (waiters s) \<Longrightarrow> ?thesis" by (simp add: pending_def)
qed

lemma awake_step:
  assumes "result_step s s'" and "awake s" and "result_inv s"
  shows "awake s' \<and> Suc (pending s') \<le> pending s"
  using assms(1)
proof cases
  case (wt_lock i)
  have "pending (set_waiter i Wt_locked (s\<lparr>tr_mutex := Some i\<rparr>)) + 2 = pending s + 1"
    using pending_set_waiter [of i "s\<lparr>tr_mutex := Some i\<rparr>" Wt_locked] wt_lock by (auto simp: pending_def)
  then show ?thesis
    using wt_lock assms(2) set_update_subset_insert [of "waiters s" i Wt_locked] by (auto simp: awake_def)
next
  case (wt_return i)
  have "pending (set_waiter i Wt_returned (s\<lparr>tr_mutex := None\<rparr>)) + 1 = pending s"
    using pending_set_waiter [of i "s\<lparr>tr_mutex := None\<rparr>" Wt_returned] wt_return by (simp add: pending_def)
  then show ?thesis
    using wt_return assms(2) set_update_subset_insert [of "waiters s" i Wt_returned] by (auto simp: awake_def)
next
  case (wt_sleep i)
  then have "Wt_tested \<in> set (waiters s)" by (metis nth_mem)
  with assms(2) show ?thesis by (auto simp: awake_def)
next
  case (wt_spurious i)
  then have "Wt_sleeping \<in> set (waiters s)" by (metis nth_mem)
  with assms(2) show ?thesis by (auto simp: awake_def)
qed (use assms in \<open>auto simp: awake_def result_inv_def\<close>)

lemma awake_run:
  "(result_step ^^ n) s s' \<Longrightarrow> awake s \<Longrightarrow> result_inv s \<Longrightarrow> awake s' \<and> result_inv s' \<and> n + pending s' \<le> pending s"
proof (induction n arbitrary: s')
  case (Suc n)
  from Suc.prems(1) obtain t where t: "(result_step ^^ n) s t" "result_step t s'" by auto
  from Suc.IH [OF t(1)] Suc.prems have "awake t" "result_inv t" "n + pending t \<le> pending s" by simp_all
  with awake_step [OF t(2)] result_step_inv [OF t(2)] show ?case by simp
qed simp

lemma awake_waiter:
  "awake s \<Longrightarrow> i < length (waiters s) \<Longrightarrow> waiters s ! i \<in> {Wt_start, Wt_locked, Wt_woken, Wt_returned}"
  unfolding awake_def using nth_mem by blast

lemma awake_not_stuck:
  assumes "awake s" and "result_inv s" and "\<not> set (waiters s) \<subseteq> {Wt_returned}"
  shows "\<exists>s'. result_step s s'"
proof (cases "tr_mutex s")
  case (Some i)
  then have i: "i < length (waiters s)" "owns (waiters s ! i)" using assms(2) by (auto simp: result_inv_def)
  then have "waiters s ! i = Wt_locked" using awake_waiter [OF assms(1) i(1)] by auto
  moreover have "\<not> runned s" using assms(1,2) by (auto simp: awake_def result_inv_def)
  ultimately show ?thesis using wt_return i(1) by blast
next
  case None
  from assms(3) obtain w where "w \<in> set (waiters s)" "w \<noteq> Wt_returned" by blast
  then obtain i where i: "i < length (waiters s)" "waiters s ! i \<noteq> Wt_returned" by (metis in_set_conv_nth)
  moreover have "\<not> owns (waiters s ! i)" using None i(1) assms(2) by (auto simp: result_inv_def)
  ultimately have "waiters s ! i \<in> {Wt_start, Wt_woken}"
    using awake_waiter [OF assms(1) i(1)] by auto
  with i(1) None show ?thesis using wt_lock by blast
qed

section \<open>Properties\<close>

text \<open>Two runs with one waiter: \<^verbatim>\<open>unlock\<close> is over before the waiter takes the mutex, and the waiter then returns.\<close>

abbreviation unlocked_first :: task_result where
  "unlocked_first \<equiv> \<lparr>runned = False, tr_mutex = None, waiters = [Wt_start], unlocker_pc = Un_notified\<rparr>"

abbreviation waiter_back :: task_result where
  "waiter_back \<equiv> \<lparr>runned = False, tr_mutex = None, waiters = [Wt_returned], unlocker_pc = Un_notified\<rparr>"

lemma run_unlocked_first: "result_run (task_result_new 1) unlocked_first"
proof -
  let ?s1 = "(task_result_new 1)\<lparr>runned := False, unlocker_pc := Un_stored\<rparr>"
  have "result_step (task_result_new 1) ?s1" by (rule un_store) (simp add: task_result_new_def)
  moreover have "result_step ?s1 (notify_all (?s1\<lparr>unlocker_pc := Un_notified\<rparr>))" by (rule un_notify) simp
  ultimately show ?thesis by (simp add: task_result_new_def notify_all_def)
qed

lemma run_waiter_back: "(result_step ^^ 2) unlocked_first waiter_back"
proof -
  let ?s = "set_waiter 0 Wt_locked (unlocked_first\<lparr>tr_mutex := Some 0\<rparr>)"
  have "result_step unlocked_first ?s" by (rule wt_lock) simp_all
  moreover have "result_step ?s (set_waiter 0 Wt_returned (?s\<lparr>tr_mutex := None\<rparr>))" by (rule wt_return) simp_all
  ultimately show ?thesis by (auto simp: numeral_2_eq_2 set_waiter_def)
qed

text \<open>
  \<^verbatim>\<open>wait\<close> returns only after the task is done: in every run of a new result, with any number of waiters, a
  thread is back from \<^verbatim>\<open>wait\<close> only if \<^verbatim>\<open>unlock\<close> has cleared the flag, and at most one waiter owns the mutex.
\<close>

theorem wait_after_unlock:
  assumes "result_run (task_result_new n) s"
  shows "(Wt_returned \<in> set (waiters s) \<longrightarrow> \<not> runned s \<and> unlocker_pc s \<noteq> Un_start) \<and>
    (i < length (waiters s) \<and> j < length (waiters s) \<and> owns (waiters s ! i) \<and> owns (waiters s ! j) \<longrightarrow> i = j)"
  using result_run_inv [OF assms task_result_new_inv] unfolding result_inv_def by fastforce

theorem wait_after_unlock_witness:
  "Wt_returned \<in> set (waiters waiter_back) \<and> \<not> runned waiter_back \<and> unlocker_pc waiter_back \<noteq> Un_start"
proof -
  have "result_run (task_result_new 1) waiter_back"
    using run_unlocked_first relpowp_imp_rtranclp [OF run_waiter_back] by (rule rtranclp_trans)
  from wait_after_unlock [OF this] show ?thesis by simp
qed

text \<open>
  C30: every waiter returns, unless one was caught between its test and its sleep: from any state a new result
  can reach in which \<^verbatim>\<open>unlock\<close> is over and no waiter sleeps or is about to, no run is longer than two steps per
  waiter, and a run that cannot go on has every waiter back.
\<close>

theorem wait_ends:
  assumes "result_run (task_result_new n) s" and "awake s" and "(result_step ^^ k) s s'"
  shows "k \<le> 2 * length (waiters s) \<and> (\<not> (\<exists>t. result_step s' t) \<longrightarrow> set (waiters s') \<subseteq> {Wt_returned})"
proof -
  have inv: "result_inv s" by (rule result_run_inv [OF assms(1) task_result_new_inv])
  have "steps_left w \<le> 2" for w by (cases w) simp_all
  then have "pending s \<le> 2 * length (waiters s)"
    using sum_list_mono [of "waiters s" steps_left "\<lambda>_. 2"] by (simp add: pending_def sum_list_triv mult.commute)
  with awake_run [OF assms(3,2) inv] show ?thesis using awake_not_stuck [of s'] by auto
qed

theorem wait_ends_witness: "awake unlocked_first \<and> (2::nat) \<le> 2 * length (waiters unlocked_first)"
  using wait_ends [OF run_unlocked_first _ run_waiter_back] by (simp add: awake_def)

text \<open>
  C31: the notification can be lost: \<^verbatim>\<open>unlock\<close> may clear the flag and notify after a waiter has found the flag set
  and before it sleeps. The waiter then sleeps although the task is done and nobody will notify it again;
  only a spurious wake-up can help it.
\<close>

theorem lost_wakeup:
  "\<exists>s. result_run (task_result_new 1) s \<and> waiters s = [Wt_sleeping] \<and> \<not> runned s \<and> unlocker_pc s = Un_notified \<and>
    (\<forall>t. result_step s t \<longleftrightarrow> t = set_waiter 0 Wt_woken s)"
proof -
  let ?s0 = "task_result_new 1"
  let ?s1 = "set_waiter 0 Wt_locked (?s0\<lparr>tr_mutex := Some 0\<rparr>)"
  let ?s2 = "set_waiter 0 Wt_tested ?s1"
  let ?s3 = "?s2\<lparr>runned := False, unlocker_pc := Un_stored\<rparr>"
  let ?s4 = "notify_all (?s3\<lparr>unlocker_pc := Un_notified\<rparr>)"
  let ?s5 = "set_waiter 0 Wt_sleeping (?s4\<lparr>tr_mutex := None\<rparr>)"
  have "result_step ?s0 ?s1" by (rule wt_lock) (simp_all add: task_result_new_def)
  moreover have "result_step ?s1 ?s2" by (rule wt_test) (simp_all add: task_result_new_def)
  moreover have "result_step ?s2 ?s3" by (rule un_store) (simp add: task_result_new_def)
  moreover have "result_step ?s3 ?s4" by (rule un_notify) simp
  moreover have "result_step ?s4 ?s5" by (rule wt_sleep) (simp_all add: task_result_new_def notify_all_def)
  ultimately have run: "result_run ?s0 ?s5" by (meson rtranclp.rtrancl_into_rtrancl rtranclp.rtrancl_refl)
  let ?asleep = "\<lparr>runned = False, tr_mutex = None, waiters = [Wt_sleeping], unlocker_pc = Un_notified\<rparr>"
  have "?s5 = ?asleep" by (simp add: set_waiter_def task_result_new_def notify_all_def)
  with run have reach: "result_run ?s0 ?asleep" by simp
  have only: "result_step ?asleep t \<longleftrightarrow> t = set_waiter 0 Wt_woken ?asleep" for t
  proof
    assume "result_step ?asleep t"
    then show "t = set_waiter 0 Wt_woken ?asleep" by cases (auto simp: less_Suc_eq)
  qed (auto intro: wt_spurious)
  show ?thesis using reach only by (intro exI [of _ ?asleep]) simp
qed

end
