(* ===== verification/Yaaf_Progress.thy ===== *)
theory Yaaf_Progress
  imports Yaaf_System
begin

text \<open>
  Progress of a running context: the user pool serves its queue in the order of posting, so an actor with a
  filled mailbox is given to a thread after one pass of the mailbox worker that gets the shared lock and a
  bounded number of tasks taken from the queue. Which steps happen is up to the scheduler; the bound counts
  only the steps in which a thread takes a task.
\<close>

section \<open>The queue of the user pool\<close>

definition user_tasks :: "'u ctx \<Rightarrow> posted_task task_wrapper list" where
  "user_tasks s = (case cx_tm s of None \<Rightarrow> [] | Some m \<Rightarrow> tm_queue m USER)"

abbreviation default_task :: "'t task_wrapper \<Rightarrow> bool" where
  "default_task t \<equiv> tw_priority t = TP_DEFAULT"

lemma user_queue_tasks: "user_queue s = map (fst \<circ> tw_task) (user_tasks s)"
  by (simp add: user_queue_def user_tasks_def split: option.splits)

section \<open>What posting keeps\<close>

text \<open>
  The operations of the context touch the thread manager only by posting tasks of default priority to the
  user pool. A property of the manager that such a post keeps is kept by all of them.
\<close>

locale pool_property =
  fixes P :: "posted_task thread_manager option \<Rightarrow> bool"
  assumes closed: "P (Some m) \<Longrightarrow> default_task t \<Longrightarrow> tm_post USER t m = Inr (r, m') \<Longrightarrow> P (Some m')"
begin

abbreviation holds :: "'u ctx \<Rightarrow> bool" where
  "holds s \<equiv> P (cx_tm s)"

lemma preserves_same: "(\<And>s. cx_tm (snd (m s)) = cx_tm s) \<Longrightarrow> preserves holds m"
  by (rule preservesI) simp

lemma preserves_mod: "(\<And>s. cx_tm (h s) = cx_tm s) \<Longrightarrow> preserves holds (modM h)"
  by (rule preserves_same) simp

lemma preserves_quiet: "quiet_op m \<Longrightarrow> preserves holds m"
  by (rule preserves_same) (metis quiet_change_sel(12) quiet_op_def snd_conv)

lemma preserves_holds_locked [triple_intro]:
  assumes "preserves holds m"
  shows "preserves holds (with_excl m)" "preserves holds (with_shared m)"
    "preserves holds (with_xexcl m)" "preserves holds (with_xshared m)"
  using assms by (intro preserves_locked; simp)+

lemma preserves_post [triple_intro]: "preserves holds (user_post f k)"
  by (rule preservesI)
    (auto simp: user_post_def post_task_def wrap_task_def elim: closed [rotated 2] split: option.splits sum.splits)

lemma preserves_basic [triple_intro]:
  "preserves holds (upd_obj p f)" "preserves holds (mb_push b e)" "preserves holds (mb_try_pop b)"
  "preserves holds (mb_is_empty b)" "preserves holds (obj_try_lock p)" "preserves holds fetch_next_id"
  "preserves holds new_mailbox" "preserves holds (new_actor k)" "preserves holds (create_exchange_unsafe a nm)"
  by (rule preserves_same; auto simp: mb_try_pop_def fetch_next_id_def new_mailbox_def new_actor_def
      with_exchange_def split: option.splits sum.splits prod.splits)+

lemma preserves_deliver: "preserves holds deliver_exchanges"
proof -
  have loop: "preserves holds (deliver_loop n x)" for n x
  proof (induction n)
    case (Suc n)
    then show ?case unfolding deliver_loop.simps deliver_to_def by (intro triple_intro)
  qed (simp add: triple_def)
  have "preserves holds (deliver_exchange nx)" for nx
    by (cases nx) (auto simp del: deliver_loop.simps intro!: preservesI preserves_snd [OF loop])
  then show ?thesis unfolding deliver_exchanges_def by (intro triple_intro)
qed

lemma holds_dispatch: "preserves holds (dispatch_all kvs)"
proof (induction kvs)
  case (Cons kv kvs)
  obtain i m where kv: "kv = (i, m)" by (cases kv)
  have one: "preserves holds (dispatch_one kv)"
    unfolding kv dispatch_one.simps parent_actor_def by (intro triple_intro; assumption)
  show ?case unfolding dispatch_all.simps by (intro triple_intro Cons one; assumption)
qed (simp add: triple_def)

lemma preserves_worker: "preserves holds (mailbox_worker oc)"
proof -
  have clean: "preserves holds clean_exchanges" "preserves holds (remove_boxes is)" for "is"
    unfolding clean_exchanges_def remove_boxes_def by (intro triple_intro preserves_mod; simp)+
  show ?thesis
    unfolding mailbox_worker_def
    by (intro triple_intro preserves_deliver holds_dispatch clean; assumption)
qed

lemma preserves_add:
  assumes "quiet_vtable vt"
  shows "preserves holds (add_actor_under vt nm parent a)"
proof -
  have init: "preserves holds (call_on_init vt p st)" for p st
    by (rule preserves_quiet [OF quiet_calls(1) [OF assms]])
  have child: "preserves holds (modM (add_child i j))" for i j
    by (rule preserves_mod) (simp add: add_child_def split: option.splits)
  have reg: "preserves holds (register_actor i d hp)" for i d hp
    unfolding register_actor_def by (intro triple_intro child preserves_mod) simp_all
  have uc: "preserves holds (user_context_new addr n)" for addr n
    unfolding user_context_new_def by (intro triple_intro)
  have install: "preserves holds (install_actor vt i un n st pid hp a)" for i un n st pid hp
    unfolding install_actor_def Let_def by (intro triple_intro reg uc init)
  show ?thesis
    unfolding add_actor_under_def read_parent_def by (intro triple_intro install; assumption)
qed

end

text \<open>The queue is \<open>q\<close> followed by tasks posted since, all of default priority.\<close>

definition grown :: "posted_task task_wrapper list \<Rightarrow> posted_task thread_manager option \<Rightarrow> bool" where
  "grown q tm \<longleftrightarrow> (\<exists>ts. (case tm of None \<Rightarrow> [] | Some m \<Rightarrow> tm_queue m USER) = q @ ts \<and> list_all default_task ts)"

definition grew :: "posted_task task_wrapper list \<Rightarrow> 'u ctx \<Rightarrow> bool" where
  "grew q s \<longleftrightarrow> (\<exists>ts. user_tasks s = q @ ts \<and> list_all default_task ts)"

lemma grew_grown: "grew q s = grown q (cx_tm s)"
  by (simp add: grew_def grown_def user_tasks_def)

lemma tm_post_queue:
  assumes "tm_post USER t m = Inr (r, m')"
  shows "tm_queue m' USER = tm_queue m USER \<or> tm_queue m' USER = tm_queue m USER @ [t]"
  using assms
  by (auto simp: tm_post_def tm_queue_def pool_post_def push_task_def Let_def update_conv' split: if_splits option.splits)

interpretation grows: pool_property "grown q" for q
proof
  fix m t r m'
  assume "grown q (Some m)" "default_task t" "tm_post USER t m = Inr (r, m')"
  then show "grown q (Some m')" using tm_post_queue [of t m r m'] by (auto simp: grown_def)
qed

text \<open>The threads of the user pool are where \<open>ws\<close> says and the pool has not been told to stop.\<close>

definition crewed :: "posted_task worker list \<Rightarrow> posted_task thread_manager option \<Rightarrow> bool" where
  "crewed ws tm \<longleftrightarrow> (case tm of None \<Rightarrow> False | Some m \<Rightarrow> (case map_of (tm_pools m) USER of None \<Rightarrow> False
     | Some p \<Rightarrow> workers p = ws \<and> \<not> stop_flag p))"

interpretation crew: pool_property "crewed ws" for ws
  by unfold_locales
    (auto simp: crewed_def tm_post_def pool_post_def push_task_def Let_def split: if_splits option.splits)

lemma grew_same: "cx_tm s' = cx_tm s \<Longrightarrow> grew (user_tasks s) s'"
  by (simp add: grew_def user_tasks_def)

lemma same_core_tm: "(\<And>t l x. preserves (same_core t l x) m) \<Longrightarrow> m s = (r, s') \<Longrightarrow> cx_tm s' = cx_tm s"
  using preserves_snd [of "same_core s (cx_lock s) (cx_xlock s)" m s] by (simp add: same_core_def)

lemma client_op_grew:
  assumes q: "quiet_vtable vt" and inv: "ctx_inv s" "cx_lock s = Unlocked" and op: "client_op vt s s'"
  shows "grew (user_tasks s) s'"
  using op
proof cases
  case (op_add parent nm a r)
  then show ?thesis using preserves_snd [OF grows.preserves_add [OF q], of "user_tasks s" s nm parent a] grew_same [of s s]
    by (simp add: grew_grown)
next
  case (op_stop addr reason r)
  have "stops (subtree (actor_at s) (aa_id addr)) s s'"
    using quiet_callbacks.stop_actor_impl_safety_stops [OF _ ctx_invD(2) [OF inv(1)], of vt addr reason] q inv(2) op_stop
    by (auto simp: quiet_callbacks_def)
  then show ?thesis by (intro grew_same) (auto simp: stops_def)
qed (rule grew_same, ((erule preserves_same_core_ops [THEN same_core_tm]) | auto))+

section \<open>The order of service\<close>

lemma select_task_default: "list_all default_task q \<Longrightarrow> select_task q = (case q of [] \<Rightarrow> None | t # _ \<Rightarrow> Some t)"
  by (cases q) (simp_all add: select_task_eq)

lemma user_tasks_with_pool [simp]: "user_tasks (with_user_pool p m s) = in_queue p"
  by (simp add: user_tasks_def with_user_pool_def tm_queue_def)

text \<open>Every step lets the queue grow at its end, or takes its head into the handler loop.\<close>

definition took :: "'u ctx \<times> actor_ptr multiset \<Rightarrow> 'u ctx \<times> actor_ptr multiset \<Rightarrow> bool" where
  "took c c' \<longleftrightarrow> (\<exists>t. user_tasks (fst c) = t # user_tasks (fst c') \<and> snd c' = entered (fst (tw_task t)) + snd c)"

lemma sys_step_queue:
  assumes "sys_step vt c c'" and "quiet_vtable vt" and "ctx_inv (fst c)" and "unlocked (fst c)"
    and "list_all default_task (user_tasks (fst c))"
  shows "took c c' \<or> grew (user_tasks (fst c)) (fst c')"
  using assms(1)
proof cases
  case (worker_pass s oc r s' ins)
  then show ?thesis using preserves_snd [OF grows.preserves_worker, of "user_tasks s" s oc] grew_same [of s s]
    by (simp add: grew_grown)
next
  case (take_task s m p i t ins)
  then have q: "user_tasks s = in_queue p" by (simp add: user_tasks_def tm_queue_def)
  with assms(5) take_task obtain ts where "in_queue p = t # ts" by (auto simp: select_task_default split: list.splits)
  with take_task q show ?thesis by (simp add: took_def set_worker_def)
next
  case (task_done s m p i t ins)
  then show ?thesis by (simp add: grew_def set_worker_def) (simp add: user_tasks_def tm_queue_def)
next
  case (client s s' ins)
  with client_op_grew [OF assms(2)] assms(3,4) show ?thesis by simp
next
  case (handler_ends p ins s k msg)
  then show ?thesis using grew_same [of "set_obj p (reset_busy \<circ> update_status_msg k msg) s" s] by (simp add: set_obj_def)
qed

lemma sys_step_default:
  "took c c' \<or> grew (user_tasks (fst c)) (fst c') \<Longrightarrow> list_all default_task (user_tasks (fst c)) \<Longrightarrow>
   list_all default_task (user_tasks (fst c'))"
  by (auto simp: took_def grew_def)

text \<open>A run with the number of tasks taken in it: taking is the only step that shortens the queue.\<close>

inductive run_takes ::
    "'u vtable \<Rightarrow> 'u ctx \<times> actor_ptr multiset \<Rightarrow> nat \<Rightarrow> 'u ctx \<times> actor_ptr multiset \<Rightarrow> bool" for vt c where
  rt_refl: "run_takes vt c 0 c"
| rt_step: "run_takes vt c n c1 \<Longrightarrow> sys_step vt c1 c2 \<Longrightarrow>
    run_takes vt c (if length (user_tasks (fst c2)) < length (user_tasks (fst c1)) then Suc n else n) c2"

lemma run_takes_run: "run_takes vt c n c' \<Longrightarrow> sys_run vt c c'"
  by (induction rule: run_takes.induct) (auto intro: sys_run.intros)

definition calm :: "'u ctx \<times> actor_ptr multiset \<Rightarrow> bool" where
  "calm c \<longleftrightarrow> sys_inv (fst c) (snd c) \<and> list_all default_task (user_tasks (fst c))"

lemma calm_step:
  assumes "private_callbacks vt" and "sys_step vt c c'" and "calm c"
  shows "calm c' \<and> (took c c' \<or> grew (user_tasks (fst c)) (fst c'))"
proof -
  have q: "took c c' \<or> grew (user_tasks (fst c)) (fst c')"
    using assms by (intro sys_step_queue) (auto simp: private_callbacks_def private_field_def quiet_callbacks_def calm_def sys_inv_def)
  from private_callbacks.sys_step_inv [OF assms(1,2)] sys_step_default [OF q] assms(3) q
  show ?thesis by (simp add: calm_def)
qed

lemma calm_run: "sys_run vt c c' \<Longrightarrow> private_callbacks vt \<Longrightarrow> calm c \<Longrightarrow> calm c'"
  by (induction rule: sys_run.induct) (auto dest: calm_step)

lemma new_context_calm:
  assumes "context_new dc ps nm c u = Inr (s, c')"
  shows "calm (s, {#})"
proof -
  have "user_queue s = []" using context_new_eq [OF assms] by simp
  then show ?thesis using new_context_sys_inv [OF assms] by (simp add: calm_def user_queue_tasks)
qed

text \<open>
  A queued apply task moves up by one with every task taken; when as many were taken as stood in front of
  it and one more, its actor has been entered.
\<close>

lemma served_after:
  assumes "run_takes vt c n c'" and "private_callbacks vt" and "calm c"
    and "user_tasks (fst c) = pre @ t # post" and "apply_actor (fst (tw_task t)) = Some p"
  shows "(\<exists>c1. sys_run vt c c1 \<and> p \<in># snd c1 \<and> sys_run vt c1 c') \<or>
    (\<exists>pre' post'. user_tasks (fst c') = pre' @ t # post' \<and> n + length pre' = length pre)"
  using assms(1)
proof (induction rule: run_takes.induct)
  case rt_refl
  then show ?case using assms(4) by auto
next
  case (rt_step n c1 c2)
  from rt_step.IH show ?case
  proof
    assume "\<exists>d. sys_run vt c d \<and> p \<in># snd d \<and> sys_run vt d c1"
    then show ?thesis using sys_run_step rt_step.hyps(2) by blast
  next
    assume "\<exists>pre' post'. user_tasks (fst c1) = pre' @ t # post' \<and> n + length pre' = length pre"
    then obtain pre' post' where u: "user_tasks (fst c1) = pre' @ t # post'" "n + length pre' = length pre" by blast
    have run: "sys_run vt c c1" by (rule run_takes_run [OF rt_step.hyps(1)])
    from calm_step [OF assms(2) rt_step.hyps(2) calm_run [OF run assms(2,3)]]
    consider (took) "took c1 c2" | (grew) "grew (user_tasks (fst c1)) (fst c2)" by blast
    then show ?thesis
    proof cases
      case took
      show ?thesis
      proof (cases pre')
        case Nil
        with took u assms(5) have "p \<in># snd c2" by (auto simp: took_def entered_def)
        then show ?thesis using sys_run_step [OF run rt_step.hyps(2)] sys_run_refl by blast
      next
        case (Cons a pre'')
        with took u have "user_tasks (fst c2) = pre'' @ t # post'" by (auto simp: took_def)
        then show ?thesis using u Cons by auto
      qed
    next
      case grew
      then obtain ts where "user_tasks (fst c2) = pre' @ t # post' @ ts" using u by (auto simp: grew_def)
      then show ?thesis using u by auto
    qed
  qed
qed

lemma queued_claim:
  assumes "p \<in># apply_claims s"
  obtains pre t post where "user_tasks s = pre @ t # post" "apply_actor (fst (tw_task t)) = Some p"
proof -
  from assms obtain t where "t \<in> set (user_tasks s)" "apply_actor (fst (tw_task t)) = Some p"
    by (auto simp: apply_claims_def user_queue_tasks List.map_filter_def)
  then show thesis using that split_list [of t "user_tasks s"] by blast
qed

text \<open>After a pass with the shared lock, an actor with a filled mailbox is queued or being run.\<close>

lemma claimed_after_pass:
  assumes inv: "sys_inv s ins" and cp: "can_post s" and sh: "o_shared oc"
    and a: "actor_at s i = Some d" "mbox_at s i = Some m" "queue_at s m \<noteq> []"
    and run: "mailbox_worker oc s = (r, s')"
  shows "d_actor d \<in># apply_claims s' \<or> d_actor d \<in># ins"
proof -
  from inv have i: "ctx_inv s" "unlocked s" "own_objects s" by (simp_all add: sys_inv_def)
  from mailbox_worker_run [OF i(1,2) cp i(3), of oc] run obtain s1 where
    d1: "if o_xshared oc \<and> o_excl oc
      then delivers s s1 (set (pubs_of (exchanges s))) (\<lambda>i. fan_out_all i (exchanges s) s) else s1 = s"
    and ad: "after_dispatch oc s1 s'" by auto
  have s1: "objs s1 = objs s" "actors s1 = actors s" "mboxes s1 = mboxes s" "queue_at s1 m \<noteq> []"
    using d1 a delivers_sel(5) [of s s1 _ _ i m] by (auto simp: delivers_def split: if_splits)
  from ad sh have o: "objs s' = mark_busy (due_actors (due s1 (mboxes s1))) (objs s1)"
    by (auto simp: after_dispatch_def dispatched_def)
  have "d_actor d \<in> due_actors (due s1 kvs)" if "\<not> busy (objs s (d_actor d))" "(i, m) \<in> set kvs" for kvs
    using that(2) by (induction kvs) (use that(1) a(1) s1 in \<open>auto split: option.splits if_splits\<close>)
  then have "busy (objs s' (d_actor d))"
    using map_of_SomeD [OF a(2)] s1 by (auto simp: o mark_busy_def)
  then show ?thesis
    using worker_pass_inv [OF inv cp run] exclusive_counts(2) [of s' ins "d_actor d"] by (simp add: sys_inv_def)
qed

section \<open>Properties\<close>

text \<open>A thread of the user pool is looking for work and the pool has not been told to stop.\<close>

definition idle_thread :: "'u ctx \<Rightarrow> bool" where
  "idle_thread s = (case cx_tm s of None \<Rightarrow> False | Some m \<Rightarrow> (case map_of (tm_pools m) USER of None \<Rightarrow> False
     | Some p \<Rightarrow> W_loop \<in> set (workers p) \<and> \<not> stop_flag p))"

lemma idle_thread_takes:
  assumes "idle_thread (fst c)" and "user_tasks (fst c) \<noteq> []"
  shows "\<exists>c'. sys_step vt c c' \<and> length (user_tasks (fst c')) < length (user_tasks (fst c))"
proof -
  obtain s ins where c: "c = (s, ins)" by (cases c)
  from assms(1) obtain m p where m: "cx_tm s = Some m" "map_of (tm_pools m) USER = Some p"
    and w: "W_loop \<in> set (workers p)" "\<not> stop_flag p"
    by (auto simp: idle_thread_def c split: option.splits)
  from w(1) obtain i where i: "i < length (workers p)" "workers p ! i = W_loop" by (auto simp: in_set_conv_nth)
  have q: "user_tasks s = in_queue p" using m by (simp add: user_tasks_def tm_queue_def)
  with assms(2) have "select_task (in_queue p) \<noteq> None"
    by (cases "in_queue p") (auto simp: c select_task_eq split: option.splits)
  then obtain t where t: "select_task (in_queue p) = Some t" by blast
  have "length (remove1 t (in_queue p)) < length (in_queue p)"
    using select_task_in [OF t] by (metis length_pos_if_in_set length_remove1 diff_less zero_less_one)
  with sys_step.take_task [OF m i w(2) t, of vt ins] show ?thesis
    using q by (intro exI) (auto simp: c set_worker_def)
qed



end
