(* ===== verification/Yaaf_Ping_Pong.thy ===== *)
theory Yaaf_Ping_Pong
  imports Yaaf_Progress Yaaf_Lifecycle
begin

text \<open>
  The program \<^verbatim>\<open>examples/ping_pong_example.cpp\<close>: an actor \<^verbatim>\<open>ping\<close> that makes an actor \<^verbatim>\<open>pong\<close> in its \<^verbatim>\<open>on_start\<close> and
  exchanges a growing number with it. It runs on a context with the default parameters, so with one thread
  in the user pool; passes of the mailbox worker and turns of that thread alternate. The lemmas put the
  components together: what the two actors see is what the library promises.
\<close>

section \<open>A thread of the user pool at work\<close>

text \<open>
  One turn of the pool's only thread: it takes the task its search finds, runs it, releases those that wait
  for its result, and goes back, which are steps of the pool (\<open>finish_first_steps\<close>). The context posts to the user pool only tasks that run once; another round
  of a repeated task is outside this schedule.
\<close>

definition finish_first :: "posted_task task_wrapper \<Rightarrow> 'u ctx \<Rightarrow> 'u ctx" where
  "finish_first t s = (let m = the (cx_tm s); p = the (map_of (tm_pools m) USER)
     in with_user_pool (set_worker 0 W_loop (p\<lparr>task_runned := task_runned p - 1,
       results := task_result_unlock (tw_result t) (results p)\<rparr>)) m s)"

definition thread_turn :: "'u vtable \<Rightarrow> nat \<Rightarrow> ('u ctx, unit) cpp" where
  "thread_turn vt fuel = (\<lambda>s. case select_task (user_tasks s) of
       None \<Rightarrow> (Inr (), s)
     | Some t \<Rightarrow> (case thread_run vt fuel all_locks USER (tw_task t) (take_first s) of
           (Inl e, s') \<Rightarrow> (Inl e, s')
         | (Inr SINGLE, s') \<Rightarrow> (Inr (), finish_first t s')
         | (Inr REPEAT, s') \<Rightarrow> (Inl Unbounded, s')))"

lemma finish_first_steps:
  assumes "workers p = [W_running t]"
  shows "pool_run p [Finished t, Internal]
    (set_worker 0 W_loop (p\<lparr>task_runned := task_runned p - 1, results := task_result_unlock (tw_result t) (results p)\<rparr>))"
proof -
  let ?p = "set_worker 0 W_done (p\<lparr>results := task_result_unlock (tw_result t) (results p)\<rparr>)"
  have "pool_run p ([] @ [Finished t]) ?p"
    using assms by (intro pool_run_snoc [OF pool_run_Nil] pool_step.apply_single) simp_all
  moreover have "pool_step ?p Internal (set_worker 0 W_loop (?p\<lparr>task_runned := task_runned ?p - 1\<rparr>))"
    using assms by (intro pool_step.decrement) (simp_all add: set_worker_def)
  ultimately have "pool_run p ([Finished t] @ [Internal]) (set_worker 0 W_loop (?p\<lparr>task_runned := task_runned ?p - 1\<rparr>))"
    by (intro pool_run_snoc) simp_all
  moreover have "set_worker 0 W_loop (?p\<lparr>task_runned := task_runned ?p - 1\<rparr>) =
      set_worker 0 W_loop (p\<lparr>task_runned := task_runned p - 1, results := task_result_unlock (tw_result t) (results p)\<rparr>)"
    by (simp add: set_worker_def)
  ultimately show ?thesis by simp
qed

lemma thread_turn_single:
  "select_task (user_tasks s) = Some t \<Longrightarrow>
   thread_run vt fuel all_locks USER (tw_task t) (take_first s) = (Inr SINGLE, s') \<Longrightarrow>
   thread_turn vt fuel s = (Inr (), finish_first t s')"
  by (simp add: thread_turn_def)

section \<open>The two actors\<close>

datatype pp_class = Ping_actor | Pong_actor

text \<open>The counter \<^verbatim>\<open>pings\<close>, what was printed, the class of each actor object and the member of a \<^verbatim>\<open>ping_actor\<close>.\<close>

record pp_world =
  pings :: "64 word"
  pp_cout :: string
  pp_class_of :: "actor_ptr \<Rightarrow> pp_class"
  pong_addr :: "actor_ptr \<Rightarrow> actor_address"

definition int_succ :: "32 word \<Rightarrow> fault + 32 word" where
  "int_succ v = (if sint v = 2 ^ 31 - 1 then Inl Overflow else Inr (v + 1))"

definition print_value :: "string \<Rightarrow> 32 word \<Rightarrow> (pp_world ctx, unit) cpp" where
  "print_value who v = modM (\<lambda>s. s\<lparr>usr := (usr s)\<lparr>pp_cout := pp_cout (usr s) @ who @ string_of_int (sint v) @ [CHR 10]\<rparr>\<rparr>)"

fun value_int :: "cpp_value \<Rightarrow> 32 word" where
  "value_int (V_int v) = v"
| "value_int _ = 0"

definition pong_action_handle :: "bool \<Rightarrow> actor_ptr \<Rightarrow> envelope \<Rightarrow> (pp_world ctx, unit) cpp" where
  "pong_action_handle live p e =
     bindM (liftM (payload_cast T_int (payload e))) (\<lambda>c. let v = value_int c in
     seqM (print_value ''pong: '' v)
     (bindM (get_context live p) (\<lambda>ctx. case ctx of
       None \<Rightarrow> retM ()
     | Some uc \<Rightarrow> bindM (liftM (int_succ v)) (\<lambda>v'. uc_send True uc (sender e) (V_int v')))))"

definition ping :: "bool \<Rightarrow> actor_ptr \<Rightarrow> actor_address \<Rightarrow> 32 word \<Rightarrow> (pp_world ctx, unit) cpp" where
  "ping live p pa v = bindM (get_context live p) (\<lambda>ctx. case ctx of
       None \<Rightarrow> retM ()
     | Some uc \<Rightarrow> uc_send True uc pa (V_int v))"

text \<open>
  \<^verbatim>\<open>make_actor\<close> through the facade: the object, its class, and the facade's \<^verbatim>\<open>add_actor\<close>, which calls \<^verbatim>\<open>on_init\<close> and
  \<^verbatim>\<open>on_start\<close>'s task only; a \<^verbatim>\<open>pong_actor\<close> inherits \<^verbatim>\<open>on_init\<close> from \<^verbatim>\<open>base_actor\<close>, so the library's table serves for it.
\<close>

definition set_pp_class :: "pp_class \<Rightarrow> actor_ptr \<Rightarrow> (pp_world ctx, unit) cpp" where
  "set_pp_class k a = modM (\<lambda>s. s\<lparr>usr := (usr s)\<lparr>pp_class_of := (pp_class_of (usr s))(a := k)\<rparr>\<rparr>)"

definition ping_on_start :: "bool \<Rightarrow> actor_ptr \<Rightarrow> (pp_world ctx, unit) cpp" where
  "ping_on_start live p = bindM (get_context live p) (\<lambda>ctx. case ctx of
       None \<Rightarrow> retM ()
     | Some uc \<Rightarrow>
         bindM (new_actor User_actor) (\<lambda>a.
         seqM (set_pp_class Pong_actor a)
         (bindM (uc_add_actor base_vtable True uc ''pong'' a) (\<lambda>addr.
          seqM (modM (\<lambda>s. s\<lparr>usr := (usr s)\<lparr>pong_addr := (pong_addr (usr s))(p := addr)\<rparr>\<rparr>))
            (ping live p addr 0)))))"

definition ping_action_handle :: "bool \<Rightarrow> actor_ptr \<Rightarrow> envelope \<Rightarrow> (pp_world ctx, unit) cpp" where
  "ping_action_handle live p e =
     bindM (liftM (payload_cast T_int (payload e))) (\<lambda>c. let v = value_int c in
     seqM (print_value ''ping: '' v)
     (seqM (modM (\<lambda>s. s\<lparr>usr := (usr s)\<lparr>pings := pings (usr s) + 1\<rparr>\<rparr>))
     (bindM (liftM (int_succ v)) (\<lambda>v'. ping live p (sender e) v'))))"

definition pp_vtable :: "bool \<Rightarrow> pp_world vtable" where
  "pp_vtable live = base_vtable\<lparr>
     v_action_handle := (\<lambda>p e s. case pp_class_of (usr s) p of
         Ping_actor \<Rightarrow> ping_action_handle live p e s
       | Pong_actor \<Rightarrow> pong_action_handle live p e s),
     v_on_start := (\<lambda>p s. case pp_class_of (usr s) p of
         Ping_actor \<Rightarrow> ping_on_start live p s
       | Pong_actor \<Rightarrow> base_on_start s)\<rparr>"

definition pp_world_new :: pp_world where
  "pp_world_new = \<lparr>pings = 0, pp_cout = [], pp_class_of = (\<lambda>_. Ping_actor), pong_addr = (\<lambda>_. address_default)\<rparr>"

text \<open>
  \<^verbatim>\<open>main\<close> up to its endless loop: a context with the default parameters, and the actor \<^verbatim>\<open>ping\<close>. The quiet logger it
  installs first prints nothing.
\<close>

definition pp_main :: "fault + actor_address \<times> pp_world ctx" where
  "pp_main = bindR (make_context (pp_vtable True) True defparams [] 0
       pp_world_new)
     (\<lambda>(s, _). case bindM (new_actor User_actor) (\<lambda>a. seqM (set_pp_class Ping_actor a)
         (add_actor (pp_vtable True) ''ping'' a)) s of
       (Inl e, _) \<Rightarrow> Inl e | (Inr addr, s') \<Rightarrow> Inr (addr, s'))"

text \<open>One round of that loop prints how far the counter went since it was last read.\<close>

definition speed_line :: "64 word \<Rightarrow> 64 word \<Rightarrow> string" where
  "speed_line last_ping new_ping = (let diff = new_ping - last_ping
     in '' ping-pong speed: '' @ string_of_nat (unat diff) @ '' per.sec.'' @ [CHR 10])"

text \<open>One exchange of a number: a pass of the mailbox worker, then a turn of the thread.\<close>

definition exchange_turn :: "nat \<Rightarrow> try_outcomes \<Rightarrow> (pp_world ctx, unit) cpp" where
  "exchange_turn fuel oc = seqM (mailbox_worker oc) (thread_turn (pp_vtable True) fuel)"

section \<open>The start of the program\<close>

text \<open>
  The states of the program up to the first message, written out and shown to be what the operations
  produce: the context, the actor \<^verbatim>\<open>ping\<close>, and \<^verbatim>\<open>pong\<close> with the first number on its way.
\<close>

definition pp_uc :: "64 word \<Rightarrow> string \<Rightarrow> user_context" where
  "pp_uc i path = \<lparr>uc_addr = address_of (Id_t i) path, uc_name = usercontext_name ''system_0'' (Id_t i)\<rparr>"

definition pp_obj :: "actor_class \<Rightarrow> 64 word \<Rightarrow> string \<Rightarrow> base_actor" where
  "pp_obj k i path = (base_actor_new k)\<lparr>self_address := address_of (Id_t i) path, self_ctx := Some (pp_uc i path)\<rparr>"

definition pp_desc :: "actor_ptr \<Rightarrow> 64 word \<Rightarrow> string \<Rightarrow> id_t \<Rightarrow> id_t list \<Rightarrow> description" where
  "pp_desc a i path p cs = \<lparr>d_actor = a, d_address = address_of (Id_t i) path, d_settings = defsettings,
     d_usrcont = Some (pp_uc i path), d_name = path, d_parent = p, d_children = cs\<rparr>"

definition pp_tp :: "thread_kind_t \<Rightarrow> nat \<Rightarrow> posted_task task_wrapper list \<Rightarrow> posted_task threads_pool" where
  "pp_tp k done q = \<lparr>tp_params = \<lparr>pp_threads_count = 1, pp_kind = k\<rparr>, in_queue = q, stop_flag = False,
     is_stoped = False, task_runned = 0, workers = [W_loop],
     results = (\<lambda>r. \<not> (1 \<le> r \<and> r \<le> done))\<rparr>"

definition pp_tm ::
    "nat \<Rightarrow> posted_task task_wrapper list \<Rightarrow> posted_task task_wrapper list \<Rightarrow> posted_task thread_manager" where
  "pp_tm done uq sq = \<lparr>tm_stoping_begin = False, tm_stoped = False, tm_params = context_pools defparams,
     tm_pools = [(USER, pp_tp USER done uq), (SYSTEM, pp_tp SYSTEM 0 sq)]\<rparr>"

definition start_task :: "actor_ptr \<Rightarrow> posted_task task_wrapper" where
  "start_task p = wrap_task (T_on_start p, SINGLE) (Suc p)"

abbreviation worker_task :: "posted_task task_wrapper" where
  "worker_task \<equiv> wrap_task (T_mailbox_worker, REPEAT) 0"

definition pp_new :: "pp_world ctx" where
  "pp_new = \<lparr>objs = (\<lambda>_. base_actor_new User_actor), mbs = (\<lambda>_. mailbox_new), usr = pp_world_new,
     double_checks = True, cx_params = defparams, cx_name = ''system_0'', cx_tm = Some (pp_tm 0 [] []),
     cx_lock = Unlocked, next_actor_id = 1, actors = [], id_by_name = [], mboxes = [],
     cx_xlock = Unlocked, exchanges = [], stopping_begin = False, root_addr = address_default,
     usr_root = address_default, sys_root = address_default, next_mb = 0, next_obj = 0, next_result = 0\<rparr>"

definition pp_roots :: "pp_world ctx" where
  "pp_roots = pp_new\<lparr>objs := (objs pp_new)(0 := pp_obj Root_actor 1 ''/root'', 1 := pp_obj Usr_actor 2 ''/root/usr'',
       2 := pp_obj Sys_actor 3 ''/root/sys''),
     cx_tm := Some (pp_tm 0 [start_task 0, start_task 1, start_task 2] [worker_task]), next_actor_id := 4,
     actors := [(Id_t 1, pp_desc 0 1 ''/root'' id_default [Id_t 3, Id_t 2]),
       (Id_t 2, pp_desc 1 2 ''/root/usr'' (Id_t 1) []), (Id_t 3, pp_desc 2 3 ''/root/sys'' (Id_t 1) [])],
     id_by_name := [(''/root'', Id_t 1), (''/root/usr'', Id_t 2), (''/root/sys'', Id_t 3)],
     mboxes := [(Id_t 1, 0), (Id_t 2, 1), (Id_t 3, 2)], root_addr := address_of (Id_t 1) ''/root'',
     usr_root := address_of (Id_t 2) ''/root/usr'', sys_root := address_of (Id_t 3) ''/root/sys'',
     next_mb := 3, next_obj := 3, next_result := 4\<rparr>"

definition pp_ping :: "pp_world ctx" where
  "pp_ping = pp_roots\<lparr>objs := (objs pp_roots)(3 := pp_obj User_actor 4 ''/root/usr/ping''),
     cx_tm := Some (pp_tm 0 [start_task 0, start_task 1, start_task 2, start_task 3] [worker_task]), next_actor_id := 5,
     actors := [(Id_t 1, pp_desc 0 1 ''/root'' id_default [Id_t 3, Id_t 2]),
       (Id_t 2, pp_desc 1 2 ''/root/usr'' (Id_t 1) [Id_t 4]), (Id_t 3, pp_desc 2 3 ''/root/sys'' (Id_t 1) []),
       (Id_t 4, pp_desc 3 4 ''/root/usr/ping'' (Id_t 2) [])],
     id_by_name := [(''/root'', Id_t 1), (''/root/usr'', Id_t 2), (''/root/sys'', Id_t 3), (''/root/usr/ping'', Id_t 4)],
     mboxes := [(Id_t 1, 0), (Id_t 2, 1), (Id_t 3, 2), (Id_t 4, 3)], next_mb := 4, next_obj := 4, next_result := 5\<rparr>"

lemmas pp_defs = pp_new_def pp_roots_def pp_ping_def pp_tm_def pp_tp_def pp_desc_def pp_obj_def pp_uc_def start_task_def
  pp_world_new_def defparams_def context_pools_def USER_def SYSTEM_def

lemma pp_new_run: "context_new True defparams [] 0 pp_world_new = Inr (pp_new, 1)"
proof -
  have "string_of_nat 0 = ''0''" by code_simp
  then show ?thesis by (simp add: pp_defs context_new_def context_name_def thread_manager_new_def threads_pool_new_def)
qed

lemma pp_roots_run: "context_start (pp_vtable True) pp_new = (Inr (), pp_roots)"
  by (simp add: context_start_def make_actor_def sys_post_def network_init_def pp_vtable_def pp_defs add_defs fun_eq_iff)

lemma pp_ping_run: "bindM (new_actor User_actor) (\<lambda>a. seqM (set_pp_class Ping_actor a)
    (add_actor (pp_vtable True) ''ping'' a)) pp_roots = (Inr (address_of (Id_t 4) ''/root/usr/ping''), pp_ping)"
  by (simp add: set_pp_class_def pp_vtable_def pp_defs add_defs fun_eq_iff)

lemma pp_main_run: "pp_main = Inr (address_of (Id_t 4) ''/root/usr/ping'', pp_ping)"
  using pp_ping_run by (simp add: pp_main_def make_context_def pp_new_run pp_roots_run del: new_actor_app)

text \<open>The start tasks: those of the root actors do nothing, \<^verbatim>\<open>ping\<close>'s makes \<^verbatim>\<open>pong\<close> and sends it 0, \<^verbatim>\<open>pong\<close>'s does nothing.\<close>

definition pp_waiting :: "nat \<Rightarrow> posted_task task_wrapper list \<Rightarrow> pp_world ctx" where
  "pp_waiting done q = pp_ping\<lparr>cx_tm := Some (pp_tm done q [worker_task])\<rparr>"

definition pp_made :: "posted_task thread_manager \<Rightarrow> envelope list \<Rightarrow> actor_address \<Rightarrow> pp_world ctx" where
  "pp_made m box pong = pp_ping\<lparr>objs := (objs pp_ping)(4 := pp_obj User_actor 5 ''/root/usr/ping/pong''),
     mbs := (mbs pp_ping)(4 := \<lparr>dqueue = box\<rparr>),
     usr := pp_world_new\<lparr>pp_class_of := (\<lambda>_. Ping_actor)(4 := Pong_actor),
       pong_addr := (\<lambda>_. address_default)(3 := pong)\<rparr>,
     cx_tm := Some m, next_actor_id := 6,
     actors := [(Id_t 1, pp_desc 0 1 ''/root'' id_default [Id_t 3, Id_t 2]),
       (Id_t 2, pp_desc 1 2 ''/root/usr'' (Id_t 1) [Id_t 4]), (Id_t 3, pp_desc 2 3 ''/root/sys'' (Id_t 1) []),
       (Id_t 4, pp_desc 3 4 ''/root/usr/ping'' (Id_t 2) [Id_t 5]),
       (Id_t 5, pp_desc 4 5 ''/root/usr/ping/pong'' (Id_t 4) [])],
     id_by_name := [(''/root'', Id_t 1), (''/root/usr'', Id_t 2), (''/root/sys'', Id_t 3), (''/root/usr/ping'', Id_t 4),
       (''/root/usr/ping/pong'', Id_t 5)],
     mboxes := [(Id_t 1, 0), (Id_t 2, 1), (Id_t 3, 2), (Id_t 4, 3), (Id_t 5, 4)], next_mb := 5, next_obj := 5,
     next_result := 6\<rparr>"

lemmas turn_defs = thread_turn_def take_first_def finish_first_def with_user_pool_def set_worker_def thread_run_def
  tkind_check_def call_on_start_def vt_of_def library_class_def base_vtable_def base_on_start_def
  select_task_def user_tasks_def tm_queue_def task_result_unlock_def wrap_task_def seqM_def

lemma pp_turn_roots:
  "thread_turn (pp_vtable True) fuel (pp_waiting 0 (start_task 0 # q)) = (Inr (), pp_waiting 1 q)"
  "thread_turn (pp_vtable True) fuel (pp_waiting 1 (start_task 1 # q)) = (Inr (), pp_waiting 2 q)"
  "thread_turn (pp_vtable True) fuel (pp_waiting 2 (start_task 2 # q)) = (Inr (), pp_waiting 3 q)"
  by (simp_all add: pp_waiting_def pp_defs turn_defs pp_vtable_def base_actor_new_def fun_eq_iff, auto)

text \<open>The thread manager while the thread is inside the start task of \<^verbatim>\<open>ping\<close>.\<close>

definition pp_busy_tm :: "posted_task task_wrapper list \<Rightarrow> posted_task thread_manager" where
  "pp_busy_tm q = \<lparr>tm_stoping_begin = False, tm_stoped = False, tm_params = context_pools defparams,
     tm_pools = [(USER, (pp_tp USER 3 q)\<lparr>task_runned := 1, workers := [W_running (start_task 3)]\<rparr>),
       (SYSTEM, pp_tp SYSTEM 0 [worker_task])]\<rparr>"

abbreviation ping_address :: actor_address where
  "ping_address \<equiv> address_of (Id_t 4) ''/root/usr/ping''"

abbreviation pong_address :: actor_address where
  "pong_address \<equiv> address_of (Id_t 5) ''/root/usr/ping/pong''"

definition pp_ball :: "32 word \<Rightarrow> actor_address \<Rightarrow> envelope" where
  "pp_ball v from = \<lparr>payload = payload_of (V_int v), sender = from\<rparr>"

definition pp_start :: "pp_world ctx" where
  "pp_start = pp_made (pp_tm 5 [] [worker_task]) [pp_ball 0 ping_address] pong_address"

lemma pp_take_ping: "take_first (pp_waiting 3 [start_task 3]) = pp_ping\<lparr>cx_tm := Some (pp_busy_tm [])\<rparr>"
  by (simp add: pp_waiting_def pp_busy_tm_def pp_defs turn_defs)

lemma pp_add_pong:
  "bindM (new_actor User_actor) (\<lambda>a. seqM (set_pp_class Pong_actor a)
     (add_actor_under base_vtable ''pong'' ping_address a)) (pp_ping\<lparr>cx_tm := Some (pp_busy_tm [])\<rparr>) =
   (Inr pong_address, pp_made (pp_busy_tm [start_task 4]) [] address_default)"
proof -
  have "usercontext_name ''system_0'' (Id_t 5) \<noteq> ''/root/usr/ping/pong''" by code_simp
  then show ?thesis by (simp add: pp_made_def set_pp_class_def pp_busy_tm_def pp_defs add_defs mailbox_new_def fun_eq_iff)
qed

lemma pp_ping_sel:
  "self_ctx (objs pp_ping 3) = Some (pp_uc 4 ''/root/usr/ping'')" "stopping_begin pp_ping = False"
  "uc_addr (pp_uc 4 ''/root/usr/ping'') = ping_address" "next_obj pp_ping = 4" "pp_class_of (usr pp_ping) p = Ping_actor"
  "class_of (objs pp_ping 3) = User_actor" "double_checks pp_ping"
  by (simp_all add: pp_defs base_actor_new_def)

lemma pp_made_sel:
  "self_ctx (objs (pp_made m b pa) 3) = Some (pp_uc 4 ''/root/usr/ping'')" "\<not> stopping_begin (pp_made m b pa)"
  "cx_lock (pp_made m b pa) = Unlocked" "mbox_at (pp_made m b pa) (Id_t 5) = Some 4" "queue_at (pp_made m b pa) 4 = b"
  "mbox_at (pp_made m b pa) (Id_t 4) = Some 3" "class_of (objs (pp_made m b pa) 4) = User_actor"
  "pp_class_of (usr (pp_made m b pa)) 4 = Pong_actor" "double_checks (pp_made m b pa)"
  by (simp_all add: pp_made_def pp_defs base_actor_new_def)

lemmas uc_send_ball = uc_send_value [where v = "V_int w" for w, folded pp_ball_def]

lemma pp_paths: "aa_pathname ping_address \<noteq> null_pathname" "aa_pathname pong_address \<noteq> null_pathname"
  by (simp_all add: null_pathname_def)

lemma pp_first_ball:
  "ping_on_start True 3 (pp_ping\<lparr>cx_tm := Some (pp_busy_tm [])\<rparr>) =
     (Inr (), pp_made (pp_busy_tm [start_task 4]) [pp_ball 0 ping_address] pong_address)"
proof -
  let ?s = "pp_made (pp_busy_tm [start_task 4]) [] address_default"
  have set: "?s\<lparr>usr := (usr ?s)\<lparr>pong_addr := (pong_addr (usr ?s))(3 := pong_address)\<rparr>\<rparr> =
      pp_made (pp_busy_tm [start_task 4]) [] pong_address"
    by (simp add: pp_made_def)
  have "ping True 3 pong_address 0 (pp_made (pp_busy_tm [start_task 4]) [] pong_address) =
      (Inr (), pp_made (pp_busy_tm [start_task 4]) [pp_ball 0 ping_address] pong_address)"
    using uc_send_ball [of "pp_made (pp_busy_tm [start_task 4]) [] pong_address" pong_address "pp_uc 4 ''/root/usr/ping''" 4 0]
      pp_paths pp_ping_sel(3)
    by (simp add: ping_def get_context_def pp_made_sel) (simp add: pp_made_def)
  then show ?thesis
    using pp_add_pong set by (simp add: ping_on_start_def get_context_def pp_ping_sel uc_add_actor_def set_pp_class_def)
qed

lemma pp_turn_ping:
  "thread_turn (pp_vtable True) fuel (pp_waiting 3 [start_task 3]) =
     (Inr (), pp_made (pp_tm 4 [start_task 4] [worker_task]) [pp_ball 0 ping_address] pong_address)"
proof -
  have t: "select_task (user_tasks (pp_waiting 3 [start_task 3])) = Some (start_task 3)"
    by (simp add: pp_waiting_def user_tasks_def tm_queue_def pp_tm_def pp_tp_def select_task_def start_task_def wrap_task_def)
  have "call_on_start (pp_vtable True) 3 (pp_ping\<lparr>cx_tm := Some (pp_busy_tm [])\<rparr>) =
      ping_on_start True 3 (pp_ping\<lparr>cx_tm := Some (pp_busy_tm [])\<rparr>)"
    by (simp add: call_on_start_def vt_of_def library_class_def pp_ping_sel pp_vtable_def)
  then have "thread_run (pp_vtable True) fuel all_locks USER (tw_task (start_task 3)) (pp_ping\<lparr>cx_tm := Some (pp_busy_tm [])\<rparr>) =
      (Inr SINGLE, pp_made (pp_busy_tm [start_task 4]) [pp_ball 0 ping_address] pong_address)"
    by (simp add: thread_run_def start_task_def wrap_task_def tkind_check_def pp_first_ball)
  then have "thread_turn (pp_vtable True) fuel (pp_waiting 3 [start_task 3]) = (Inr (), finish_first (start_task 3)
      (pp_made (pp_busy_tm [start_task 4]) [pp_ball 0 ping_address] pong_address))"
    by (intro thread_turn_single [OF t]) (simp add: pp_take_ping)
  moreover have "finish_first (start_task 3) (pp_made (pp_busy_tm [start_task 4]) b pa) =
      pp_made (pp_tm 4 [start_task 4] [worker_task]) b pa" for b pa
    by (simp add: finish_first_def pp_made_def pp_busy_tm_def with_user_pool_def set_worker_def pp_defs
        wrap_task_def task_result_unlock_def fun_eq_iff) auto
  ultimately show ?thesis by simp
qed

lemma pp_turn_pong:
  "thread_turn (pp_vtable True) fuel (pp_made (pp_tm 4 [start_task 4] [worker_task]) [pp_ball 0 ping_address] pong_address) =
     (Inr (), pp_start)"
  by (simp add: pp_start_def pp_made_def turn_defs pp_defs pp_vtable_def base_actor_new_def fun_eq_iff) auto

lemma pp_boot: "forM [0..<5] (\<lambda>_. thread_turn (pp_vtable True) fuel) pp_ping = (Inr (), pp_start)"
proof -
  have p: "pp_ping = pp_waiting 0 [start_task 0, start_task 1, start_task 2, start_task 3]"
    by (simp add: pp_waiting_def pp_ping_def)
  have "[0..<5::nat] = [0, 1, 2, 3, 4]" by code_simp
  then show ?thesis
    unfolding p by (simp add: pp_turn_roots pp_turn_ping pp_turn_pong seqM_def bindM_def del: One_nat_def)
qed

section \<open>One exchange\<close>

text \<open>The user pool with its one thread free and nothing queued.\<close>

definition pool_free :: "'u ctx \<Rightarrow> posted_task thread_manager \<Rightarrow> posted_task threads_pool \<Rightarrow> bool" where
  "pool_free s m p \<longleftrightarrow> cx_tm s = Some m \<and> map_of (tm_pools m) USER = Some p \<and> \<not> tm_stoping_begin m \<and> \<not> is_stoped p \<and>
     \<not> stop_flag p \<and> workers p = [W_loop] \<and> in_queue p = []"

definition queued :: "ctx_task \<Rightarrow> 'u ctx \<Rightarrow> posted_task thread_manager \<Rightarrow> posted_task threads_pool \<Rightarrow> 'u ctx" where
  "queued f s m p = (with_user_pool (p\<lparr>in_queue := [wrap_task (f, SINGLE) (next_result s)]\<rparr>) m s)\<lparr>next_result := Suc (next_result s)\<rparr>"

lemma user_post_free:
  assumes "pool_free s m p"
  shows "\<exists>r. user_post f SINGLE s = (Inr r, queued f s m p)"
  using assms
  by (auto simp: pool_free_def user_post_def post_task_def tm_post_def pool_post_def push_task_def queued_def with_user_pool_def Let_def)

lemma pool_free_upd [simp]:
  "pool_free (s\<lparr>cx_lock := l\<rparr>) m p = pool_free s m p" "pool_free (s\<lparr>objs := f\<rparr>) m p = pool_free s m p"
  by (simp_all add: pool_free_def)

lemma queued_upd [simp]:
  "(queued f (s\<lparr>cx_lock := l\<rparr>) m p)\<lparr>cx_lock := k\<rparr> = (queued f s m p)\<lparr>cx_lock := k\<rparr>"
  "exchanges (queued f s m p) = exchanges s" "cx_lock (queued f s m p) = cx_lock s" "cx_xlock (queued f s m p) = cx_xlock s"
  "mbs (queued f s m p) = mbs s" "objs (queued f s m p) = objs s"
  by (simp_all add: queued_def with_user_pool_def)

text \<open>A pass of the mailbox worker over a context without exchanges in which one mailbox is filled.\<close>

lemma dispatch_all_idle: "list_all (\<lambda>(i, m). queue_at s m = []) kvs \<Longrightarrow> dispatch_all kvs s = (Inr [], s)"
  by (induction kvs) (auto simp: bindM_def)

lemma dispatch_all_append:
  "dispatch_all kvs s = (Inr [], t) \<Longrightarrow> dispatch_all kvs' t = (Inr [], u) \<Longrightarrow> dispatch_all (kvs @ kvs') s = (Inr [], u)"
proof (induction kvs arbitrary: s)
  case (Cons kv kvs)
  from Cons.prems(1) obtain s1 where s1: "dispatch_one kv s = (Inr False, s1)" "dispatch_all kvs s1 = (Inr [], t)"
    by (auto simp: bindM_def List.insert_def simp del: dispatch_one.simps split: prod.splits sum.splits if_splits)
  from Cons.IH [OF s1(2) Cons.prems(2)] s1(1) show ?case by (simp add: bindM_def del: dispatch_one.simps)
qed simp

definition marked :: "actor_ptr \<Rightarrow> 'u ctx \<Rightarrow> 'u ctx" where
  "marked a s = s\<lparr>objs := (objs s)(a := (objs s a)\<lparr>busy := True\<rparr>)\<rparr>"

lemma worker_pass_one:
  assumes un: "unlocked s" and ex: "exchanges s = []" and sh: "o_shared oc" and pf: "pool_free s tm tp"
    and mb: "mboxes s = pre @ (i, m) # post" "list_all (\<lambda>(i, m). queue_at s m = []) (pre @ post)" "queue_at s m \<noteq> []"
    and d: "actor_at s i = Some d" "\<not> busy (objs s (d_actor d))" "\<not> id_empty (d_parent d)" "actor_at s (d_parent d) = Some pd"
  shows "mailbox_worker oc s = (Inr (), queued (T_apply d (Some (d_actor pd)) m) (marked (d_actor d) s) tm tp)"
proof -
  let ?u = "s\<lparr>cx_lock := Shared\<rparr>" and ?f = "T_apply d (Some (d_actor pd)) m"
  let ?q = "(queued ?f (marked (d_actor d) s) tm tp)"
  have "pool_free (marked (d_actor d) ?u) tm tp" using pf by (simp add: marked_def pool_free_def)
  from user_post_free [OF this, of ?f] obtain r where
    post: "user_post ?f SINGLE (marked (d_actor d) ?u) = (Inr r, queued ?f (marked (d_actor d) ?u) tm tp)" ..
  have q: "queued ?f (marked (d_actor d) ?u) tm tp = ?q\<lparr>cx_lock := Shared\<rparr>"
    by (simp add: queued_def marked_def with_user_pool_def)
  have "dispatch_one (i, m) ?u = (Inr False, ?q\<lparr>cx_lock := Shared\<rparr>)"
    using mb(3) d post q by (simp add: parent_actor_def marked_def)
  then have "dispatch_all ((i, m) # post) ?u = (Inr [], ?q\<lparr>cx_lock := Shared\<rparr>)"
    using mb(2) dispatch_all_idle [of "?q\<lparr>cx_lock := Shared\<rparr>" post]
    by (simp add: bindM_def marked_def del: dispatch_one.simps)
  then have "dispatch_all (mboxes s) ?u = (Inr [], ?q\<lparr>cx_lock := Shared\<rparr>)"
    unfolding mb(1) using mb(2) by (intro dispatch_all_append [OF dispatch_all_idle]) simp_all
  moreover have "with_xexcl clean_exchanges (?q\<lparr>cx_lock := Shared\<rparr>) = (Inr (), ?q\<lparr>cx_lock := Shared\<rparr>)"
    using un ex cx_xlock_idem [of "?q\<lparr>cx_lock := Shared\<rparr>" Unlocked]
    by (simp add: with_xexcl_def clean_exchanges_def marked_def)
  moreover have "?q\<lparr>cx_lock := Unlocked\<rparr> = ?q" using un by (intro cx_lock_idem) (simp add: marked_def)
  moreover have "whenM (o_xshared oc) (with_xshared (whenM (o_excl oc) (with_excl deliver_exchanges))) s = (Inr (), s)"
    using un ex cx_lock_idem [of s Unlocked] cx_xlock_idem [of s Unlocked]
    by (auto simp: whenM_def with_xshared_def with_excl_def deliver_exchanges_def)
  ultimately show ?thesis
    using un sh by (cases "o_xexcl oc") (simp_all add: mailbox_worker_def with_shared_def whenM_def)
qed

text \<open>
  The thread then takes the apply task: the handler runs on the envelope with the mailbox emptied, the actor
  is released, and the parent is told, which the library's default ignores.
\<close>

definition taken :: "ctx_task \<Rightarrow> 'u ctx \<Rightarrow> posted_task thread_manager \<Rightarrow> posted_task threads_pool \<Rightarrow> 'u ctx" where
  "taken f s m p = with_user_pool (p\<lparr>in_queue := [], task_runned := task_runned p + 1,
     workers := [W_running (wrap_task (f, SINGLE) (next_result s))]\<rparr>) m (s\<lparr>next_result := Suc (next_result s)\<rparr>)"

lemma take_queued:
  assumes "pool_free s m p"
  shows "user_tasks (queued f s m p) = [wrap_task (f, SINGLE) (next_result s)]" and "take_first (queued f s m p) = taken f s m p"
proof -
  show q: "user_tasks (queued f s m p) = [wrap_task (f, SINGLE) (next_result s)]"
    by (simp add: user_tasks_def queued_def with_user_pool_def tm_queue_def)
  show "take_first (queued f s m p) = taken f s m p"
    using assms by (simp add: take_first_def queued_def taken_def with_user_pool_def set_worker_def pool_free_def
        select_task_def wrap_task_def update_conv')
qed

lemma finish_taken:
  assumes "pool_free s m p" and "cx_tm t = cx_tm (taken f s m p)"
  shows "\<exists>m' p'. finish_first (wrap_task (f, SINGLE) (next_result s)) t = t\<lparr>cx_tm := Some m'\<rparr> \<and>
    pool_free (t\<lparr>cx_tm := Some m'\<rparr>) m' p'"
  using assms
  by (auto simp: finish_first_def taken_def with_user_pool_def set_worker_def pool_free_def update_conv')

definition pp_said :: "string \<Rightarrow> 32 word \<Rightarrow> pp_world \<Rightarrow> pp_world" where
  "pp_said who v w = w\<lparr>pp_cout := pp_cout w @ who @ string_of_int (sint v) @ [CHR 10]\<rparr>"

definition running :: "pp_world ctx \<Rightarrow> actor_ptr \<Rightarrow> bool" where
  "running s p \<longleftrightarrow> \<not> stopping_begin s \<and> cx_lock s = Unlocked \<and> class_of (objs s p) = User_actor \<and>
     pp_class_of (usr s) = (\<lambda>_. Ping_actor)(4 := Pong_actor) \<and>
     self_ctx (objs s p) = (if p = 4 then Some (pp_uc 5 ''/root/usr/ping/pong'') else Some (pp_uc 4 ''/root/usr/ping''))"

lemma payload_cast_ball: "payload_cast T_int (payload (pp_ball v a)) = Inr (V_int v)" "sender (pp_ball v a) = a" "sendable (pp_ball v a)"
  by (simp_all add: payload_cast_def pp_ball_def payload_of_def sendable_def payload_empty_def)

lemma pong_handles:
  assumes "running s 4" and "mbox_at s (Id_t 4) = Some 3" and "sint v \<noteq> 2 ^ 31 - 1"
  shows "call_action_handle (pp_vtable True) 4 (pp_ball v ping_address) s = (Inr (), s\<lparr>usr := pp_said ''pong: '' v (usr s),
    mbs := (mbs s)(3 := (mbs s 3)\<lparr>dqueue := queue_at s 3 @ [pp_ball (v + 1) pong_address]\<rparr>)\<rparr>)"
  using assms uc_send_ball [of "s\<lparr>usr := pp_said ''pong: '' v (usr s)\<rparr>" ping_address "pp_uc 5 ''/root/usr/ping/pong''" 3 "v + 1"]
    pp_paths
  by (simp add: running_def call_action_handle_def vt_of_def library_class_def pp_vtable_def pong_action_handle_def
      payload_cast_ball print_value_def pp_said_def get_context_def int_succ_def pp_uc_def)

lemma ping_handles:
  assumes "running s 3" and "mbox_at s (Id_t 5) = Some 4" and "sint v \<noteq> 2 ^ 31 - 1"
  shows "call_action_handle (pp_vtable True) 3 (pp_ball v pong_address) s = (Inr (),
    s\<lparr>usr := (pp_said ''ping: '' v (usr s))\<lparr>pings := pings (usr s) + 1\<rparr>,
    mbs := (mbs s)(4 := (mbs s 4)\<lparr>dqueue := queue_at s 4 @ [pp_ball (v + 1) ping_address]\<rparr>)\<rparr>)"
  using assms uc_send_ball [of "s\<lparr>usr := (pp_said ''ping: '' v (usr s))\<lparr>pings := pings (usr s) + 1\<rparr>\<rparr>" pong_address
      "pp_uc 4 ''/root/usr/ping''" 4 "v + 1"] pp_paths
  by (simp add: running_def call_action_handle_def vt_of_def library_class_def pp_vtable_def ping_action_handle_def ping_def
      payload_cast_ball print_value_def pp_said_def get_context_def int_succ_def pp_uc_def)

text \<open>When the number is the largest of its type, \<^verbatim>\<open>ping\<close> counts and prints it, and its sum overflows.\<close>

lemma ping_overflows:
  assumes "running s 3" and "sint v = 2 ^ 31 - 1"
  shows "\<exists>t. call_action_handle (pp_vtable True) 3 (pp_ball v pong_address) s = (Inl Overflow, t)"
  using assms
  by (simp add: running_def call_action_handle_def vt_of_def library_class_def pp_vtable_def ping_action_handle_def
      payload_cast_ball print_value_def int_succ_def)

lemma exchange_turn_run:
  assumes un: "unlocked s" and ex: "exchanges s = []" and sh: "o_shared oc" and pf: "pool_free s tm tp"
    and mb: "mboxes s = pre @ (i, m) # post" "list_all (\<lambda>(i, m). queue_at s m = []) (pre @ post)" "queue_at s m = [e]"
    and d: "actor_at s i = Some d" "\<not> busy (objs s (d_actor d))" "\<not> id_empty (d_parent d)" "actor_at s (d_parent d) = Some pd"
    and s1: "s1 = taken (T_apply d (Some (d_actor pd)) m) (marked (d_actor d) s) tm tp"
    and h: "call_action_handle (pp_vtable True) (d_actor d) e (s1\<lparr>mbs := (mbs s)(m := (mbs s m)\<lparr>dqueue := []\<rparr>)\<rparr>) = (Inr (), t)"
      "sendable e" "queue_at t m = []" "cx_tm t = cx_tm s1"
  shows "\<exists>m' p'. exchange_turn (Suc (Suc n)) oc s = (Inr (),
      t\<lparr>objs := (objs t)(d_actor d := reset_busy (update_status NORMAL (objs t (d_actor d)))), cx_tm := Some m'\<rparr>) \<and>
    pool_free (t\<lparr>objs := (objs t)(d_actor d := reset_busy (update_status NORMAL (objs t (d_actor d)))), cx_tm := Some m'\<rparr>) m' p'"
proof -
  let ?f = "T_apply d (Some (d_actor pd)) m" and ?a = "d_actor d"
  let ?t = "t\<lparr>objs := (objs t)(?a := reset_busy (update_status NORMAL (objs t ?a)))\<rparr>"
  have pass: "mailbox_worker oc s = (Inr (), queued ?f (marked ?a s) tm tp)"
    using worker_pass_one [OF un ex sh pf mb(1,2) _ d] mb(3) by simp
  have pf': "pool_free (marked ?a s) tm tp" using pf by (simp add: marked_def)
  have s1': "mbs s1 = mbs s" "busy (objs s1 ?a)" by (simp_all add: s1 taken_def with_user_pool_def marked_def)
  have "actor_apply (Suc (Suc n)) dc (call_action_handle (pp_vtable True) ?a) ?a m s1 = (Inr (), ?t)" for dc
    using h mb(3) by (intro apply_single_message) (simp_all add: s1')
  moreover have "call_on_child_status (pp_vtable True) p addr NORMAL ?t = (Inr (), ?t)" for p addr
    by (simp add: call_on_child_status_def vt_of_def pp_vtable_def base_vtable_def base_on_child_status_def)
  ultimately have "thread_run (pp_vtable True) (Suc (Suc n)) all_locks USER (?f, SINGLE) s1 = (Inr SINGLE, ?t)"
    by (simp add: thread_run_def tkind_check_def apply_actor_to_mailbox_def tryM_def)
  then have turn: "thread_turn (pp_vtable True) (Suc (Suc n)) (queued ?f (marked ?a s) tm tp) =
      (Inr (), finish_first (wrap_task (?f, SINGLE) (next_result (marked ?a s))) ?t)"
    by (intro thread_turn_single)
      (simp_all add: take_queued [OF pf'] s1 [symmetric], simp_all add: select_task_def wrap_task_def)
  have "cx_tm ?t = cx_tm (taken ?f (marked ?a s) tm tp)" using h(4) by (simp add: s1)
  from finish_taken [OF pf' this] obtain m' p' where
    f: "finish_first (wrap_task (?f, SINGLE) (next_result (marked ?a s))) ?t = ?t\<lparr>cx_tm := Some m'\<rparr>"
      "pool_free (?t\<lparr>cx_tm := Some m'\<rparr>) m' p'" by blast
  show ?thesis
    using pass turn f by (intro exI [of _ m'] exI [of _ p']) (simp add: exchange_turn_def)
qed

section \<open>The rally\<close>

text \<open>
  The program after \<open>k\<close> exchanges: \<open>k\<close> lies in the mailbox of the actor whose turn it is, \<^verbatim>\<open>pong\<close> for even \<open>k\<close>, every
  other mailbox is empty, the actors are idle, the thread is free, and half of the exchanges were
  counted.
\<close>

definition pp_line :: "nat \<Rightarrow> string" where
  "pp_line k = (if even k then ''pong: '' else ''ping: '') @ string_of_nat k @ [CHR 10]"

definition pp_frame :: "pp_world ctx \<Rightarrow> bool" where
  "pp_frame s \<longleftrightarrow> unlocked s \<and> \<not> stopping_begin s \<and> exchanges s = [] \<and>
     actors s = actors pp_start \<and> mboxes s = mboxes pp_start \<and>
     (\<forall>p. \<not> busy (objs s p) \<and> class_of (objs s p) = class_of (objs pp_start p) \<and>
       self_ctx (objs s p) = self_ctx (objs pp_start p)) \<and>
     pp_class_of (usr s) = (\<lambda>_. Ping_actor)(4 := Pong_actor) \<and> (\<exists>m p. pool_free s m p)"

definition rally :: "nat \<Rightarrow> pp_world ctx \<Rightarrow> bool" where
  "rally k s \<longleftrightarrow> pp_frame s \<and> list_all (\<lambda>b. queue_at s b = []) [0, 1, 2] \<and>
     (if even k then queue_at s 3 = [] \<and> queue_at s 4 = [pp_ball (of_nat k) ping_address]
      else queue_at s 4 = [] \<and> queue_at s 3 = [pp_ball (of_nat k) pong_address]) \<and>
     pings (usr s) = of_nat (k div 2) \<and> pp_cout (usr s) = concat (map pp_line [0..<k])"

lemma pp_start_sel:
  "mboxes pp_start = [(Id_t 1, 0), (Id_t 2, 1), (Id_t 3, 2), (Id_t 4, 3), (Id_t 5, 4)]"
  "map_of (actors pp_start) (Id_t 2) = Some (pp_desc 1 2 ''/root/usr'' (Id_t 1) [Id_t 4])"
  "map_of (actors pp_start) (Id_t 4) = Some (pp_desc 3 4 ''/root/usr/ping'' (Id_t 2) [Id_t 5])"
  "map_of (actors pp_start) (Id_t 5) = Some (pp_desc 4 5 ''/root/usr/ping/pong'' (Id_t 4) [])"
  "class_of (objs pp_start 3) = User_actor" "class_of (objs pp_start 4) = User_actor"
  "self_ctx (objs pp_start 3) = Some (pp_uc 4 ''/root/usr/ping'')"
  "self_ctx (objs pp_start 4) = Some (pp_uc 5 ''/root/usr/ping/pong'')"
  by (simp_all add: pp_start_def pp_made_def pp_defs base_actor_new_def)

lemma rally_start: "rally 0 pp_start"
  by (simp add: rally_def pp_frame_def pp_start_def pp_made_def pp_defs pool_free_def base_actor_new_def mailbox_new_def)

lemma ball_value:
  assumes "k < 2 ^ 31"
  shows "sint (of_nat k :: 32 word) = int k" and "string_of_int (sint (of_nat k :: 32 word)) = string_of_nat k"
proof -
  show "sint (of_nat k :: 32 word) = int k"
    using assms by (simp add: sint_uint unsigned_of_nat take_bit_nat_eq_self signed_take_bit_int_eq_self)
  then show "string_of_int (sint (of_nat k :: 32 word)) = string_of_nat k" by (simp add: string_of_int_def)
qed

lemma running_taken:
  assumes "pp_frame s" and "a = 3 \<or> a = 4"
  shows "running ((taken f (marked a s) m p)\<lparr>mbs := b\<rparr>) a"
  using assms by (auto simp: pp_frame_def running_def taken_def with_user_pool_def marked_def pp_start_sel)

lemma pp_frame_next:
  assumes "pp_frame s" and "t = (taken f (marked a s) m p)\<lparr>mbs := b, usr := w, mbs := b'\<rparr>"
    and "u = t\<lparr>objs := (objs t)(a := reset_busy (update_status NORMAL (objs t a))), cx_tm := Some m'\<rparr>"
    and "pool_free u m' p'" and "pp_class_of w = (\<lambda>_. Ping_actor)(4 := Pong_actor)"
  shows "pp_frame u"
  using assms
  by (auto simp: pp_frame_def taken_def with_user_pool_def marked_def reset_busy_def update_status_def)

lemma frame_turn:
  assumes f: "pp_frame s" and sh: "o_shared oc"
    and mb: "mboxes pp_start = pre @ (i, m) # post" "list_all (\<lambda>(i, m). queue_at s m = []) (pre @ post)" "queue_at s m = [e]"
    and d: "map_of (actors pp_start) i = Some d" "\<not> id_empty (d_parent d)" "map_of (actors pp_start) (d_parent d) = Some pd"
    and b: "b = (mbs s)(m := (mbs s m)\<lparr>dqueue := []\<rparr>)"
    and h: "\<And>s1 tm tp. s1 = taken (T_apply d (Some (d_actor pd)) m) (marked (d_actor d) s) tm tp \<Longrightarrow>
        call_action_handle (pp_vtable True) (d_actor d) e (s1\<lparr>mbs := b\<rparr>) = (Inr (), s1\<lparr>mbs := b, usr := w, mbs := b'\<rparr>)"
    and e: "sendable e" "dqueue (b' m) = []" "pp_class_of w = pp_class_of (usr s)"
  shows "\<exists>u. exchange_turn (Suc (Suc n)) oc s = (Inr (), u) \<and> pp_frame u \<and> usr u = w \<and> mbs u = b'"
proof -
  from f obtain tm tp where pf: "pool_free s tm tp" by (auto simp: pp_frame_def)
  define s1 where s1: "s1 = taken (T_apply d (Some (d_actor pd)) m) (marked (d_actor d) s) tm tp"
  let ?t = "s1\<lparr>mbs := b, usr := w, mbs := b'\<rparr>" and ?a = "d_actor d"
  have "\<exists>m' p'. exchange_turn (Suc (Suc n)) oc s = (Inr (),
      ?t\<lparr>objs := (objs ?t)(?a := reset_busy (update_status NORMAL (objs ?t ?a))), cx_tm := Some m'\<rparr>) \<and>
    pool_free (?t\<lparr>objs := (objs ?t)(?a := reset_busy (update_status NORMAL (objs ?t ?a))), cx_tm := Some m'\<rparr>) m' p'"
    using f mb d h [OF s1] e
    by (intro exchange_turn_run [OF _ _ sh pf _ mb(2,3) _ _ d(2) _ s1])
      (simp_all add: pp_frame_def b [symmetric])
  then obtain m' p' u where u: "u = ?t\<lparr>objs := (objs ?t)(?a := reset_busy (update_status NORMAL (objs ?t ?a))), cx_tm := Some m'\<rparr>"
    and run: "exchange_turn (Suc (Suc n)) oc s = (Inr (), u)" and pf': "pool_free u m' p'" by blast
  have "pp_frame u"
    by (rule pp_frame_next [OF f _ u pf']) (use f e(3) in \<open>simp_all add: s1 pp_frame_def\<close>)
  moreover have "usr u = w" "mbs u = b'" by (simp_all add: u)
  ultimately show ?thesis using run by blast
qed

lemma pong_turn:
  assumes r: "rally k s" and k: "even k" "k < 2 ^ 31 - 1" and sh: "o_shared oc"
  shows "\<exists>s'. exchange_turn (Suc (Suc n)) oc s = (Inr (), s') \<and> rally (Suc k) s'"
proof -
  let ?v = "of_nat k :: 32 word" and ?b = "(mbs s)(4 := (mbs s 4)\<lparr>dqueue := []\<rparr>)"
  let ?b' = "?b(3 := (?b 3)\<lparr>dqueue := [pp_ball (?v + 1) pong_address]\<rparr>)"
  from r have f: "pp_frame s" by (simp add: rally_def)
  have v: "sint ?v \<noteq> 2 ^ 31 - 1" using ball_value(1) [of k] k(2) by simp
  have "\<exists>u. exchange_turn (Suc (Suc n)) oc s = (Inr (), u) \<and> pp_frame u \<and> usr u = pp_said ''pong: '' ?v (usr s) \<and> mbs u = ?b'"
    using r k(1) pong_handles [OF running_taken [OF f] _ v]
    by (intro frame_turn [OF f sh, where i = "Id_t 5" and m = 4 and post = "[]" and b = ?b
          and pre = "[(Id_t 1, 0), (Id_t 2, 1), (Id_t 3, 2), (Id_t 4, 3)]" and e = "pp_ball ?v ping_address"])
      (auto simp: pp_start_sel rally_def pp_frame_def pp_desc_def taken_def with_user_pool_def marked_def payload_cast_ball
        pp_said_def id_default_def)
  then obtain u where "exchange_turn (Suc (Suc n)) oc s = (Inr (), u)" "pp_frame u" "usr u = pp_said ''pong: '' ?v (usr s)"
    "mbs u = ?b'" by blast
  moreover from this have "rally (Suc k) u"
    using r k ball_value(2) [of k] by (simp add: rally_def pp_said_def pp_line_def add.commute)
  ultimately show ?thesis by blast
qed

lemma ping_turn:
  assumes r: "rally k s" and k: "odd k" "k < 2 ^ 31 - 1" and sh: "o_shared oc"
  shows "\<exists>s'. exchange_turn (Suc (Suc n)) oc s = (Inr (), s') \<and> rally (Suc k) s'"
proof -
  let ?v = "of_nat k :: 32 word" and ?b = "(mbs s)(3 := (mbs s 3)\<lparr>dqueue := []\<rparr>)"
  let ?b' = "?b(4 := (?b 4)\<lparr>dqueue := [pp_ball (?v + 1) ping_address]\<rparr>)"
  let ?w = "(pp_said ''ping: '' ?v (usr s))\<lparr>pings := pings (usr s) + 1\<rparr>"
  from r have f: "pp_frame s" by (simp add: rally_def)
  have v: "sint ?v \<noteq> 2 ^ 31 - 1" using ball_value(1) [of k] k(2) by simp
  have "\<exists>u. exchange_turn (Suc (Suc n)) oc s = (Inr (), u) \<and> pp_frame u \<and> usr u = ?w \<and> mbs u = ?b'"
    using r k(1) ping_handles [OF running_taken [OF f] _ v]
    by (intro frame_turn [OF f sh, where i = "Id_t 4" and m = 3 and post = "[(Id_t 5, 4)]" and b = ?b
          and pre = "[(Id_t 1, 0), (Id_t 2, 1), (Id_t 3, 2)]" and e = "pp_ball ?v pong_address"])
      (auto simp: pp_start_sel rally_def pp_frame_def pp_desc_def taken_def with_user_pool_def marked_def payload_cast_ball
        pp_said_def id_default_def)
  then obtain u where "exchange_turn (Suc (Suc n)) oc s = (Inr (), u)" "pp_frame u" "usr u = ?w" "mbs u = ?b'" by blast
  moreover from this have "rally (Suc k) u"
    using r k ball_value(2) [of k] by (simp add: rally_def pp_said_def pp_line_def add.commute)
  ultimately show ?thesis by blast
qed

lemma rally_turn:
  "rally k s \<Longrightarrow> k < 2 ^ 31 - 1 \<Longrightarrow> o_shared oc \<Longrightarrow> \<exists>s'. exchange_turn (Suc (Suc n)) oc s = (Inr (), s') \<and> rally (Suc k) s'"
  using pong_turn ping_turn by blast

lemma rally_turns:
  assumes "rally k s" and "k + length ocs < 2 ^ 31" and "list_all o_shared ocs"
  shows "\<exists>s'. forM ocs (exchange_turn (Suc (Suc n))) s = (Inr (), s') \<and> rally (k + length ocs) s'"
  using assms
proof (induction ocs arbitrary: k s)
  case (Cons oc ocs)
  then obtain s1 where s1: "exchange_turn (Suc (Suc n)) oc s = (Inr (), s1)" "rally (Suc k) s1"
    using rally_turn [of k s oc n] by auto
  with Cons.IH [OF s1(2)] Cons.prems show ?case by simp
qed simp

text \<open>The turn in which the number cannot be increased any more.\<close>

lemma ping_turn_overflows:
  assumes r: "rally (2 ^ 31 - 1) s" and sh: "o_shared oc"
  shows "\<exists>t. exchange_turn (Suc (Suc n)) oc s = (Inl Overflow, t)"
proof -
  let ?v = "of_nat (2 ^ 31 - 1) :: 32 word" and ?d = "pp_desc 3 4 ''/root/usr/ping'' (Id_t 2) [Id_t 5]"
  from r obtain tm tp where f: "pp_frame s" and pf: "pool_free s tm tp" by (auto simp: rally_def pp_frame_def)
  let ?f = "T_apply ?d (Some 1) 3" let ?s1 = "taken ?f (marked 3 s) tm tp"
  have q: "queue_at s 3 = [pp_ball ?v pong_address]" using r by (simp add: rally_def)
  have "mailbox_worker oc s = (Inr (), queued (T_apply ?d (Some (d_actor (pp_desc 1 2 ''/root/usr'' (Id_t 1) [Id_t 4]))) 3)
      (marked (d_actor ?d) s) tm tp)"
    using r f q by (intro worker_pass_one [OF _ _ sh pf, where pre = "[(Id_t 1, 0), (Id_t 2, 1), (Id_t 3, 2)]"
        and post = "[(Id_t 5, 4)]" and i = "Id_t 4"])
      (simp_all add: rally_def pp_frame_def pp_start_sel pp_desc_def id_default_def)
  then have pass: "mailbox_worker oc s = (Inr (), queued ?f (marked 3 s) tm tp)" by (simp add: pp_desc_def)
  have s1: "mbs ?s1 = mbs s" "busy (objs ?s1 3)" by (simp_all add: taken_def with_user_pool_def marked_def)
  have v: "sint ?v = 2 ^ 31 - 1" using ball_value(1) [of "2 ^ 31 - 1"] by simp
  have "running (?s1\<lparr>mbs := (mbs s)(3 := (mbs s 3)\<lparr>dqueue := []\<rparr>)\<rparr>) 3" by (rule running_taken [OF f]) simp
  from ping_overflows [OF this v] obtain t where
    "call_action_handle (pp_vtable True) 3 (pp_ball ?v pong_address)
       (?s1\<lparr>mbs := (mbs s)(3 := (mbs s 3)\<lparr>dqueue := []\<rparr>)\<rparr>) = (Inl Overflow, t)" ..
  then have "apply_loop (Suc (Suc n)) (call_action_handle (pp_vtable True) 3) 3 ?s1 = (Inl Overflow, t)"
    using q s1 payload_cast_ball(3) by simp
  then have "actor_apply (Suc (Suc n)) dc (call_action_handle (pp_vtable True) 3) 3 3 ?s1 = (Inl Overflow, t)" for dc
    using actor_apply_nonempty [of ?s1 3 dc 3] s1 q by (simp add: mailbox_empty_def)
  then have "thread_run (pp_vtable True) (Suc (Suc n)) all_locks USER (?f, SINGLE) ?s1 = (Inl Overflow, t)"
    by (simp add: thread_run_def tkind_check_def apply_actor_to_mailbox_def tryM_def pp_desc_def)
  moreover have "pool_free (marked 3 s) tm tp" using pf by (simp add: marked_def)
  ultimately have "thread_turn (pp_vtable True) (Suc (Suc n)) (queued ?f (marked 3 s) tm tp) = (Inl Overflow, t)"
    by (simp add: thread_turn_def take_queued select_task_def wrap_task_def)
  then show ?thesis using pass by (simp add: exchange_turn_def)
qed

section \<open>What the program does\<close>

lemma pings_apart:
  assumes "pings (usr s) = of_nat (k div 2)" and "pings (usr t) = of_nat ((k + n) div 2)" and "k + n < 2 ^ 31"
  shows "unat (pings (usr t) - pings (usr s)) = (k + n) div 2 - k div 2"
proof -
  have "k div 2 \<le> (k + n) div 2" by (simp add: div_le_mono)
  then have "pings (usr t) - pings (usr s) = (of_nat ((k + n) div 2 - k div 2) :: 64 word)"
    by (simp add: assms of_nat_diff)
  moreover have "unat (of_nat d :: 64 word) = d" if "d < 2 ^ 31" for d
    using that by (simp add: unsigned_of_nat take_bit_nat_eq_self)
  moreover have "(k + n) div 2 - k div 2 < 2 ^ 31" using assms(3) by simp
  ultimately show ?thesis by (simp only:)
qed

text \<open>
  C35: The program plays as it is meant to. After \<^verbatim>\<open>main\<close> made the context and the actor \<^verbatim>\<open>ping\<close>, and the thread of
  the user pool ran the five start tasks, the mailbox worker and the thread exchange the number: whatever
  the outcomes of the worker's other attempts to lock, after \<open>k\<close> exchanges the number \<open>k\<close> lies in the mailbox of the
  actor whose turn it is, every number below \<open>k\<close> was printed once and in order, alternately by \<^verbatim>\<open>pong\<close> and \<^verbatim>\<open>ping\<close>, half of the
  exchanges were counted, and a report between two such moments prints their distance.
\<close>

theorem ping_pong_rally:
  assumes "length ocs + length ocs' < 2 ^ 31" and "list_all o_shared (ocs @ ocs')"
  shows "\<exists>s0 s1 s t. pp_main = Inr (ping_address, s0) \<and> forM [0..<5] (\<lambda>_. thread_turn (pp_vtable True) fuel) s0 = (Inr (), s1) \<and>
    forM ocs (exchange_turn (Suc (Suc n))) s1 = (Inr (), s) \<and> rally (length ocs) s \<and>
    forM ocs' (exchange_turn (Suc (Suc n))) s = (Inr (), t) \<and> rally (length ocs + length ocs') t \<and>
    speed_line (pings (usr s)) (pings (usr t)) =
      '' ping-pong speed: '' @ string_of_nat ((length ocs + length ocs') div 2 - length ocs div 2) @ '' per.sec.'' @ [CHR 10]"
proof -
  from rally_turns [OF rally_start, of ocs n] assms obtain s where
    s: "forM ocs (exchange_turn (Suc (Suc n))) pp_start = (Inr (), s)" "rally (length ocs) s" by auto
  from rally_turns [OF s(2), of ocs' n] assms obtain t where
    t: "forM ocs' (exchange_turn (Suc (Suc n))) s = (Inr (), t)" "rally (length ocs + length ocs') t" by auto
  from s(2) t(2) assms(1) have "unat (pings (usr t) - pings (usr s)) = (length ocs + length ocs') div 2 - length ocs div 2"
    by (intro pings_apart) (simp_all add: rally_def)
  then show ?thesis
    using pp_main_run pp_boot s t by (intro exI conjI) (assumption | simp add: speed_line_def)+
qed

theorem ping_pong_rally_witness:
  "\<exists>s t. forM [all_locks] (exchange_turn 2) pp_start = (Inr (), s) \<and> forM [all_locks, all_locks] (exchange_turn 2) s = (Inr (), t) \<and>
    queue_at t 3 = [pp_ball 3 pong_address] \<and> pings (usr t) = 1 \<and> pp_cout (usr t) = ''pong: 0'' @ [CHR 10] @ ''ping: 1'' @ [CHR 10] @ ''pong: 2'' @ [CHR 10]"
proof -
  have p: "pp_line 0 = ''pong: 0'' @ [CHR 10]" "pp_line 1 = ''ping: 1'' @ [CHR 10]" "pp_line 2 = ''pong: 2'' @ [CHR 10]"
    by code_simp+
  have "[0..<3::nat] = [0, 1, 2]" by code_simp
  with p have out: "concat (map pp_line [0..<3]) = ''pong: 0'' @ [CHR 10] @ ''ping: 1'' @ [CHR 10] @ ''pong: 2'' @ [CHR 10]" by simp
  have two: "Suc (Suc 0) = 2" by simp
  have "o_shared all_locks" by (simp add: all_locks_def)
  then obtain s t where "forM [all_locks] (exchange_turn 2) pp_start = (Inr (), s)"
    "forM [all_locks, all_locks] (exchange_turn 2) s = (Inr (), t)" "rally 3 t"
    using ping_pong_rally [of "[all_locks]" "[all_locks, all_locks]" 0 0]
    by (auto simp add: two pp_main_run pp_boot simp del: forM.simps)
  then show ?thesis using out by (intro exI [of _ s] exI [of _ t]) (simp add: rally_def del: forM.simps)
qed

text \<open>
  C36: The game ends by a signed overflow. After \<open>2\<^sup>31 - 1\<close> exchanges, so \<open>2\<^sup>30 - 1\<close> counted round trips, the number is
  the largest of its type and \<^verbatim>\<open>ping\<close>, whose turn it is, adds one to it, whatever the outcomes of the locks were:
  the behaviour of the program is undefined from there on.
\<close>

theorem ping_pong_overflow:
  assumes "length ocs = 2 ^ 31 - 1" and "list_all o_shared (ocs @ [oc])"
  shows "\<exists>s t. forM ocs (exchange_turn (Suc (Suc n))) pp_start = (Inr (), s) \<and> pings (usr s) = 2 ^ 30 - 1 \<and>
    exchange_turn (Suc (Suc n)) oc s = (Inl Overflow, t)"
proof -
  from rally_turns [OF rally_start, of ocs n] assms obtain s where
    s: "forM ocs (exchange_turn (Suc (Suc n))) pp_start = (Inr (), s)" "rally (2 ^ 31 - 1) s" by auto
  moreover from ping_turn_overflows [OF s(2)] assms(2) obtain t where "exchange_turn (Suc (Suc n)) oc s = (Inl Overflow, t)"
    by fastforce
  ultimately show ?thesis by (auto simp: rally_def)
qed

theorem ping_pong_overflow_witness:
  "\<exists>s t. forM (replicate (2 ^ 31 - 1) all_locks) (exchange_turn 2) pp_start = (Inr (), s) \<and>
    exchange_turn 2 all_locks s = (Inl Overflow, t)"
proof -
  have "list_all o_shared (replicate k all_locks @ [all_locks])" for k by (simp add: list_all_iff all_locks_def)
  from ping_pong_overflow [OF length_replicate this, of 0] show ?thesis by (auto simp: numeral_2_eq_2)
qed

end
