(* ===== verification/Yaaf_Net_Example.thy ===== *)
theory Yaaf_Net_Example
  imports Yaaf_Net_Setup Yaaf_Worker
begin

text \<open>
  The program \<^verbatim>\<open>examples/network_example.cpp\<close>: once connected, a context sends seven bytes to an actor behind a
  listener of another context, which adds them up and sends them back. The theory models its three actors on
  top of the network actors of the library, and follows a message through both contexts. The waiting loops of
  its \<^verbatim>\<open>main\<close> are left out but for the test of the last one.
\<close>

section \<open>The three actors\<close>

datatype ne_class = Listener_actor | Connection_actor | Connection_started_actor

text \<open>The members of the actors, kept beside the state of the network library, which does not touch them.\<close>

record 'y ne_world =
  ne_lib :: 'y
  ne_class_of :: "actor_ptr \<Rightarrow> ne_class"
  ne_started :: "actor_ptr \<Rightarrow> bool"
  ne_sum :: "actor_ptr \<Rightarrow> byte"

type_synonym 'y ne_ctx = "'y ne_world net_ctx"

definition on_lib :: "('y \<Rightarrow> 'y) \<Rightarrow> 'y ne_world \<Rightarrow> 'y ne_world" where
  "on_lib f w = w\<lparr>ne_lib := f (ne_lib w)\<rparr>"

definition lib_new :: "('y \<Rightarrow> nat \<times> 'y) \<Rightarrow> 'y ne_world \<Rightarrow> nat \<times> 'y ne_world" where
  "lib_new f w = (fst (f (ne_lib w)), w\<lparr>ne_lib := snd (f (ne_lib w))\<rparr>)"

definition lift_lib :: "('m, 'y) dialler_lib \<Rightarrow> ('m, 'y ne_world) dialler_lib" where
  "lift_lib dl = \<lparr>dl_msg = dl_msg dl, dl_listener = (\<lambda>port. lib_new (dl_listener dl port)),
     dl_listener_add_consumer = (\<lambda>l p. on_lib (dl_listener_add_consumer dl l p)),
     dl_listener_start = (\<lambda>l. on_lib (dl_listener_start dl l)), dl_listener_wait = (\<lambda>l. on_lib (dl_listener_wait dl l)),
     dl_listener_stop = (\<lambda>l. on_lib (dl_listener_stop dl l)),
     dl_listener_wait_stop = (\<lambda>l. on_lib (dl_listener_wait_stop dl l)), dl_send_to = (\<lambda>p i m. on_lib (dl_send_to dl p i m)),
     dl_dial = (\<lambda>cp. lib_new (dl_dial dl cp)), dl_dial_add_consumer = (\<lambda>l p. on_lib (dl_dial_add_consumer dl l p)),
     dl_start_async = (\<lambda>l. on_lib (dl_start_async dl l)), dl_disconnect = (\<lambda>l. on_lib (dl_disconnect dl l)),
     dl_dial_wait_stop = (\<lambda>l. on_lib (dl_dial_wait_stop dl l)),
     dl_send_async = (\<lambda>h m. on_lib (dl_send_async dl h m))\<rparr>"

definition tst_net_data :: "byte list" where
  "tst_net_data = [0, 1, 2, 3, 4, 5, 6]"

definition accumulate :: "byte list \<Rightarrow> byte \<Rightarrow> byte" where
  "accumulate data init = foldl (+) init data"

definition target_summ :: byte where
  "target_summ = accumulate tst_net_data 0"

definition set_started :: "actor_ptr \<Rightarrow> ('y ne_ctx, unit) cpp" where
  "set_started p = ext_call (\<lambda>w. w\<lparr>ne_started := (ne_started w)(p := True)\<rparr>)"

definition add_data :: "actor_ptr \<Rightarrow> byte list \<Rightarrow> ('y ne_ctx, unit) cpp" where
  "add_data p data = ext_call (\<lambda>w. w\<lparr>ne_sum := (ne_sum w)(p := accumulate data (ne_sum w p))\<rparr>)"

definition listener_on_start :: "actor_ptr \<Rightarrow> ('y ne_ctx, unit) cpp" where
  "listener_on_start p = seqM (set_started p) base_on_start"

definition listener_action_handle :: "bool \<Rightarrow> actor_ptr \<Rightarrow> envelope \<Rightarrow> ('y ne_ctx, unit) cpp" where
  "listener_action_handle live p e =
     bindM (liftM (payload_cast T_listener_message (payload e))) (\<lambda>c. let v = value_listener_message c in
     seqM (add_data p (lam_data v))
     (bindM (get_context live p) (\<lambda>ctx. case ctx of
       None \<Rightarrow> retM ()
     | Some uc \<Rightarrow> uc_send True uc (sender e) (V_listener_message
         \<lparr>lam_sender_id = lam_sender_id v, lam_name = ''/root/usr/connection_actor'', lam_data = lam_data v\<rparr>))))"

definition connection_on_start :: "actor_ptr \<Rightarrow> ('y ne_ctx, unit) cpp" where
  "connection_on_start p = seqM (set_started p) base_on_start"

definition connection_action_handle :: "actor_ptr \<Rightarrow> envelope \<Rightarrow> ('y ne_ctx, unit) cpp" where
  "connection_action_handle p e =
     bindM (liftM (payload_cast T_network_message (payload e))) (\<lambda>c. add_data p (nam_data (value_network_message c)))"

fun value_connection_status :: "cpp_value \<Rightarrow> connection_status_message" where
  "value_connection_status (V_connection_status m) = m"
| "value_connection_status _ = \<lparr>csm_host = [], csm_errormsg = [], csm_is_connected = False\<rparr>"

abbreviation net_name :: string where
  "net_name \<equiv> ''/root/net/localhost:9080''"

definition started_on_start :: "bool \<Rightarrow> actor_ptr \<Rightarrow> ('y ne_ctx, unit) cpp" where
  "started_on_start live p = seqM
     (bindM (get_context live p) (\<lambda>ctx. case ctx of
        None \<Rightarrow> retM ()
      | Some uc \<Rightarrow> uc_subscribe_to_exchange True uc net_name))
     (set_started p)"

definition nmessage :: network_actor_message where
  "nmessage = \<lparr>nam_name = ''/root/usr/listener_actor'', nam_data = tst_net_data\<rparr>"

definition started_action_handle :: "bool \<Rightarrow> actor_ptr \<Rightarrow> envelope \<Rightarrow> ('y ne_ctx, unit) cpp" where
  "started_action_handle live p e =
     bindM (liftM (payload_cast T_connection_status (payload e))) (\<lambda>c.
     whenM (csm_is_connected (value_connection_status c))
       (bindM (get_context live p) (\<lambda>ctx. case ctx of
          None \<Rightarrow> retM ()
        | Some uc \<Rightarrow> bindM (uc_get_address True net_name) (\<lambda>con_actor_addr.
            uc_send True uc con_actor_addr (V_network_message nmessage)))))"

definition ne_vtable :: "bool \<Rightarrow> 'y ne_world net_state vtable" where
  "ne_vtable live = base_vtable\<lparr>
     v_action_handle := (\<lambda>p e s. case ne_class_of (net_ext (usr s)) p of
         Listener_actor \<Rightarrow> listener_action_handle live p e s
       | Connection_actor \<Rightarrow> connection_action_handle p e s
       | Connection_started_actor \<Rightarrow> started_action_handle live p e s),
     v_on_start := (\<lambda>p s. case ne_class_of (net_ext (usr s)) p of
         Listener_actor \<Rightarrow> listener_on_start p s
       | Connection_actor \<Rightarrow> connection_on_start p s
       | Connection_started_actor \<Rightarrow> started_on_start live p s)\<rparr>"

abbreviation ne_table :: "('m, 'y) dialler_lib \<Rightarrow> 'y ne_world net_state vtable" where
  "ne_table dl \<equiv> net_vtable (lift_lib dl) (ne_vtable True)"

section \<open>Serving an actor\<close>

text \<open>
  What \<^verbatim>\<open>mailbox_worker\<close> does for one actor and the apply task it posts, one after the other: the actor with a filled
  mailbox is locked, and its mailbox is applied.
\<close>

definition serve :: "'u vtable \<Rightarrow> nat \<Rightarrow> id_t \<Rightarrow> ('u ctx, unit) cpp" where
  "serve vt fuel i = bindM (getM (\<lambda>s. (actor_at s i, mbox_at s i))) (\<lambda>r. case r of
     (Some d, Some m) \<Rightarrow> bindM (mb_is_empty m) (\<lambda>e.
       if e then retM ()
       else bindM (obj_try_lock (d_actor d)) (\<lambda>ok.
         if \<not> ok then retM ()
         else bindM (parent_actor d) (\<lambda>parent. apply_actor_to_mailbox vt fuel d parent m)))
   | _ \<Rightarrow> retM ())"

text \<open>What no turn of an actor changes.\<close>

definition ne_core where
  "ne_core s = (actors s, id_by_name s, mboxes s, cx_lock s, stopping_begin s, con_of (usr s),
     (\<lambda>p. (busy (objs s p), class_of (objs s p), self_ctx (objs s p))))"

text \<open>An actor that is registered under a name, with its mailbox and its facade; and one that is idle.\<close>

definition placed :: "'u ctx \<Rightarrow> string \<Rightarrow> id_t \<Rightarrow> description \<Rightarrow> mbox_ptr \<Rightarrow> bool" where
  "placed s name i d m \<longleftrightarrow> map_of (id_by_name s) name = Some i \<and> actor_at s i = Some d \<and> mbox_at s i = Some m \<and>
     d_address d = address_of i name \<and> name \<noteq> null_pathname \<and> \<not> address_empty (address_of i name) \<and>
     (\<exists>uc. self_ctx (objs s (d_actor d)) = Some uc \<and> uc_addr uc = address_of i name) \<and>
     \<not> id_empty (d_parent d) \<and> actor_at s (d_parent d) \<noteq> None"

definition seated :: "'u ctx \<Rightarrow> string \<Rightarrow> id_t \<Rightarrow> description \<Rightarrow> mbox_ptr \<Rightarrow> bool" where
  "seated s name i d m \<longleftrightarrow> placed s name i d m \<and> \<not> busy (objs s (d_actor d))"

definition live :: "'u ctx \<Rightarrow> bool" where
  "live s \<longleftrightarrow> cx_lock s = Unlocked \<and> \<not> stopping_begin s"

lemma ne_coreD:
  assumes "ne_core s' = ne_core s"
  shows "seated s' name i d m = seated s name i d m" "live s' = live s" "con_of (usr s') = con_of (usr s)"
    "class_of (objs s' p) = class_of (objs s p)"
  using assms by (simp_all add: ne_core_def seated_def placed_def live_def fun_eq_iff)

text \<open>The state in which a handler is called, and sending from there.\<close>

definition put :: "mbox_ptr \<Rightarrow> envelope list \<Rightarrow> (mbox_ptr \<Rightarrow> mailbox) \<Rightarrow> mbox_ptr \<Rightarrow> mailbox" where
  "put m q b = b(m := (b m)\<lparr>dqueue := q\<rparr>)"

definition called :: "description \<Rightarrow> mbox_ptr \<Rightarrow> 'u ctx \<Rightarrow> 'u ctx" where
  "called d m s = s\<lparr>objs := (objs s)(d_actor d := (objs s (d_actor d))\<lparr>busy := True\<rparr>), mbs := put m [] (mbs s)\<rparr>"

definition post_of :: "cpp_value \<Rightarrow> id_t \<Rightarrow> string \<Rightarrow> envelope" where
  "post_of v i name = \<lparr>payload = payload_of v, sender = address_of i name\<rparr>"

lemma put_at [simp]: "dqueue (put m q b m') = (if m' = m then q else dqueue (b m'))"
  by (simp add: put_def)

lemma post_of_sel [simp]:
  "sender (post_of v i name) = address_of i name" "sendable (post_of v i name)" "payload (post_of v i name) = payload_of v"
  by (simp_all add: post_of_def)

lemma called_sel [simp]:
  "live (called d m s) = live s" "placed (called d m s) name i d' m' = placed s name i d' m'"
  "usr (called d m s) = usr s" "mbs (called d m s) = put m [] (mbs s)"
  "class_of (objs (called d m s) p) = class_of (objs s p)" "self_ctx (objs (called d m s) p) = self_ctx (objs s p)"
  by (simp_all add: called_def live_def placed_def)

lemma placed_upd [simp]:
  "placed (s\<lparr>mbs := b\<rparr>) name i d m = placed s name i d m" "placed (s\<lparr>usr := u\<rparr>) name i d m = placed s name i d m"
  "live (s\<lparr>mbs := b\<rparr>) = live s" "live (s\<lparr>usr := u\<rparr>) = live s"
  by (simp_all add: placed_def live_def)

lemma placed_address:
  assumes "live s" and "placed s name i d m"
  shows "uc_get_address True name s = (Inr (address_of i name), s)"
  using assms get_address_run [of s name] by (simp add: live_def placed_def uc_get_address_def uc_if_alive_def)

lemma placed_send:
  assumes "live s" and "placed s name i d m" and "uc_addr uc = address_of j name'" and "name' \<noteq> null_pathname"
  shows "uc_send True uc (address_of i name) v s = (Inr (), s\<lparr>mbs := put m (queue_at s m @ [post_of v j name']) (mbs s)\<rparr>)"
  using uc_send_value [of s "address_of i name" uc m v] assms by (simp add: live_def placed_def put_def post_of_def)

lemma serve_step:
  assumes se: "seated s name i d m" and q: "queue_at s m = [e]" "sendable e"
    and h: "call_action_handle (ne_table dl) (d_actor d) e (called d m s) = (Inr (), (called d m s)\<lparr>mbs := b, usr := (usr s)\<lparr>net_ext := x\<rparr>\<rparr>)"
    and b: "dqueue (b m) = []"
  shows "\<exists>s'. serve (ne_table dl) (Suc (Suc n)) i s = (Inr (), s') \<and> ne_core s' = ne_core s \<and> mbs s' = b \<and> net_ext (usr s') = x"
proof -
  let ?a = "d_actor d" and ?V = "ne_table dl"
  let ?t = "(called d m s)\<lparr>mbs := b, usr := (usr s)\<lparr>net_ext := x\<rparr>\<rparr>"
  let ?t' = "?t\<lparr>objs := (objs ?t)(?a := reset_busy (update_status NORMAL (objs ?t ?a)))\<rparr>"
  from se obtain pd where d: "actor_at s i = Some d" "mbox_at s i = Some m" "\<not> busy (objs s ?a)" "\<not> id_empty (d_parent d)"
    "actor_at s (d_parent d) = Some pd" by (auto simp: seated_def placed_def)
  let ?s0 = "s\<lparr>objs := (objs s)(?a := (objs s ?a)\<lparr>busy := True\<rparr>)\<rparr>"
  have "actor_apply (Suc (Suc n)) dc (call_action_handle ?V ?a) ?a m ?s0 = (Inr (), ?t')" for dc
    using q h b by (intro apply_single_message [where e = e]) (simp_all add: called_def put_def)
  moreover have "call_on_child_status ?V p addr NORMAL ?t' = (Inr (), ?t')" for p addr
    by (simp add: call_on_child_status_def vt_of_def net_vtable_def ne_vtable_def inherited_def base_vtable_def base_on_child_status_def)
  ultimately have "apply_actor_to_mailbox ?V (Suc (Suc n)) d (Some (d_actor pd)) m ?s0 = (Inr (), ?t')"
    by (simp add: apply_actor_to_mailbox_def tryM_def)
  then have "serve ?V (Suc (Suc n)) i s = (Inr (), ?t')"
    using d q by (simp add: serve_def parent_actor_def)
  moreover have "ne_core ?t' = ne_core s" "mbs ?t' = b" "net_ext (usr ?t') = x"
    using d(3) by (auto simp: ne_core_def called_def reset_busy_def update_status_def fun_eq_iff)
  ultimately show ?thesis by blast
qed

section \<open>The turns of the actors\<close>

lemmas handler_defs = call_action_handle_def vt_of_def library_class_def net_vtable_def ne_vtable_def get_context_def

lemma initiator_turn:
  assumes l: "live s" and s0: "seated s n0 i0 d0 m0" and k: "class_of (objs s (d_actor d0)) = User_actor"
      "ne_class_of (net_ext (usr s)) (d_actor d0) = Connection_started_actor"
    and q: "queue_at s m0 = [post_of (V_connection_status st) j n]" "csm_is_connected st"
    and s1: "seated s net_name i1 d1 m1" "m1 \<noteq> m0"
  shows "\<exists>s'. serve (ne_table dl) (Suc (Suc f)) i0 s = (Inr (), s') \<and> ne_core s' = ne_core s \<and>
    mbs s' = put m1 (queue_at s m1 @ [post_of (V_network_message nmessage) i0 n0]) (put m0 [] (mbs s)) \<and>
    net_ext (usr s') = net_ext (usr s)"
proof (rule serve_step [OF s0 q(1)])
  from s0 obtain uc where uc: "self_ctx (objs s (d_actor d0)) = Some uc" "uc_addr uc = address_of i0 n0" "n0 \<noteq> null_pathname"
    by (auto simp: seated_def placed_def)
  from s1 have p: "placed (called d0 m0 s) net_name i1 d1 m1" by (simp add: seated_def)
  show "call_action_handle (ne_table dl) (d_actor d0) (post_of (V_connection_status st) j n) (called d0 m0 s) =
    (Inr (), (called d0 m0 s)\<lparr>mbs := put m1 (queue_at s m1 @ [post_of (V_network_message nmessage) i0 n0]) (put m0 [] (mbs s)),
      usr := (usr s)\<lparr>net_ext := net_ext (usr s)\<rparr>\<rparr>)"
    using k q(2) uc l s1(2) payload_cast_of [of "V_connection_status st"] placed_address [OF _ p] placed_send [OF _ p uc(2,3)]
    by (simp add: handler_defs started_action_handle_def)
qed (use s1(2) in simp_all)

lemma con_turn:
  assumes s1: "seated s n1 i1 d1 m1" and k: "class_of (objs s (d_actor d1)) = Network_con_actor"
    and q: "queue_at s m1 = [post_of (V_network_message nm) j n]"
    and m: "packed_get_message (dl_msg dl) nam_capacity nam_pack nm = Inr msg"
  shows "\<exists>s'. serve (ne_table dl) (Suc (Suc f)) i1 s = (Inr (), s') \<and> ne_core s' = ne_core s \<and> mbs s' = put m1 [] (mbs s) \<and>
    net_ext (usr s') = on_lib (dl_send_async dl (con_handle (con_of (usr s) (d_actor d1))) msg) (net_ext (usr s))"
proof (rule serve_step [OF s1 q])
  show "call_action_handle (ne_table dl) (d_actor d1) (post_of (V_network_message nm) j n) (called d1 m1 s) =
    (Inr (), (called d1 m1 s)\<lparr>mbs := put m1 [] (mbs s), usr := (usr s)\<lparr>net_ext :=
      on_lib (dl_send_async dl (con_handle (con_of (usr s) (d_actor d1))) msg) (net_ext (usr s))\<rparr>\<rparr>)"
    using k m payload_cast_of [of "V_network_message nm"]
    by (simp add: handler_defs con_action_handle_def lift_lib_def called_def)
qed simp_all

definition added :: "actor_ptr \<Rightarrow> byte list \<Rightarrow> 'y ne_world \<Rightarrow> 'y ne_world" where
  "added p data w = w\<lparr>ne_sum := (ne_sum w)(p := accumulate data (ne_sum w p))\<rparr>"

lemma listener_turn:
  assumes l: "live s" and s2: "seated s n2 i2 d2 m2" and k: "class_of (objs s (d_actor d2)) = User_actor"
      "ne_class_of (net_ext (usr s)) (d_actor d2) = Listener_actor"
    and s1: "seated s n1 i1 d1 m1" "m1 \<noteq> m2" and q: "queue_at s m2 = [post_of (V_listener_message v) i1 n1]"
  shows "\<exists>s'. serve (ne_table dl) (Suc (Suc f)) i2 s = (Inr (), s') \<and> ne_core s' = ne_core s \<and>
    mbs s' = put m1 (queue_at s m1 @ [post_of (V_listener_message \<lparr>lam_sender_id = lam_sender_id v,
      lam_name = ''/root/usr/connection_actor'', lam_data = lam_data v\<rparr>) i2 n2]) (put m2 [] (mbs s)) \<and>
    net_ext (usr s') = added (d_actor d2) (lam_data v) (net_ext (usr s))"
proof (rule serve_step [OF s2 q])
  let ?r = "V_listener_message \<lparr>lam_sender_id = lam_sender_id v, lam_name = ''/root/usr/connection_actor'', lam_data = lam_data v\<rparr>"
  let ?u = "(usr s)\<lparr>net_ext := added (d_actor d2) (lam_data v) (net_ext (usr s))\<rparr>"
  from s2 obtain uc where uc: "self_ctx (objs s (d_actor d2)) = Some uc" "uc_addr uc = address_of i2 n2" "n2 \<noteq> null_pathname"
    by (auto simp: seated_def placed_def)
  from s1 have p: "placed ((called d2 m2 s)\<lparr>usr := ?u\<rparr>) n1 i1 d1 m1" by (simp add: seated_def)
  show "call_action_handle (ne_table dl) (d_actor d2) (post_of (V_listener_message v) i1 n1) (called d2 m2 s) =
    (Inr (), (called d2 m2 s)\<lparr>mbs := put m1 (queue_at s m1 @ [post_of ?r i2 n2]) (put m2 [] (mbs s)), usr := ?u\<rparr>)"
    using k uc l s1(2) payload_cast_of [of "V_listener_message v"] placed_send [OF _ p uc(2,3), of ?r]
    by (simp add: handler_defs listener_action_handle_def add_data_def added_def)
qed (use s1(2) in simp_all)

lemma lst_turn:
  assumes s1: "seated s n1 i1 d1 m1" and k: "class_of (objs s (d_actor d1)) = Network_lst_actor"
    and q: "queue_at s m1 = [post_of (V_listener_message lm) j n]"
    and m: "packed_get_message (dl_msg dl) nam_capacity nam_pack \<lparr>nam_name = lam_name lm, nam_data = lam_data lm\<rparr> = Inr msg"
  shows "\<exists>s'. serve (ne_table dl) (Suc (Suc f)) i1 s = (Inr (), s') \<and> ne_core s' = ne_core s \<and> mbs s' = put m1 [] (mbs s) \<and>
    net_ext (usr s') = on_lib (dl_send_to dl (d_actor d1) (lam_sender_id lm) msg) (net_ext (usr s))"
proof (rule serve_step [OF s1 q])
  show "call_action_handle (ne_table dl) (d_actor d1) (post_of (V_listener_message lm) j n) (called d1 m1 s) =
    (Inr (), (called d1 m1 s)\<lparr>mbs := put m1 [] (mbs s), usr := (usr s)\<lparr>net_ext :=
      on_lib (dl_send_to dl (d_actor d1) (lam_sender_id lm) msg) (net_ext (usr s))\<rparr>\<rparr>)"
    using k m payload_cast_of [of "V_listener_message lm"]
    by (simp add: handler_defs lst_action_handle_def lift_lib_def called_def)
qed simp_all

lemma connection_turn:
  assumes s2: "seated s n2 i2 d2 m2" and k: "class_of (objs s (d_actor d2)) = User_actor"
      "ne_class_of (net_ext (usr s)) (d_actor d2) = Connection_actor"
    and q: "queue_at s m2 = [post_of (V_network_message v) j n]"
  shows "\<exists>s'. serve (ne_table dl) (Suc (Suc f)) i2 s = (Inr (), s') \<and> ne_core s' = ne_core s \<and> mbs s' = put m2 [] (mbs s) \<and>
    net_ext (usr s') = added (d_actor d2) (nam_data v) (net_ext (usr s))"
proof (rule serve_step [OF s2 q])
  show "call_action_handle (ne_table dl) (d_actor d2) (post_of (V_network_message v) j n) (called d2 m2 s) =
    (Inr (), (called d2 m2 s)\<lparr>mbs := put m2 [] (mbs s), usr := (usr s)\<lparr>net_ext :=
      added (d_actor d2) (nam_data v) (net_ext (usr s))\<rparr>\<rparr>)"
    using k payload_cast_of [of "V_network_message v"]
    by (simp add: handler_defs connection_action_handle_def add_data_def added_def called_def)
qed simp_all

text \<open>What the network library hands to a network actor goes to the actor the message names.\<close>

lemma put_core: "ne_core (s\<lparr>mbs := b\<rparr>) = ne_core s"
  by (simp add: ne_core_def)

lemma handed:
  assumes l: "live s" and s1: "seated s n1 i1 d1 m1" and s2: "seated s (nam_name nm) i2 d2 m2"
    and m: "dm_kind (dl_msg dl) msg = kind_value MK_MSG" "packed_of_message (dl_msg dl) nam_unpack msg = Inr nm"
  shows "lst_on_new_message (lift_lib dl) True (d_actor d1) cid msg s = (Inr (), s\<lparr>mbs := put m2 (queue_at s m2 @
      [post_of (V_listener_message \<lparr>lam_sender_id = cid, lam_name = nam_name nm, lam_data = nam_data nm\<rparr>) i1 n1]) (mbs s)\<rparr>)"
    and "con_on_new_message (lift_lib dl) True (d_actor d1) msg s = (Inr (), s\<lparr>mbs := put m2 (queue_at s m2 @
      [post_of (V_network_message nm) i1 n1]) (mbs s)\<rparr>)"
proof -
  from s1 obtain uc where uc: "self_ctx (objs s (d_actor d1)) = Some uc" "uc_addr uc = address_of i1 n1" "n1 \<noteq> null_pathname"
    by (auto simp: seated_def placed_def)
  from s2 have p: "placed s (nam_name nm) i2 d2 m2" and a: "\<not> address_empty (address_of i2 (nam_name nm))"
    by (simp_all add: seated_def placed_def)
  have m': "dm_kind (dl_msg (lift_lib dl)) msg = kind_value MK_MSG" "packed_of_message (dl_msg (lift_lib dl)) nam_unpack msg = Inr nm"
    using m by (simp_all add: lift_lib_def)
  show "lst_on_new_message (lift_lib dl) True (d_actor d1) cid msg s = (Inr (), s\<lparr>mbs := put m2 (queue_at s m2 @
      [post_of (V_listener_message \<lparr>lam_sender_id = cid, lam_name = nam_name nm, lam_data = nam_data nm\<rparr>) i1 n1]) (mbs s)\<rparr>)"
    using lst_on_new_message_run [OF m' uc(1)] placed_address [OF l p] placed_send [OF l p uc(2,3)] a by simp
  show "con_on_new_message (lift_lib dl) True (d_actor d1) msg s = (Inr (), s\<lparr>mbs := put m2 (queue_at s m2 @
      [post_of (V_network_message nm) i1 n1]) (mbs s)\<rparr>)"
    using con_on_new_message_run [OF m' uc(1)] placed_address [OF l p] placed_send [OF l p uc(2,3)] a by simp
qed

section \<open>The two programs\<close>

text \<open>
  The actors of the client: the one that waits for the connection, the library's connection actor, and the one
  that gets the answer; and of the server: the library's listener actor and the one that answers. Each is
  registered, idle and, but for the first, without a message.
\<close>

record seat =
  st_id :: id_t
  st_desc :: description
  st_box :: mbox_ptr

abbreviation at_seat :: "'u ctx \<Rightarrow> string \<Rightarrow> seat \<Rightarrow> bool" where
  "at_seat s name x \<equiv> seated s name (st_id x) (st_desc x) (st_box x)"

abbreviation who :: "seat \<Rightarrow> actor_ptr" where
  "who x \<equiv> d_actor (st_desc x)"

definition ne_client :: "'y ne_ctx \<Rightarrow> string \<Rightarrow> seat \<Rightarrow> seat \<Rightarrow> seat \<Rightarrow> bool" where
  "ne_client c n0 x0 x1 x2 \<longleftrightarrow> live c \<and> at_seat c n0 x0 \<and> at_seat c net_name x1 \<and> at_seat c ''/root/usr/connection_actor'' x2 \<and>
     distinct [st_box x0, st_box x1, st_box x2] \<and> queue_at c (st_box x1) = [] \<and> queue_at c (st_box x2) = [] \<and>
     class_of (objs c (who x0)) = User_actor \<and> ne_class_of (net_ext (usr c)) (who x0) = Connection_started_actor \<and>
     class_of (objs c (who x1)) = Network_con_actor \<and>
     class_of (objs c (who x2)) = User_actor \<and> ne_class_of (net_ext (usr c)) (who x2) = Connection_actor"

definition ne_server :: "'y ne_ctx \<Rightarrow> string \<Rightarrow> seat \<Rightarrow> seat \<Rightarrow> bool" where
  "ne_server s n1 x1 x2 \<longleftrightarrow> live s \<and> at_seat s n1 x1 \<and> at_seat s ''/root/usr/listener_actor'' x2 \<and> st_box x1 \<noteq> st_box x2 \<and>
     queue_at s (st_box x1) = [] \<and> queue_at s (st_box x2) = [] \<and> class_of (objs s (who x1)) = Network_lst_actor \<and>
     class_of (objs s (who x2)) = User_actor \<and> ne_class_of (net_ext (usr s)) (who x2) = Listener_actor"

lemma on_lib_sel [simp]:
  "ne_lib (on_lib f w) = f (ne_lib w)" "ne_class_of (on_lib f w) = ne_class_of w" "ne_sum (on_lib f w) = ne_sum w"
  by (simp_all add: on_lib_def)

lemma added_sel [simp]:
  "ne_lib (added p data w) = ne_lib w" "ne_class_of (added p data w) = ne_class_of w"
  "ne_sum (added p data w) p = accumulate data (ne_sum w p)"
  by (simp_all add: added_def)

lemma client_request:
  assumes c: "ne_client c n0 x0 x1 x2" and q: "queue_at c (st_box x0) = [post_of (V_connection_status st) j n]" "csm_is_connected st"
    and m: "packed_get_message (dl_msg dl) nam_capacity nam_pack nmessage = Inr msg"
  shows "\<exists>c1 c2. serve (ne_table dl) (Suc (Suc f)) (st_id x0) c = (Inr (), c1) \<and>
    serve (ne_table dl) (Suc (Suc f)) (st_id x1) c1 = (Inr (), c2) \<and> ne_client c2 n0 x0 x1 x2 \<and>
    net_ext (usr c2) = on_lib (dl_send_async dl (con_handle (con_of (usr c) (who x1))) msg) (net_ext (usr c))"
proof -
  from c q initiator_turn [of c n0 "st_id x0" "st_desc x0" "st_box x0" st j n "st_id x1" "st_desc x1" "st_box x1" dl f]
  obtain c1 where c1: "serve (ne_table dl) (Suc (Suc f)) (st_id x0) c = (Inr (), c1)" "ne_core c1 = ne_core c"
    "mbs c1 = put (st_box x1) [post_of (V_network_message nmessage) (st_id x0) n0] (put (st_box x0) [] (mbs c))"
    "net_ext (usr c1) = net_ext (usr c)" by (auto simp: ne_client_def)
  note k1 = ne_coreD [OF c1(2)]
  from c k1 c1(3) con_turn [of c1 net_name "st_id x1" "st_desc x1" "st_box x1" nmessage "st_id x0" n0, OF _ _ _ m, of f]
  obtain c2 where c2: "serve (ne_table dl) (Suc (Suc f)) (st_id x1) c1 = (Inr (), c2)" "ne_core c2 = ne_core c1"
    "mbs c2 = put (st_box x1) [] (mbs c1)"
    "net_ext (usr c2) = on_lib (dl_send_async dl (con_handle (con_of (usr c1) (who x1))) msg) (net_ext (usr c1))"
    by (auto simp: ne_client_def)
  have "ne_client c2 n0 x0 x1 x2"
    using c ne_coreD [OF c2(2)] k1 c1 c2 by (simp add: ne_client_def)
  then show ?thesis using c1 c2 k1(3) by auto
qed

lemma server_echo:
  assumes s: "ne_server s n1 x1 x2"
    and m: "dm_kind (dl_msg dl) msg = kind_value MK_MSG" "packed_of_message (dl_msg dl) nam_unpack msg = Inr nmessage"
    and m': "packed_get_message (dl_msg dl) nam_capacity nam_pack
        \<lparr>nam_name = ''/root/usr/connection_actor'', nam_data = tst_net_data\<rparr> = Inr msg'"
  shows "\<exists>s1 s2 s3. lst_on_new_message (lift_lib dl) True (who x1) cid msg s = (Inr (), s1) \<and>
    serve (ne_table dl) (Suc (Suc f)) (st_id x2) s1 = (Inr (), s2) \<and> serve (ne_table dl) (Suc (Suc f)) (st_id x1) s2 = (Inr (), s3) \<and>
    ne_server s3 n1 x1 x2 \<and>
    net_ext (usr s3) = on_lib (dl_send_to dl (who x1) cid msg') (added (who x2) tst_net_data (net_ext (usr s)))"
proof -
  let ?v = "\<lparr>lam_sender_id = cid, lam_name = ''/root/usr/listener_actor'', lam_data = tst_net_data\<rparr>"
  let ?w = "\<lparr>lam_sender_id = cid, lam_name = ''/root/usr/connection_actor'', lam_data = tst_net_data\<rparr>"
  define s1 where "s1 = s\<lparr>mbs := put (st_box x2) [post_of (V_listener_message ?v) (st_id x1) n1] (mbs s)\<rparr>"
  have h: "lst_on_new_message (lift_lib dl) True (who x1) cid msg s = (Inr (), s1)"
    using handed(1) [OF _ _ _ m, of s n1 "st_id x1" "st_desc x1" "st_box x1" "st_id x2" "st_desc x2" "st_box x2" cid] s
    by (simp add: ne_server_def nmessage_def s1_def)
  have "ne_core s1 = ne_core s" by (simp add: s1_def put_core)
  note k1 = ne_coreD [OF this]
  from s k1 listener_turn [of s1 "''/root/usr/listener_actor''" "st_id x2" "st_desc x2" "st_box x2" n1 "st_id x1" "st_desc x1" "st_box x1" ?v dl f]
  obtain s2 where s2: "serve (ne_table dl) (Suc (Suc f)) (st_id x2) s1 = (Inr (), s2)" "ne_core s2 = ne_core s1"
    "mbs s2 = put (st_box x1) [post_of (V_listener_message ?w) (st_id x2) ''/root/usr/listener_actor''] (put (st_box x2) [] (mbs s1))"
    "net_ext (usr s2) = added (who x2) tst_net_data (net_ext (usr s))"
    by (auto simp: ne_server_def s1_def)
  note k2 = ne_coreD [OF s2(2)]
  from s k1 k2 s2(3) m' lst_turn [of s2 n1 "st_id x1" "st_desc x1" "st_box x1" ?w "st_id x2" "''/root/usr/listener_actor''" dl msg' f]
  obtain s3 where s3: "serve (ne_table dl) (Suc (Suc f)) (st_id x1) s2 = (Inr (), s3)" "ne_core s3 = ne_core s2"
    "mbs s3 = put (st_box x1) [] (mbs s2)" "net_ext (usr s3) = on_lib (dl_send_to dl (who x1) cid msg') (net_ext (usr s2))"
    by (auto simp: ne_server_def)
  have "ne_server s3 n1 x1 x2"
    using s ne_coreD [OF s3(2)] k1 k2 s2 s3 by (simp add: ne_server_def)
  then show ?thesis using h s2 s3 by auto
qed

lemma client_receives:
  assumes c: "ne_client c n0 x0 x1 x2" and v: "nam_name nm = ''/root/usr/connection_actor''"
    and m: "dm_kind (dl_msg dl) msg = kind_value MK_MSG" "packed_of_message (dl_msg dl) nam_unpack msg = Inr nm"
  shows "\<exists>c1 c2. con_on_new_message (lift_lib dl) True (who x1) msg c = (Inr (), c1) \<and>
    serve (ne_table dl) (Suc (Suc f)) (st_id x2) c1 = (Inr (), c2) \<and> ne_client c2 n0 x0 x1 x2 \<and>
    net_ext (usr c2) = added (who x2) (nam_data nm) (net_ext (usr c))"
proof -
  define c1 where "c1 = c\<lparr>mbs := put (st_box x2) [post_of (V_network_message nm) (st_id x1) net_name] (mbs c)\<rparr>"
  have h: "con_on_new_message (lift_lib dl) True (who x1) msg c = (Inr (), c1)"
    using handed(2) [OF _ _ _ m, of c net_name "st_id x1" "st_desc x1" "st_box x1" "st_id x2" "st_desc x2" "st_box x2"] c v
    by (simp add: ne_client_def c1_def)
  have "ne_core c1 = ne_core c" by (simp add: c1_def put_core)
  note k1 = ne_coreD [OF this]
  from c k1 connection_turn [of c1 "''/root/usr/connection_actor''" "st_id x2" "st_desc x2" "st_box x2" nm "st_id x1" net_name dl f]
  obtain c2 where c2: "serve (ne_table dl) (Suc (Suc f)) (st_id x2) c1 = (Inr (), c2)" "ne_core c2 = ne_core c1"
    "mbs c2 = put (st_box x2) [] (mbs c1)" "net_ext (usr c2) = added (who x2) (nam_data nm) (net_ext (usr c))"
    by (auto simp: ne_client_def c1_def)
  have "ne_client c2 n0 x0 x1 x2"
    using c ne_coreD [OF c2(2)] k1 c2 by (simp add: ne_client_def c1_def)
  then show ?thesis using h c2 by auto
qed

lemma accumulate_add: "accumulate data x = x + accumulate data 0"
proof (induction data arbitrary: x)
  case (Cons b data)
  show ?case using Cons [of "x + b"] Cons [of b] by (simp add: accumulate_def add.assoc)
qed (simp add: accumulate_def)

lemma example_fits:
  assumes "length name \<le> 32"
  shows "nam_capacity \<lparr>nam_name = name, nam_data = tst_net_data\<rparr> \<le> 64" "list_all fits (nam_scheme \<lparr>nam_name = name, nam_data = tst_net_data\<rparr>)"
  using assms by (simp_all add: io_capacity_def nam_capacity_def nam_scheme_def sizeof_u32_def tst_net_data_def)

section \<open>An example\<close>

text \<open>A context with three actors below the actor \<open>/\<close>, and a network library that records the messages it is given.\<close>

definition demo_seat :: "nat \<Rightarrow> string \<Rightarrow> seat" where
  "demo_seat i name = \<lparr>st_id = Id_t (of_nat (i + 2)), st_desc = demo_desc i (of_nat (i + 2)) name (Id_t 1) [], st_box = i\<rparr>"

definition demo_office ::
    "string \<times> string \<times> string \<Rightarrow> (actor_ptr \<Rightarrow> actor_class) \<Rightarrow> (actor_ptr \<Rightarrow> ne_class) \<Rightarrow> envelope list \<Rightarrow>
     (byte list \<times> nat) list ne_ctx" where
  "demo_office names k ne q = (case names of (a, b, c) \<Rightarrow>
     with_usr \<lparr>net_root = address_default, net_threads = [], net_connections = [], net_listeners = [], lst_port = (\<lambda>_. 0),
       con_of = (\<lambda>_. \<lparr>con_handle = 0, con_cp = ([], 0), con_target_host = []\<rparr>),
       net_ext = \<lparr>ne_lib = [], ne_class_of = ne, ne_started = (\<lambda>_. True), ne_sum = (\<lambda>_. 0)\<rparr>\<rparr>
     (demo_ctx\<lparr>objs := (\<lambda>p. (demo_obj (of_nat (p + 2)) (if p = 0 then a else if p = 1 then b else c))\<lparr>class_of := k p\<rparr>),
       mbs := (\<lambda>m. \<lparr>dqueue = if m = 0 then q else []\<rparr>), next_actor_id := 5,
       actors := [(Id_t 1, demo_desc 9 1 ''/'' id_default [Id_t 2, Id_t 3, Id_t 4]), (Id_t 2, st_desc (demo_seat 0 a)),
         (Id_t 3, st_desc (demo_seat 1 b)), (Id_t 4, st_desc (demo_seat 2 c))],
       id_by_name := [(a, Id_t 2), (b, Id_t 3), (c, Id_t 4)],
       mboxes := [(Id_t 2, 0), (Id_t 3, 1), (Id_t 4, 2)]\<rparr>))"

definition demo_client :: "(byte list \<times> nat) list ne_ctx" where
  "demo_client = demo_office (''/w'', net_name, ''/root/usr/connection_actor'')
     (\<lambda>p. if p = 1 then Network_con_actor else User_actor) (\<lambda>p. if p = 0 then Connection_started_actor else Connection_actor)
     [post_of (V_connection_status \<lparr>csm_host = ''h'', csm_errormsg = [], csm_is_connected = True\<rparr>) (Id_t 3) net_name]"

definition demo_server :: "(byte list \<times> nat) list ne_ctx" where
  "demo_server = demo_office (''/l'', ''/root/usr/listener_actor'', ''/x'')
     (\<lambda>p. if p = 0 then Network_lst_actor else User_actor) (\<lambda>_. Listener_actor) []"

lemmas office_defs = demo_office_def demo_seat_def demo_desc_def demo_obj_def demo_uc_def demo_ctx_def with_usr_def
  base_actor_new_def seated_def placed_def live_def id_default_def address_empty_def null_pathname_def

lemma demo_client_ok: "ne_client demo_client ''/w'' (demo_seat 0 ''/w'') (demo_seat 1 net_name) (demo_seat 2 ''/root/usr/connection_actor'')"
  by (simp add: ne_client_def demo_client_def office_defs)

lemma demo_server_ok: "ne_server demo_server ''/l'' (demo_seat 0 ''/l'') (demo_seat 1 ''/root/usr/listener_actor'')"
  by (simp add: ne_server_def demo_server_def office_defs)

text \<open>A context with an exchange nobody subscribes to yet, in which a report waits.\<close>

definition demo_wait :: "unit ne_ctx" where
  "demo_wait = (with_usr \<lparr>net_root = address_default, net_threads = [], net_connections = [], net_listeners = [], lst_port = (\<lambda>_. 0),
      con_of = (\<lambda>_. \<lparr>con_handle = 0, con_cp = ([], 0), con_target_host = []\<rparr>),
      net_ext = \<lparr>ne_lib = (), ne_class_of = (\<lambda>_. Connection_started_actor), ne_started = (\<lambda>_. False), ne_sum = (\<lambda>_. 0)\<rparr>\<rparr>
    demo_family)\<lparr>mbs := (\<lambda>_. mailbox_new)(2 := \<lparr>dqueue = [demo_msg]\<rparr>), next_mb := 3,
      exchanges := [(net_name, \<lparr>ex_subscribes = [], ex_owner = address_of (Id_t 1) ''/a'', ex_pub = 2\<rparr>)]\<rparr>"

lemma demo_wait_inv: "ctx_inv demo_wait"
proof -
  let ?s = "with_usr (usr demo_wait) demo_family"
  have "preserves ctx_inv (seqM (create_exchange a n) (publish_to_exchange n demo_msg))" for a n
    by (intro triple_intro preserves_exchange_ops)
  from preserves_snd [OF this, of ?s "address_of (Id_t 1) ''/a''" net_name]
  have "ctx_inv (snd (seqM (create_exchange (address_of (Id_t 1) ''/a'') net_name) (publish_to_exchange net_name demo_msg) ?s))"
    using demo_family_inv by simp
  moreover have "seqM (create_exchange (address_of (Id_t 1) ''/a'') net_name) (publish_to_exchange net_name demo_msg) ?s =
      (Inr (), demo_wait)"
    by (simp add: create_exchange_run publish_to_exchange_def publish_to_exchange_rv_def with_xshared_def demo_wait_def with_usr_def
        with_exchange_def demo_family_sel demo_msg_def mailbox_new_def cx_xlock_idem fun_eq_iff)
  ultimately show ?thesis by simp
qed

section \<open>Properties\<close>



text \<open>
  C38: It need not get that far. The report that the connection stands is published once. If the mailbox worker
  delivers it before the waiting actor has subscribed in its \<^verbatim>\<open>on_start\<close>, the report is gone: the exchange is
  empty, no mailbox got anything, and the actor is subscribed in vain.
\<close>

theorem status_before_subscription:
  assumes "ctx_inv s" and "unlocked s" and "self_ctx (objs s p) = Some uc"
    and "exchanges s = [(net_name, \<lparr>ex_subscribes = [], ex_owner = ow, ex_pub = pub\<rparr>)]"
    and "actor_at s (aa_id (uc_addr uc)) = Some d"
  shows "\<exists>s1 s2. deliver_exchanges s = (Inr (), s1) \<and> started_on_start True p s1 = (Inr (), s2) \<and>
    inbox (abs_ctx s2) = inbox (abs_ctx s) \<and> queue_at s2 pub = [] \<and>
    exchanges s2 = [(net_name, \<lparr>ex_subscribes = [aa_id (uc_addr uc)], ex_owner = ow, ex_pub = pub\<rparr>)]"
proof -
  from deliver_exchanges_delivers [OF assms(1)] obtain s1 f where s1: "deliver_exchanges s = (Inr (), s1)" "s1 = s\<lparr>mbs := f\<rparr>"
    "dqueue (f pub) = []" and f: "\<And>i m. mbox_at s i = Some m \<Longrightarrow> dqueue (f m) = queue_at s m"
    by (auto simp: delivers_def assms(4) fan_out_all_def fan_out_def)
  let ?s2 = "(add_subscriber net_name (aa_id (uc_addr uc)) s1)\<lparr>usr := (usr s1)\<lparr>net_ext := (net_ext (usr s1))
      \<lparr>ne_started := (ne_started (net_ext (usr s1)))(p := True)\<rparr>\<rparr>\<rparr>"
  have "started_on_start True p s1 = (Inr (), ?s2)"
    using subscribe_run [of s1 "uc_addr uc" net_name] assms
    by (simp add: s1(2) started_on_start_def get_context_def uc_subscribe_to_exchange_def uc_if_alive_def with_exchange_def
        set_started_def add_subscriber_def)
  moreover have "inbox (abs_ctx ?s2) = inbox (abs_ctx s)"
    using f by (auto simp: abs_ctx_def s1(2) add_subscriber_def fun_eq_iff map_option_case split: option.splits)
  moreover have "queue_at ?s2 pub = []" "exchanges ?s2 = [(net_name, \<lparr>ex_subscribes = [aa_id (uc_addr uc)], ex_owner = ow, ex_pub = pub\<rparr>)]"
    using assms(4) s1(3) by (simp_all add: s1(2) add_subscriber_def)
  ultimately show ?thesis using s1(1) by blast
qed

theorem status_before_subscription_witness:
  "\<exists>s1 s2. deliver_exchanges demo_wait = (Inr (), s1) \<and> started_on_start True 1 s1 = (Inr (), s2) \<and>
    inbox (abs_ctx s2) (Id_t 2) = Some [] \<and> queue_at demo_wait 2 = [demo_msg] \<and> queue_at s2 2 = []"
proof -
  have "unlocked demo_wait" "self_ctx (objs demo_wait 1) = Some (demo_uc 2 ''/a/b'')"
    "exchanges demo_wait = [(net_name, \<lparr>ex_subscribes = [], ex_owner = address_of (Id_t 1) ''/a'', ex_pub = 2\<rparr>)]"
    "actor_at demo_wait (aa_id (uc_addr (demo_uc 2 ''/a/b''))) = Some (demo_desc 1 2 ''/a/b'' (Id_t 1) [])"
    "queue_at demo_wait 2 = [demo_msg]" "inbox (abs_ctx demo_wait) (Id_t 2) = Some []"
    by (simp_all add: demo_wait_def with_usr_def demo_family_sel demo_uc_def)
      (simp_all add: demo_family_def demo_parent_def demo_ctx_def demo_obj_def demo_uc_def mailbox_new_def)
  with status_before_subscription [OF demo_wait_inv this(1-4)] show ?thesis by (auto simp del: abs_ctx_sel)
qed

end
