(* ===== verification/Yaaf_Net_Stop.thy ===== *)
theory Yaaf_Net_Stop
  imports Yaaf_Net_Setup Yaaf_System
begin

text \<open>
  What a context built with \<^verbatim>\<open>YAAF_NETWORK_ENABLED\<close> does beyond the other: the threads that poll the event loop of the
  network library (\<^verbatim>\<open>network_init\<close>) and the parts of \<^verbatim>\<open>stop\<close> that take connections, listeners and those threads
  down. Polling changes nothing but mailboxes; stopping reaches every connection twice and every
  listener once.
\<close>

section \<open>Polling\<close>

text \<open>
  The loop of a polling thread runs while the context is not stopping; each round of it runs a callback of
  a network actor or nothing. Callbacks with an empty body are rounds that change nothing.
\<close>

inductive poll_step :: "('m, 'x) dialler_lib \<Rightarrow> 'x net_ctx \<Rightarrow> 'x net_ctx \<Rightarrow> bool" for dl where
  poll_listener: "\<not> stopping_begin s \<Longrightarrow> lst_on_new_message dl True p i d s = (r, s') \<Longrightarrow> poll_step dl s s'"
| poll_message: "\<not> stopping_begin s \<Longrightarrow> con_on_new_message dl True p d s = (r, s') \<Longrightarrow> poll_step dl s s'"
| poll_connect: "\<not> stopping_begin s \<Longrightarrow> con_on_connect True p s = (r, s') \<Longrightarrow> poll_step dl s s'"
| poll_error: "\<not> stopping_begin s \<Longrightarrow> con_on_network_error True p err s = (r, s') \<Longrightarrow> poll_step dl s s'"
| poll_nothing: "\<not> stopping_begin s \<Longrightarrow> poll_step dl s s"

inductive poll_run :: "('m, 'x) dialler_lib \<Rightarrow> 'x net_ctx \<Rightarrow> 'x net_ctx \<Rightarrow> bool" for dl where
  poll_run_refl: "poll_run dl s s"
| poll_run_step: "poll_run dl s t \<Longrightarrow> poll_step dl t u \<Longrightarrow> poll_run dl s u"

inductive_cases poll_stepE: "poll_step dl s s'"

lemma preserves_uc_send:
  assumes "\<And>e. preserves I (send_envelope target e)"
  shows "preserves I (uc_send alive uc target v)"
  unfolding uc_send_def uc_send_envelope_def send_envelope_rv_eq by (intro triple_intro assms; assumption)

lemma preserves_uc_publish:
  assumes "\<And>e. preserves I (publish_to_exchange_rv name e)"
  shows "preserves I (uc_publish alive uc name v)"
  unfolding uc_publish_def uc_publish_to_exchange_def by (intro triple_intro assms; assumption)

text \<open>Every callback of the network keeps what sending, looking an address up and publishing keep.\<close>

lemma preserves_callbacks:
  assumes send: "\<And>a e. preserves I (send_envelope a e)" and look: "\<And>n. preserves I (get_address n)"
    and pub: "\<And>n e. preserves I (publish_to_exchange_rv n e)"
  shows "preserves I (lst_on_new_message dl live p i d)" "preserves I (con_on_new_message dl live p d)"
    "preserves I (con_on_connect live p)" "preserves I (con_on_network_error live p err)"
proof -
  have get: "preserves I (get_context live p)" unfolding get_context_def by (intro triple_intro)
  note rules = triple_intro preserves_uc_send [OF send] preserves_uc_publish [OF pub] look get
  have status: "preserves I (send_status live p sm)" for sm
    unfolding send_status_def by (intro rules; assumption)
  show "preserves I (lst_on_new_message dl live p i d)" "preserves I (con_on_new_message dl live p d)"
    unfolding lst_on_new_message_def con_on_new_message_def uc_get_address_def by (intro rules; assumption)+
  show "preserves I (con_on_connect live p)" "preserves I (con_on_network_error live p err)"
    unfolding con_on_connect_def send_status_success_def con_on_network_error_def send_status_error_def
    by (intro triple_intro status)+
qed

lemma poll_step_keeps:
  fixes s :: "'a net_ctx"
  assumes "poll_step dl s s'"
  shows "(ctx_inv s \<longrightarrow> ctx_inv s') \<and> (same_core s0 l x s \<longrightarrow> same_core s0 l x s')"
proof -
  have inv: "preserves ctx_inv (publish_to_exchange_rv n e)" for n e
    using preserves_exchange_ops(3) [of n e] by (simp add: publish_to_exchange_def)
  have look: "preserves (same_core s0 l x) (get_address n)" for n
    unfolding get_address_def by (intro triple_intro; assumption)
  have pub: "preserves (same_core s0 l x) (publish_to_exchange_rv n e)" for n e
    using preserves_same_core_ops(2) [of s0 l x n e] by (simp add: publish_to_exchange_def)
  note keep = preserves_callbacks [OF preserves_send(1) preserves_lookup(3) inv] preserves_callbacks [OF preserves_same_core_ops(1) look pub]
  have step: "I s'" if "preserves I m" "m s = (r, s')" "I s" for I r and m :: "('a net_ctx, unit) cpp"
    using preserves_snd [OF that(1,3)] that(2) by simp
  from assms show ?thesis
  proof (cases rule: poll_step.cases)
    case (poll_listener p i d r)
    from step [OF keep(1) this(2)] step [OF keep(5) this(2)] show ?thesis by simp
  next
    case (poll_message p d r)
    from step [OF keep(2) this(2)] step [OF keep(6) this(2)] show ?thesis by simp
  next
    case (poll_connect p r)
    from step [OF keep(3) this(2)] step [OF keep(7) this(2)] show ?thesis by simp
  next
    case (poll_error p err r)
    from step [OF keep(4) this(2)] step [OF keep(8) this(2)] show ?thesis by simp
  qed simp
qed

section \<open>Stopping\<close>

definition close_connection :: "('m, 'x) dialler_lib \<Rightarrow> dial_params \<times> nat \<Rightarrow> ('x net_ctx, unit) cpp" where
  "close_connection dl l = seqM (ext_call (dl_disconnect dl (snd l))) (ext_call (dl_dial_wait_stop dl (snd l)))"

definition close_listener :: "('m, 'x) dialler_lib \<Rightarrow> 16 word \<times> nat \<Rightarrow> ('x net_ctx, unit) cpp" where
  "close_listener dl l = seqM (ext_call (dl_listener_stop dl (snd l))) (ext_call (dl_listener_wait_stop dl (snd l)))"

text \<open>
  Joining a thread throws \<^verbatim>\<open>std::system_error\<close> when it was joined before; it does not come back while the loop of the
  thread goes on.
\<close>

definition join_thread :: "nat \<Rightarrow> ('x net_ctx, unit) cpp" where
  "join_thread i = bindM (getM (\<lambda>s. (net_threads (usr s) ! i, stopping_begin s))) (\<lambda>(joinable, stopping).
     if \<not> joinable then faultM (Throw ''Invalid argument'')
     else if \<not> stopping then faultM Unbounded
     else upd_net (\<lambda>n. n\<lparr>net_threads := (net_threads n)[i := False]\<rparr>))"

definition net_context_stop :: "('m, 'x) dialler_lib \<Rightarrow> 'x net_state vtable \<Rightarrow> ('x net_ctx, unit) cpp" where
  "net_context_stop dl vt =
     seqM (modM (\<lambda>s. s\<lparr>stopping_begin := True\<rparr>))
     (seqM (bindM (getM (\<lambda>s. net_connections (usr s))) (\<lambda>cs. forM cs (close_connection dl)))
     (seqM (bindM (getM (\<lambda>s. net_listeners (usr s))) (\<lambda>ls. forM ls (close_listener dl)))
     (seqM (modM (\<lambda>s. s\<lparr>stopping_begin := True\<rparr>))
     (seqM (bindM (getM (\<lambda>s. length (net_threads (usr s)))) (\<lambda>n. forM [0..<n] join_thread))
     (bindM (getM cx_tm) (\<lambda>tm. case tm of
        None \<Rightarrow> faultM NullDeref
      | Some m \<Rightarrow>
          seqM (modM (\<lambda>s. s\<lparr>cx_tm := Some (tm_stop m)\<rparr>))
          (seqM (modM (\<lambda>s. s\<lparr>cx_tm := None\<rparr>))
          (with_excl
            (seqM (upd_net (\<lambda>n. n\<lparr>net_listeners := []\<rparr>))
            (seqM (bindM (getM actors) (\<lambda>as. forM as (stop_one (net_vtable dl vt))))
              (modM (\<lambda>s. s\<lparr>actors := [], mboxes := [], id_by_name := []\<rparr>))))))))))))"

text \<open>Calls of the network library in a row, and the joins.\<close>

lemma forM_ext:
  assumes "\<And>x s. f x s = (Inr (), s\<lparr>usr := (usr s)\<lparr>net_ext := g x (net_ext (usr s))\<rparr>\<rparr>)"
  shows "forM xs f s = (Inr (), s\<lparr>usr := (usr s)\<lparr>net_ext := fold g xs (net_ext (usr s))\<rparr>\<rparr>)"
  by (induction xs arbitrary: s) (simp_all add: assms)

lemma join_all:
  "stopping_begin s \<Longrightarrow> n \<le> length (net_threads (usr s)) \<Longrightarrow> list_all id (net_threads (usr s)) \<Longrightarrow>
   forM [0..<n] join_thread s = (Inr (), s\<lparr>usr := (usr s)\<lparr>net_threads := replicate n False @ drop n (net_threads (usr s))\<rparr>\<rparr>)"
proof (induction n)
  case (Suc n)
  let ?ts = "net_threads (usr s)"
  have j: "?ts ! n" using Suc.prems(2,3) by (simp add: list_all_length)
  have "(replicate n False @ drop n ?ts)[n := False] = replicate (Suc n) False @ drop (Suc n) ?ts"
    using Suc.prems(2) by (simp add: list_update_append replicate_append_same [symmetric] Cons_nth_drop_Suc [symmetric] del: replicate_append_same)
  then show ?case
    using Suc j by (simp add: forM_append join_thread_def upd_net_def nth_append Cons_nth_drop_Suc [symmetric])
qed simp

text \<open>
  What the actors' \<^verbatim>\<open>on_stop\<close> does to the connections: each connection actor disconnects the entry of its host once
  more and erases it. The listener actors find nothing, as \<^verbatim>\<open>stop\<close> has cleared their map.
\<close>

fun again :: "(actor_ptr \<Rightarrow> actor_class) \<Rightarrow> (actor_ptr \<Rightarrow> dial_params) \<Rightarrow> actor_ptr list \<Rightarrow> (dial_params \<times> nat) list \<Rightarrow> nat list" where
  "again k cp [] cs = []"
| "again k cp (p # ps) cs = (if k p = Network_con_actor
     then (case map_of cs (cp p) of None \<Rightarrow> again k cp ps cs | Some h \<Rightarrow> h # again k cp ps (AList.delete (cp p) cs))
     else again k cp ps cs)"

lemma again_all: "p \<in> set ps \<Longrightarrow> k p = Network_con_actor \<Longrightarrow> map_of cs (cp p) = Some h \<Longrightarrow> h \<in> set (again k cp ps cs)"
proof (induction ps arbitrary: cs)
  case (Cons q ps)
  show ?case
  proof (cases "q = p \<or> k q = Network_con_actor \<and> cp q = cp p")
    case True
    then show ?thesis using Cons.prems by auto
  next
    case False
    then have "h \<in> set (again k cp ps cs)" "cp q \<noteq> cp p \<longrightarrow> k q = Network_con_actor \<longrightarrow> h \<in> set (again k cp ps (AList.delete (cp q) cs))"
      using Cons by (auto simp: map_of_delete)
    with False show ?thesis by (auto split: option.splits)
  qed
qed simp

lemma erase_none:
  assumes "cx_xlock s = Unlocked"
  shows "map_of (net_connections (usr s)) c = None \<Longrightarrow> erase_connections dl c s = (Inr (), s)"
    and "map_of (net_listeners (usr s)) port = None \<Longrightarrow> erase_listener_on dl port s = (Inr (), s)"
  using assms cx_xlock_idem [of s Unlocked] by (simp_all add: erase_connections_def erase_listener_on_def with_xexcl_def)

lemma erase_entry:
  assumes "cx_xlock s = Unlocked" and "map_of (net_connections (usr s)) c = Some h"
  shows "erase_connections dl c s = (Inr (), s\<lparr>usr := (usr s)\<lparr>net_ext := dl_disconnect dl h (net_ext (usr s)),
    net_connections := AList.delete c (net_connections (usr s))\<rparr>\<rparr>)"
  using assms cx_xlock_idem [of "s\<lparr>usr := u\<rparr>" Unlocked for u]
  by (simp add: erase_connections_def with_xexcl_def upd_net_def)

definition after_stop :: "('m, 'x) dialler_lib \<Rightarrow> actor_ptr \<Rightarrow> 'x net_ctx \<Rightarrow> 'x net_state" where
  "after_stop dl p s = (let c = con_cp (con_of (usr s) p) in
     case (if class_of (objs s p) = Network_con_actor then map_of (net_connections (usr s)) c else None) of
       None \<Rightarrow> usr s
     | Some h \<Rightarrow> (usr s)\<lparr>net_ext := dl_disconnect dl h (net_ext (usr s)), net_connections := AList.delete c (net_connections (usr s))\<rparr>)"

lemma net_on_stop_run:
  assumes vt: "v_on_stop vt = base_on_stop" and x: "cx_xlock s = Unlocked" and l: "net_listeners (usr s) = []"
  shows "call_on_stop (net_vtable dl vt) p s =
    (Inr (), s\<lparr>usr := after_stop dl p s, objs := (objs s)(p := update_status STOPED (objs s p))\<rparr>)"
proof (cases "class_of (objs s p) = Network_con_actor")
  case con: True
  let ?c = "con_cp (con_of (usr s) p)"
  have call: "call_on_stop (net_vtable dl vt) p s = con_on_stop dl p s"
    using con by (simp add: call_on_stop_def vt_of_def library_class_def net_vtable_def)
  show ?thesis
  proof (cases "map_of (net_connections (usr s)) ?c")
    case None
    then show ?thesis using erase_none(1) [OF x None, of dl] con call by (simp add: con_on_stop_def base_on_stop_app after_stop_def seqM_def bindM_def)
  next
    case (Some h)
    then show ?thesis using erase_entry [OF x Some, of dl] con call by (simp add: con_on_stop_def base_on_stop_app after_stop_def seqM_def bindM_def)
  qed
next
  case False
  moreover have "lst_on_stop dl p s = base_on_stop p s"
    using erase_none(2) [OF x, of "lst_port (usr s) p" dl] l by (simp add: lst_on_stop_def seqM_def bindM_def)
  ultimately have "call_on_stop (net_vtable dl vt) p s = base_on_stop p s"
    using vt by (simp add: call_on_stop_def vt_of_def net_vtable_def base_vtable_def split: actor_class.splits)
  then show ?thesis using False by (simp add: base_on_stop_app after_stop_def)
qed

abbreviation repeated :: "'x net_ctx \<Rightarrow> (id_t \<times> description) list \<Rightarrow> nat list" where
  "repeated s as \<equiv> again (\<lambda>p. class_of (objs s p)) (\<lambda>p. con_cp (con_of (usr s) p)) (map (d_actor \<circ> snd) as) (net_connections (usr s))"

definition told :: "('m, 'x) dialler_lib \<Rightarrow> (id_t \<times> description) list \<Rightarrow> 'x net_ctx \<Rightarrow> 'x net_ctx \<Rightarrow> bool" where
  "told dl as s t \<longleftrightarrow> stop_frame s t \<and> net_listeners (usr t) = net_listeners (usr s) \<and> net_threads (usr t) = net_threads (usr s) \<and>
     net_ext (usr t) = fold (dl_disconnect dl) (repeated s as) (net_ext (usr s)) \<and>
     (\<forall>p. p \<in> d_actor ` snd ` set as \<or> status_kind (objs s p) = STOPED \<longrightarrow> status_kind (objs t p) = STOPED)"

lemma drop_usrcont_usr [simp]: "usr (drop_usrcont i s) = usr s"
  by (simp add: drop_usrcont_def split: option.splits)

lemma after_stop_sel:
  "net_listeners (after_stop dl p s) = net_listeners (usr s)" "net_threads (after_stop dl p s) = net_threads (usr s)"
  "con_of (after_stop dl p s) = con_of (usr s)"
  by (simp_all add: after_stop_def Let_def split: option.splits)

lemma stop_all_net:
  assumes vt: "v_on_stop vt = base_on_stop" and "cx_xlock s = Unlocked" and "net_listeners (usr s) = []"
  shows "\<exists>t. forM as (stop_one (net_vtable dl vt)) s = (Inr (), t) \<and> told dl as s t"
  using assms(2,3)
proof (induction as arbitrary: s)
  case (Cons a as)
  obtain i d where a: "a = (i, d)" by (cases a)
  define s1 where "s1 = drop_usrcont i (s\<lparr>usr := after_stop dl (d_actor d) s,
      objs := (objs s)(d_actor d := update_status STOPED (objs s (d_actor d)))\<rparr>)"
  have k: "class_of (objs s1 p) = class_of (objs s p)" "con_of (usr s1) = con_of (usr s)" for p
    by (simp_all add: s1_def after_stop_sel update_status_def)
  have one: "stop_one (net_vtable dl vt) (i, d) s = (Inr (), s1)"
    using net_on_stop_run [OF vt Cons.prems, of dl "d_actor d"] by (simp add: s1_def)
  from Cons.IH [of s1] Cons.prems obtain t where
    t: "forM as (stop_one (net_vtable dl vt)) s1 = (Inr (), t)" "told dl as s1 t"
    by (auto simp: s1_def after_stop_sel)
  have f: "stop_frame s s1" "net_listeners (usr s1) = net_listeners (usr s)" "net_threads (usr s1) = net_threads (usr s)"
    by (simp_all add: s1_def stop_frame_def after_stop_sel)
  have "fold (dl_disconnect dl) (repeated s1 as) (net_ext (usr s1)) = fold (dl_disconnect dl) (repeated s (a # as)) (net_ext (usr s))"
    unfolding k by (simp add: a s1_def after_stop_def Let_def split: option.splits)
  moreover have "status_kind (objs s1 (d_actor d)) = STOPED" "status_kind (objs s p) = STOPED \<Longrightarrow> status_kind (objs s1 p) = STOPED" for p
    by (auto simp: s1_def update_status_def)
  ultimately have "told dl (a # as) s t"
    using t(2) f stop_frame_trans [OF f(1)] by (auto simp: told_def a)
  then show ?case using one t(1) by (auto simp: a simp del: stop_one.simps)
qed (simp add: told_def stop_frame_def)

lemma close_all:
  "forM cs (close_connection dl) s = (Inr (), s\<lparr>usr := (usr s)\<lparr>net_ext :=
     fold (\<lambda>l x. dl_dial_wait_stop dl (snd l) (dl_disconnect dl (snd l) x)) cs (net_ext (usr s))\<rparr>\<rparr>)"
  "forM ls (close_listener dl) s = (Inr (), s\<lparr>usr := (usr s)\<lparr>net_ext :=
     fold (\<lambda>l x. dl_listener_wait_stop dl (snd l) (dl_listener_stop dl (snd l) x)) ls (net_ext (usr s))\<rparr>\<rparr>)"
  by (rule forM_ext; simp add: close_connection_def close_listener_def)+

text \<open>The state of the network library once the connections and then the listeners are closed.\<close>

definition closed :: "('m, 'x) dialler_lib \<Rightarrow> 'x net_state \<Rightarrow> 'x" where
  "closed dl n = fold (\<lambda>l x. dl_listener_wait_stop dl (snd l) (dl_listener_stop dl (snd l) x)) (net_listeners n)
     (fold (\<lambda>l x. dl_dial_wait_stop dl (snd l) (dl_disconnect dl (snd l) x)) (net_connections n) (net_ext n))"

lemma net_stop_prefix:
  assumes "list_all id (net_threads (usr s))"
  shows "net_context_stop dl vt s = (case cx_tm s of
      None \<Rightarrow> (Inl NullDeref, s\<lparr>stopping_begin := True, usr := (usr s)\<lparr>net_ext := closed dl (usr s),
        net_threads := replicate (length (net_threads (usr s))) False\<rparr>\<rparr>)
    | Some m \<Rightarrow> with_excl (seqM (upd_net (\<lambda>n. n\<lparr>net_listeners := []\<rparr>))
        (seqM (bindM (getM actors) (\<lambda>as. forM as (stop_one (net_vtable dl vt))))
          (modM (\<lambda>s. s\<lparr>actors := [], mboxes := [], id_by_name := []\<rparr>))))
        (s\<lparr>stopping_begin := True, usr := (usr s)\<lparr>net_ext := closed dl (usr s),
          net_threads := replicate (length (net_threads (usr s))) False\<rparr>, cx_tm := None\<rparr>))"
proof -
  let ?s = "s\<lparr>usr := (usr s)\<lparr>net_ext := closed dl (usr s)\<rparr>, stopping_begin := True\<rparr>"
  have "forM [0..<length (net_threads (usr s))] join_thread ?s = (Inr (), ?s\<lparr>usr := (usr ?s)\<lparr>net_threads :=
      replicate (length (net_threads (usr s))) False\<rparr>\<rparr>)"
    using join_all [of ?s "length (net_threads (usr s))"] assms by simp
  then show ?thesis
    by (simp add: net_context_stop_def close_all closed_def seqM_def bindM_def split: option.split)
qed

lemma join_twice:
  assumes "net_threads (usr s) \<noteq> []" and "set (net_threads (usr s)) \<subseteq> {False}"
  shows "fst (net_context_stop dl vt s) = Inl (Throw ''Invalid argument'')"
proof -
  have "[0..<length (net_threads (usr s))] = 0 # [1..<length (net_threads (usr s))]" using assms(1) by (simp add: upt_conv_Cons)
  moreover have "\<not> net_threads (usr s) ! 0" using assms by (cases "net_threads (usr s)") auto
  ultimately show ?thesis by (simp add: net_context_stop_def close_all join_thread_def seqM_def bindM_def)
qed

text \<open>An example: a connection and its actor, a listener and one polling thread, over a library that records disconnecting.\<close>

definition demo_stop :: "(byte list \<times> nat) list net_ctx" where
  "demo_stop = with_usr \<lparr>net_root = address_default, net_threads = [True], net_connections = [((''h'', 80), 5)],
      net_listeners = [(90, 6)], lst_port = (\<lambda>_. 0),
      con_of = (\<lambda>_. \<lparr>con_handle = 5, con_cp = (''h'', 80), con_target_host = ''h:80''\<rparr>), net_ext = []\<rparr>
    (demo_family\<lparr>objs := (objs demo_family)(1 := base_actor_new Network_con_actor)\<rparr>)"

definition stop_lib :: "(byte list \<times> nat, (byte list \<times> nat) list) dialler_lib" where
  "stop_lib = demo_lib\<lparr>dl_disconnect := (\<lambda>h x. x @ [([], h)])\<rparr>"

section \<open>Properties\<close>



text \<open>
  C39: \<^verbatim>\<open>stop\<close> in a build with the network: it returns with no actor, mailbox, name or listener registered, the thread
  manager gone and every polling thread joined; connections and listeners were closed, in this order, every actor that
  keeps the default \<^verbatim>\<open>on_stop\<close> is \<^verbatim>\<open>STOPED\<close>, and the network library sees nothing but these calls and, for every connection whose
  actor is still registered, a second \<^verbatim>\<open>disconnect\<close>, as \<^verbatim>\<open>stop\<close> clears the map of the listeners before it tells the actors but not
  that of the connections. With a polling thread, a second \<^verbatim>\<open>stop\<close> throws when it joins.
\<close>

theorem net_stop_spec:
  assumes vt: "v_on_stop vt = base_on_stop" and tm: "cx_tm s = Some m" and un: "unlocked s"
    and th: "list_all id (net_threads (usr s))"
  shows "\<exists>s'. net_context_stop dl vt s = (Inr (), s') \<and> actors s' = [] \<and> mboxes s' = [] \<and> id_by_name s' = [] \<and>
    cx_tm s' = None \<and> stopping_begin s' \<and> unlocked s' \<and> net_listeners (usr s') = [] \<and> set (net_threads (usr s')) \<subseteq> {False} \<and>
    (\<forall>(i, d) \<in> set (actors s). status_kind (objs s' (d_actor d)) = STOPED) \<and>
    net_ext (usr s') = fold (dl_disconnect dl) (repeated s (actors s)) (closed dl (usr s)) \<and>
    (\<forall>(i, d) \<in> set (actors s). class_of (objs s (d_actor d)) = Network_con_actor \<and>
       map_of (net_connections (usr s)) (con_cp (con_of (usr s) (d_actor d))) = Some h \<longrightarrow> h \<in> set (repeated s (actors s))) \<and>
    (net_threads (usr s) \<noteq> [] \<longrightarrow> fst (net_context_stop dl vt s') = Inl (Throw ''Invalid argument''))"
proof -
  let ?n = "(usr s)\<lparr>net_ext := closed dl (usr s), net_threads := replicate (length (net_threads (usr s))) False, net_listeners := []\<rparr>"
  let ?s0 = "s\<lparr>stopping_begin := True, cx_tm := None, cx_lock := Exclusive, usr := ?n\<rparr>"
  from stop_all_net [OF vt, where s = ?s0 and dl = dl and as = "actors s"] un obtain t where
    t: "forM (actors s) (stop_one (net_vtable dl vt)) ?s0 = (Inr (), t)" "told dl (actors s) ?s0 t" by auto
  define s' where "s' = t\<lparr>actors := [], mboxes := [], id_by_name := [], cx_lock := Unlocked\<rparr>"
  have run: "net_context_stop dl vt s = (Inr (), s')"
    using t(1) tm un by (simp add: net_stop_prefix [OF th] with_excl_def upd_net_def s'_def)
  have f: "cx_tm s' = None" "stopping_begin s'" "unlocked s'" "net_listeners (usr s') = []" "set (net_threads (usr s')) \<subseteq> {False}"
    "length (net_threads (usr s')) = length (net_threads (usr s))"
    using t(2) un by (auto simp: told_def stop_frame_def s'_def)
  have e: "net_ext (usr s') = fold (dl_disconnect dl) (repeated s (actors s)) (closed dl (usr s))"
    "\<forall>(i, d) \<in> set (actors s). status_kind (objs s' (d_actor d)) = STOPED"
    using t(2) by (force simp: told_def s'_def)+
  have "h \<in> set (repeated s (actors s))" if "(i, d) \<in> set (actors s)" "class_of (objs s (d_actor d)) = Network_con_actor"
    "map_of (net_connections (usr s)) (con_cp (con_of (usr s) (d_actor d))) = Some h" for i d
    using that by (intro again_all [where p = "d_actor d"]) force+
  moreover have "net_threads (usr s) \<noteq> [] \<longrightarrow> fst (net_context_stop dl vt s') = Inl (Throw ''Invalid argument'')"
    using join_twice [OF _ f(5)] f(6) by fastforce
  ultimately show ?thesis
    using run f e by (intro exI [of _ s']) (auto simp: s'_def)
qed

theorem net_stop_spec_witness:
  "\<exists>s'. net_context_stop stop_lib base_vtable demo_stop = (Inr (), s') \<and> net_ext (usr s') = [([], 5), ([], 5)] \<and>
    actors s' = [] \<and> fst (net_context_stop stop_lib base_vtable s') = Inl (Throw ''Invalid argument'')"
proof -
  have "v_on_stop base_vtable = base_on_stop" by (simp add: base_vtable_def)
  moreover have "cx_tm demo_stop = cx_tm demo_family" "unlocked demo_stop" "net_threads (usr demo_stop) = [True]"
    "map (d_actor \<circ> snd) (actors demo_stop) = [0, 1]" "class_of (objs demo_stop 0) = User_actor" "class_of (objs demo_stop 1) = Network_con_actor"
    by (simp_all add: demo_stop_def with_usr_def demo_family_sel base_actor_new_def)
      (simp_all add: demo_family_def demo_parent_def demo_ctx_def demo_desc_def demo_obj_def base_actor_new_def)
  moreover have "cx_tm demo_family = Some (demo_tm [T_on_start 0, T_on_start 1])" by (simp add: demo_family_def)
  moreover have "closed stop_lib (usr demo_stop) = [([], 5)]" "net_connections (usr demo_stop) = [((''h'', 80), 5)]"
    "con_cp (con_of (usr demo_stop) p) = (''h'', 80)" for p
    by (simp_all add: closed_def stop_lib_def demo_lib_def demo_stop_def with_usr_def)
  ultimately show ?thesis
    using net_stop_spec [of base_vtable demo_stop "demo_tm [T_on_start 0, T_on_start 1]" stop_lib 5]
    by (fastforce simp: stop_lib_def)
qed

end
