(* ===== verification/Spec2Isabelle.thy ===== *)
theory Spec2Isabelle
  imports Yaaf_Typing Yaaf_Net_Setup Yaaf_Logger Yaaf_Task_Result Yaaf_Ping_Pong Yaaf_Net_Example Yaaf_Net_Stop
begin

text \<open>
  A verification library for \<^verbatim>\<open>yaaf\<close>, an actor framework in C++. A \<^verbatim>\<open>context\<close> keeps a tree of actors, gives each
  a mailbox, moves envelopes between them and runs their handlers on a thread pool; a parent supervises its
  children; exchanges are topics actors publish to and subscribe to; a network part carries messages
  between contexts. Paths below are relative to \<^verbatim>\<open>src/libyaaf\<close>.

  \<^bold>\<open>How the parts work together.\<close> A client or a handler calls the context, a handler through its facade
  \<^verbatim>\<open>user_context\<close>. Sending appends to a mailbox. The task \<^verbatim>\<open>mailbox_worker\<close>, which repeats for ever in the system
  pool, moves published envelopes to the subscribers' mailboxes and posts an apply task to the user pool for
  every idle actor with a filled mailbox; \<^verbatim>\<open>base_actor::apply\<close> drains the mailbox through the actor's handler.
  When the handler throws, the context asks the parent, and the parent's ancestors, what to do.

  \<^bold>\<open>How the model is shaped.\<close> An operation is a function from a state to a fault or a value and the state it
  leaves (\<open>Yaaf_Prelude\<close>); faults are exceptions and the undefined behaviour the code can meet. Actors and
  mailboxes are shared, so they live in a store indexed by pointers, which the record of the context
  extends. The virtual functions of the user's classes are a parameter (\<open>vtable\<close>), as are the network library
  and the outcomes of \<^verbatim>\<open>try_lock\<close>. Threads are step relations. \<^verbatim>\<open>ENSURE\<close> is in force when \<open>double_checks\<close>, the build
  option, is set.

  \<^bold>\<open>Theories, sources and what the lemmas show\<close>
  \<^item> \<open>Yaaf_Prelude\<close>: operations, triples, \<^verbatim>\<open>std::unordered_map\<close> as an association list, decimal printing.
  \<^item> \<open>Yaaf_Types\<close> (\<^verbatim>\<open>types.h\<close>, \<^verbatim>\<open>actor_address.h\<close>, \<^verbatim>\<open>actor_settings.*\<close>, the enumerations of \<^verbatim>\<open>actor.h\<close>): identifiers
    as 64 bit words, with the order the rest uses.
  \<^item> \<open>Yaaf_Utils\<close> (\<^verbatim>\<open>utils/strings.*\<close>, the checks of \<^verbatim>\<open>utils/exception.h\<close> and \<^verbatim>\<open>utils/utils.h\<close>): splitting against a
    reference definition and against joining.
  \<^item> \<open>Yaaf_Payload\<close> (\<^verbatim>\<open>payload.h\<close>, \<^verbatim>\<open>envelope.h\<close>, the structs of \<^verbatim>\<open>context_network.h\<close>): casts and copies, and what an
    empty payload does.
  \<^item> \<open>Yaaf_Mailbox\<close> (\<^verbatim>\<open>mailbox.h\<close>): a first-in first-out contract, the locale \<open>fifo_box\<close>.
  \<^item> \<open>Yaaf_Actor\<close> (\<^verbatim>\<open>actor.*\<close>): \<^verbatim>\<open>apply\<close> releases the actor on every path, handles each envelope once and in order,
    and ends.
  \<^item> \<open>Yaaf_Async\<close> (\<^verbatim>\<open>utils/async/task.*\<close>, \<^verbatim>\<open>thread_pool.*\<close>, \<^verbatim>\<open>thread_manager.*\<close>): the pool as a step relation over its
    threads; tasks are neither lost nor duplicated, what \<^verbatim>\<open>flush\<close> and \<^verbatim>\<open>stop\<close> establish; the locale \<open>task_sink\<close> is
    what the context relies on.
  \<^item> \<open>Yaaf_Task_Result\<close> (\<^verbatim>\<open>task_result\<close> of \<^verbatim>\<open>utils/async/task.h\<close>): waiting for a task with its mutex and condition variable,
    step by step: when a waiter is back, when all of them come back, and how one is missed.
  \<^item> \<open>Yaaf_Context_State\<close>, \<open>Yaaf_Context\<close> (\<^verbatim>\<open>context.h\<close>, \<^verbatim>\<open>context.cpp\<close>): members, mutexes, callbacks, then construction,
    lookup, sending, adding, stopping and failure handling.
  \<^item> \<open>Yaaf_Tree\<close>, \<open>Yaaf_Context_Inv\<close>: the registry is a tree, the recursion of \<^verbatim>\<open>stop_actor_impl\<close> walks exactly a
    subtree of it (locale \<open>quiet_callbacks\<close>), and the invariant \<open>ctx_inv\<close> of a context.
  \<^item> \<open>Yaaf_Registry\<close>: an abstract registry of members and inboxes; adding, sending and stopping refine its
    operations.
  \<^item> \<open>Yaaf_Lifecycle\<close>: what \<^verbatim>\<open>make_context\<close> leaves and what \<^verbatim>\<open>stop\<close> does, once and twice.
  \<^item> \<open>Yaaf_Failure\<close>: escalation reaches a decision, and the effect of each decision.
  \<^item> \<open>Yaaf_Exchange\<close>, \<open>Yaaf_Worker\<close>: subscription and delivery, and one pass of \<^verbatim>\<open>mailbox_worker\<close>.
  \<^item> \<open>Yaaf_User_Context\<close> (the facade in \<^verbatim>\<open>context.cpp\<close>, the templates of \<^verbatim>\<open>abstract_context.h\<close>): the sender is the
    actor's own, and silence after stop.
  \<^item> \<open>Yaaf_System\<close>: mailbox worker, pool threads, handlers and clients interleaved; no actor is run by two threads
    (locale \<open>private_callbacks\<close>, an extension of \<open>quiet_callbacks\<close> and an instance of \<open>private_field\<close>: a member of the
    actors that callbacks leave alone), and what an exception from a task does.
  \<^item> \<open>Yaaf_Progress\<close>: the queue of the user pool only grows at its end and shrinks by what threads take (locale
    \<open>pool_property\<close>, what operations of the context keep of the pool), so a filled mailbox is served.
  \<^item> \<open>Yaaf_Typing\<close>: \<^verbatim>\<open>actor_cast\<close> answers by the class of the actor, which no step changes (locale
    \<open>typed_callbacks\<close>).
  \<^item> \<open>Yaaf_Serialization\<close> (\<^verbatim>\<open>serialization/*\<close>, the packer of \<^verbatim>\<open>context_network.h\<close>): round trips and exact bounds over a byte
    buffer; the locale \<open>packer\<close> is the contract of \<^verbatim>\<open>object_packer\<close>.
  \<^item> \<open>Yaaf_Queries\<close> (\<^verbatim>\<open>network/queries.h\<close>, \<^verbatim>\<open>network/kinds.h\<close>): the protocol's messages, through the locale \<open>packer\<close>.
  \<^item> \<open>Yaaf_Network\<close> (\<^verbatim>\<open>context_network.cpp\<close>): listener, connection and supervisor; a message travels from one
    context to the actor it names in another, and back.
  \<^item> \<open>Yaaf_Net_Setup\<close> (\<^verbatim>\<open>context_network.cpp\<close>): what opening a connection and a listener leaves in the context and asks of
    the network library, and what stopping them does.
  \<^item> \<open>Yaaf_Net_Stop\<close> (\<^verbatim>\<open>context_network.cpp\<close>, the parts of \<^verbatim>\<open>context.cpp\<close> under \<^verbatim>\<open>YAAF_NETWORK_ENABLED\<close>): the polling threads change
    nothing but mailboxes; what \<^verbatim>\<open>stop\<close> does with connections, listeners and those threads.
  \<^item> \<open>Yaaf_Logger\<close> (\<^verbatim>\<open>utils/logger.*\<close>, \<^verbatim>\<open>utils/async/locker.h\<close>): the spin lock excludes; what log calls
    print; what throwing an exception (\<^verbatim>\<open>utils/exception.h\<close>) logs and throws, with the backtrace.
  \<^item> \<open>Yaaf_Ping_Pong\<close> (\<^verbatim>\<open>../examples/ping_pong_example.cpp\<close>): a program on top of it all, from \<^verbatim>\<open>main\<close> to any number of
    exchanges: the components put together behave as the two actors expect, until the number overflows.
  \<^item> \<open>Yaaf_Net_Example\<close> (\<^verbatim>\<open>../examples/network_example.cpp\<close>): a message from one context to an actor of another and
    back, through every mailbox on the way; and how the example can wait for ever.

  \<^bold>\<open>Bounds on recursion.\<close> Where a loop or recursion of the code need not end, the model takes a bound and
  running out of it is the fault \<^const>\<open>Unbounded\<close>. \<^const>\<open>stop_actor_impl_safety\<close> allows one level per registered
  actor and one more: a path down the tree meets no actor twice. \<^const>\<open>escalate\<close> allows two rounds more than
  there are actors, as the walk goes up the same tree. \<^const>\<open>deliver_exchange\<close> allows one round per queued envelope
  and one to see the queue empty, since nothing is published while the locks are held. In each case the
  theorems show that the operation returns. The loop of \<^verbatim>\<open>apply\<close> really may go on for ever, when a handler keeps
  sending to its own actor; its bound is an argument, and termination is proved when the handler does not
  refill the mailbox. In the two examples a bound of two is enough: one envelope, and the empty mailbox.

  \<^bold>\<open>Not modelled.\<close> Memory ordering of atomics (every atomic operation is one step); waiting in destructors;
  clocks and sleeping; the event loop of the network library beyond the callbacks it runs, and the pool of
  kind \<^verbatim>\<open>NETWORK\<close> that a build with the network makes and nothing posts to. Calls of the logger inside other operations are left
  out: they change nothing those can see. The interleaving of \<open>Yaaf_System\<close> takes each critical section, each
  pass of the worker and each call as one step, and its callbacks touch only actor objects and the user's own
  state; handlers are split into the calls they make. Tests and benchmarks are clients of the library and not
  part of it; of the network example \<^verbatim>\<open>main\<close> is left out, which polls in loops; \<^verbatim>\<open>errors.h\<close> declares what nothing uses.
\<close>

end
